(* ===== verification/Dispatch_Prelude.thy ===== *)
theory Dispatch_Prelude
  imports Main "HOL-Library.Word"
begin

unbundle bit_operations_syntax

text \<open>
  Shared vocabulary of the development: the machine integer types of the C sources, the
  overflow-checked arithmetic of \<open>os/overflow\<close> (\<open>os_add_overflow\<close> and friends), the split
  of a machine word at a bit position, and the generic facts on words and lists that
  several components use.
\<close>

section \<open>Machine integers\<close>

type_synonym u8 = "8 word"
type_synonym u16 = "16 word"
type_synonym u32 = "32 word"
type_synonym u64 = "64 word"

named_theorems flag_bits \<open>tests of a single-bit mask as tests of the bit\<close>

text \<open>
  The compiler builtins behind \<open>os_add_overflow\<close>, \<open>os_sub_overflow\<close> and
  \<open>os_mul_overflow\<close>: the wrapped result, or \<open>None\<close> when the exact result does not fit.
\<close>

definition os_add_overflow :: "'w::len word \<Rightarrow> 'w word \<Rightarrow> 'w word option" where
  "os_add_overflow a b = (if unat a + unat b < 2 ^ LENGTH('w) then Some (a + b) else None)"

definition os_sub_overflow :: "'w::len word \<Rightarrow> 'w word \<Rightarrow> 'w word option" where
  "os_sub_overflow a b = (if b \<le> a then Some (a - b) else None)"

definition os_mul_overflow :: "'w::len word \<Rightarrow> 'w word \<Rightarrow> 'w word option" where
  "os_mul_overflow a b = (if unat a * unat b < 2 ^ LENGTH('w) then Some (a * b) else None)"

lemma os_add_overflow_Some:
  "os_add_overflow a b = Some c \<longleftrightarrow> unat a + unat b < 2 ^ LENGTH('w) \<and> c = a + b"
  for a b c :: "'w::len word"
  by (auto simp: os_add_overflow_def)

lemma os_sub_overflow_Some:
  "os_sub_overflow a b = Some c \<longleftrightarrow> b \<le> a \<and> c = a - b"
  by (auto simp: os_sub_overflow_def)

lemma unat_add_no_wrap:
  "unat a + unat b < 2 ^ LENGTH('w) \<Longrightarrow> unat (a + b) = unat a + unat b"
  for a b :: "'w::len word"
  by (simp add: unat_word_ariths)

lemma unat_sub_no_wrap: "b \<le> a \<Longrightarrow> unat (a - b) = unat a - unat b"
  for a b :: "'w::len word"
  by (simp add: unat_sub)

section \<open>Testing masks\<close>

lemma mask_bit_eq_0 [flag_bits]: "(w AND 2 ^ n = 0) = (\<not> bit w n)"
  for w :: "'w::len word"
  by (rule and_exp_eq_0_iff_not_bit)

lemma unat_exp [simp]: "n < LENGTH('w) \<Longrightarrow> unat ((2 :: 'w::len word) ^ n) = 2 ^ n"
proof -
  assume n: "n < LENGTH('w)"
  then have "(0 :: 'w word) < 2 ^ n"
    by (metis exp_eq_zero_iff not_le word_neq_0_conv)
  then have "uint ((2 :: 'w word) ^ n) = 2 ^ n" by (rule uint_2p)
  then show ?thesis
    by (metis nat_numeral nat_power_eq unat_eq_nat_uint zero_le_numeral)
qed

lemma unat_drop_bit: "unat (drop_bit n w) = unat w div 2 ^ n"
  by (simp only: unat_drop_bit_eq drop_bit_nat_def)

lemma unat_take_bit: "unat (take_bit n w) = unat w mod 2 ^ n"
  by (simp only: unsigned_take_bit_eq take_bit_nat_def)

lemma bit_u32_less: "bit (w :: u32) n \<Longrightarrow> n < 32"
  using bit_imp_le_length [of w n] by simp

lemma bit_u64_less: "bit (w :: u64) n \<Longrightarrow> n < 64"
  using bit_imp_le_length [of w n] by simp

lemma word_ge_exp_iff_drop_bit:
  "n < LENGTH('w) \<Longrightarrow> (2 ^ n \<le> w) = (drop_bit n w \<noteq> 0)"
  for w :: "'w::len word"
  by (simp add: word_le_nat_alt unat_eq_0 [symmetric] unat_drop_bit div_eq_0_iff not_less
      del: unat_eq_zero)

lemma word_less_exp_iff_drop_bit:
  "n < LENGTH('w) \<Longrightarrow> (w < 2 ^ n) = (drop_bit n w = 0)"
  for w :: "'w::len word"
  using word_ge_exp_iff_drop_bit [of n w] by (simp add: not_le [symmetric])


lemma unat_ucast_upcast:
  assumes "LENGTH('v::len) \<le> LENGTH('w::len)"
  shows "unat (ucast (w :: 'v word) :: 'w word) = unat w"
proof -
  have "unat w < 2 ^ LENGTH('v)" by (rule unsigned_less)
  also have "(2 :: nat) ^ LENGTH('v) \<le> 2 ^ LENGTH('w)" using assms by simp
  finally show ?thesis by (simp add: unsigned_ucast_eq take_bit_nat_eq_self)
qed

lemma unat_ucast_up [simp]:
  "unat (ucast (w :: u32) :: u64) = unat w"
  "unat (ucast (v :: u16) :: u64) = unat v"
  "unat (ucast (v :: u16) :: u32) = unat v"
  "unat (ucast (b :: u8) :: u64) = unat b"
  "unat (ucast (b :: u8) :: u32) = unat b"
  "unat (ucast (b :: u8) :: u16) = unat b"
  by (rule unat_ucast_upcast; simp)+

section \<open>A field of a number\<close>

lemma field_add:
  assumes "(y :: nat) mod m + k < m"
  shows "(y + k) div m = y div m" "(y + k) mod m = y mod m + k"
proof -
  have eq: "y + k = (y mod m + k) + y div m * m" by simp
  show "(y + k) div m = y div m" unfolding eq using assms by (subst div_mult_self1) auto
  show "(y + k) mod m = y mod m + k" unfolding eq using assms by (subst mod_mult_self1) auto
qed

lemma field_add_carry:
  assumes "(y :: nat) mod m + k = m" "0 < m"
  shows "(y + k) div m = Suc (y div m)" "(y + k) mod m = 0"
proof -
  have "y + k = y div m * m + (y mod m + k)" by simp
  then have eq: "y + k = Suc (y div m) * m" unfolding assms(1) by simp
  show "(y + k) div m = Suc (y div m)" unfolding eq using assms(2)
    by (simp only: nonzero_mult_div_cancel_right neq0_conv)
  show "(y + k) mod m = 0" unfolding eq by (rule mod_mult_self2_is_0)
qed

lemma field_sub:
  assumes "k \<le> (y :: nat) mod m" "0 < m"
  shows "(y - k) div m = y div m" "(y - k) mod m = y mod m - k"
proof -
  have "y = y mod m + y div m * m" by simp
  then have eq: "y - k = (y mod m - k) + y div m * m" using assms by linarith
  have lt: "y mod m - k < m" using assms(2) by (simp add: less_imp_diff_less)
  show "(y - k) div m = y div m" unfolding eq using assms(2) lt by (subst div_mult_self1) auto
  show "(y - k) mod m = y mod m - k" unfolding eq using lt by (subst mod_mult_self1) simp
qed

lemma field_room:
  assumes "(y :: nat) mod m + k \<le> m"
  shows "y + k \<le> Suc (y div m) * m"
proof -
  have "y + k = y div m * m + (y mod m + k)" by simp
  also have "\<dots> \<le> y div m * m + m" by (rule add_left_mono [OF assms])
  finally show ?thesis by (simp only: mult_Suc add.commute)
qed

lemma mod_div_field:
  assumes "0 < (m :: nat)"
  shows "h mod (m * c) div m = h div m mod c"
  unfolding mod_mult2_eq using assms by simp

lemma odd_mod_4: "odd (x mod 4) = odd x" for x :: nat
  by presburger

end
