(* ===== verification/Dispatch_Lock.thy ===== *)
theory Dispatch_Lock
  imports Dispatch_Prelude
begin

text \<open>
  The lock word of \<open>src/libdispatch_sourceCode/src/shims/lock.h\<close> (Darwin encoding): the owner's
  thread port in bits 2 to 31, the inverted waiters bit 0 and the inverted failed-trylock bit 1.
  The primitives built on the word are in \<open>Unfair_Lock\<close>, \<open>Thread_Event\<close> and \<open>Dispatch_Once\<close>, the
  word is also the low half of a queue's state (\<open>Queue_State\<close>).
\<close>

section \<open>The lock word\<close>

type_synonym dispatch_lock = u32
type_synonym dispatch_lock_owner = u32

definition DLOCK_OWNER_NULL :: dispatch_lock_owner where "DLOCK_OWNER_NULL = 0"
definition DLOCK_OWNER_MASK :: dispatch_lock where "DLOCK_OWNER_MASK = 0xfffffffc"
definition DLOCK_NOWAITERS_BIT :: dispatch_lock where "DLOCK_NOWAITERS_BIT = 0x00000001"
definition DLOCK_NOFAILED_TRYLOCK_BIT :: dispatch_lock where
  "DLOCK_NOFAILED_TRYLOCK_BIT = 0x00000002"

definition dispatch_lock_is_locked :: "dispatch_lock \<Rightarrow> bool" where
  "dispatch_lock_is_locked lock_value = (lock_value AND DLOCK_OWNER_MASK \<noteq> 0)"

definition dispatch_lock_owner :: "dispatch_lock \<Rightarrow> dispatch_lock_owner" where
  "dispatch_lock_owner lock_value =
     (let lock_value = lock_value AND DLOCK_OWNER_MASK
      in if lock_value \<noteq> 0
         then lock_value OR (DLOCK_NOWAITERS_BIT OR DLOCK_NOFAILED_TRYLOCK_BIT)
         else lock_value)"

definition dispatch_lock_is_locked_by :: "dispatch_lock \<Rightarrow> dispatch_lock_owner \<Rightarrow> bool" where
  "dispatch_lock_is_locked_by lock_value tid = ((lock_value XOR tid) AND DLOCK_OWNER_MASK = 0)"

definition dispatch_lock_has_waiters :: "dispatch_lock \<Rightarrow> bool" where
  "dispatch_lock_has_waiters lock_value =
     (let nowaiters_bit = (lock_value AND DLOCK_NOWAITERS_BIT \<noteq> 0)
      in dispatch_lock_is_locked lock_value \<noteq> nowaiters_bit)"

definition dispatch_lock_has_failed_trylock :: "dispatch_lock \<Rightarrow> bool" where
  "dispatch_lock_has_failed_trylock lock_value =
     (\<not> (lock_value AND DLOCK_NOFAILED_TRYLOCK_BIT \<noteq> 0))"

text \<open>
  \<open>_dispatch_tid_self()\<close> is the Mach port name of the thread: a value the kernel chooses,
  nonzero above the two flag bits, with both flag bits set (this is the form
  \<open>_dispatch_lock_owner\<close> restores).
\<close>

definition valid_tid :: "dispatch_lock_owner \<Rightarrow> bool" where
  "valid_tid t = (bit t 0 \<and> bit t 1 \<and> dispatch_lock_is_locked t)"

subsection \<open>The word, bit by bit\<close>

lemma bit_owner_mask [simp]: "bit DLOCK_OWNER_MASK n = (2 \<le> n \<and> n < 32)"
proof -
  have eq: "DLOCK_OWNER_MASK = NOT (mask 2)" by (simp add: DLOCK_OWNER_MASK_def mask_numeral)
  show ?thesis unfolding eq by (auto simp: bit_simps)
qed

lemma bit_nowaiters [simp]: "bit DLOCK_NOWAITERS_BIT n = (n = 0)"
  by (auto simp: DLOCK_NOWAITERS_BIT_def bit_1_iff)

lemma bit_nofailed [simp]: "bit DLOCK_NOFAILED_TRYLOCK_BIT n = (n = 1)"
proof -
  have eq: "DLOCK_NOFAILED_TRYLOCK_BIT = 2 ^ 1" by (simp add: DLOCK_NOFAILED_TRYLOCK_BIT_def)
  show ?thesis unfolding eq bit_exp_iff by auto
qed

lemma nowaiters_test [flag_bits]: "(w AND DLOCK_NOWAITERS_BIT = 0) = (\<not> bit w 0)"
  using mask_bit_eq_0 [of w 0] by (simp add: DLOCK_NOWAITERS_BIT_def)

lemma nofailed_test [flag_bits]: "(w AND DLOCK_NOFAILED_TRYLOCK_BIT = 0) = (\<not> bit w 1)"
  using mask_bit_eq_0 [of w 1] by (simp add: DLOCK_NOFAILED_TRYLOCK_BIT_def)

lemma is_locked_iff: "dispatch_lock_is_locked w = (\<exists>n. 2 \<le> n \<and> bit w n)"
  using bit_u32_less [of w] by (auto simp: dispatch_lock_is_locked_def bit_eq_iff bit_simps)

lemma is_locked_by_iff: "dispatch_lock_is_locked_by w t = (\<forall>n\<ge>2. bit w n = bit t n)"
proof -
  have "dispatch_lock_is_locked_by w t = (\<forall>n<32. 2 \<le> n \<longrightarrow> bit w n = bit t n)"
    by (auto simp: dispatch_lock_is_locked_by_def bit_eq_iff bit_simps)
  then show ?thesis using bit_u32_less [of w] bit_u32_less [of t] by blast
qed

lemma bit_lock_owner:
  "bit (dispatch_lock_owner w) n =
     (if n < 2 then dispatch_lock_is_locked w else bit w n)"
proof (cases "dispatch_lock_is_locked w")
  case True
  then show ?thesis using bit_u32_less [of w n]
    by (auto simp: dispatch_lock_owner_def Let_def dispatch_lock_is_locked_def bit_simps)
next
  case False
  then have "dispatch_lock_owner w = 0"
    by (simp add: dispatch_lock_owner_def dispatch_lock_is_locked_def)
  with False show ?thesis by (auto simp: is_locked_iff)
qed

lemma tid_eqI:
  assumes "valid_tid t" "valid_tid u" "\<forall>n\<ge>2. bit t n = bit u n"
  shows "t = u"
proof (rule bit_word_eqI)
  fix n :: nat
  show "bit t n = bit u n"
    using assms by (cases "n < 2") (auto simp: valid_tid_def less_2_cases_iff)
qed

lemma locked_byD: "valid_tid t \<Longrightarrow> dispatch_lock_is_locked_by w t \<Longrightarrow> dispatch_lock_is_locked w"
  by (auto simp: is_locked_by_iff is_locked_iff valid_tid_def)

lemma lock_owner_eq_iff:
  assumes "valid_tid t"
  shows "dispatch_lock_owner w = t \<longleftrightarrow> dispatch_lock_is_locked_by w t"
proof
  assume "dispatch_lock_owner w = t"
  then show "dispatch_lock_is_locked_by w t"
    by (auto simp: is_locked_by_iff bit_lock_owner)
next
  assume ass: "dispatch_lock_is_locked_by w t"
  then have "dispatch_lock_is_locked w" by (rule locked_byD [OF assms])
  then show "dispatch_lock_owner w = t"
    using assms ass
    by (intro bit_word_eqI)
      (auto simp: bit_lock_owner is_locked_by_iff valid_tid_def less_2_cases_iff)
qed

lemma lock_owner_tid [simp]: "valid_tid t \<Longrightarrow> dispatch_lock_owner t = t"
  by (simp add: lock_owner_eq_iff is_locked_by_iff)

lemma locked_by_unique:
  "valid_tid t \<Longrightarrow> valid_tid u \<Longrightarrow> dispatch_lock_is_locked_by w t \<Longrightarrow>
    dispatch_lock_is_locked_by w u \<Longrightarrow> t = u"
  by (metis lock_owner_eq_iff)

lemma valid_tid_nonzero: "valid_tid t \<Longrightarrow> t \<noteq> 0"
  by (auto simp: valid_tid_def)

end
