(* ===== verification/Queue_State.thy ===== *)
theory Queue_State
  imports Dispatch_Lock
begin

text \<open>
  The 64-bit state word \<open>dq_state\<close> of a dispatch queue: the bit layout of
  \<open>src/libdispatch_sourceCode/src/queue_internal.h\<close> and the accessors and atomic transitions
  of \<open>inline_internal.h\<close> (the sections \<open>dq_state accessors\<close> and \<open>dispatch_queue_t state
  machine\<close>), with the completion of a non-barrier item from \<open>queue.c\<close>. A transition is the
  body of its \<open>os_atomic_rmw_loop\<close> as a function from the word that was read to the word the
  successful compare-and-swap writes; a transition that gives up returns \<open>None\<close> or leaves the
  word alone, as its source does.
\<close>

section \<open>Layout\<close>

definition DISPATCH_QUEUE_SUSPEND_INTERVAL :: u64 where
  "DISPATCH_QUEUE_SUSPEND_INTERVAL = 0x0200000000000000"
definition DISPATCH_QUEUE_SUSPEND_HALF :: u32 where
  "DISPATCH_QUEUE_SUSPEND_HALF = 0x40"
definition DISPATCH_QUEUE_HAS_SIDE_SUSPEND_CNT :: u64 where
  "DISPATCH_QUEUE_HAS_SIDE_SUSPEND_CNT = 0x0100000000000000"
definition DISPATCH_QUEUE_INACTIVE :: u64 where
  "DISPATCH_QUEUE_INACTIVE = 0x0080000000000000"
definition DISPATCH_QUEUE_NEEDS_ACTIVATION :: u64 where
  "DISPATCH_QUEUE_NEEDS_ACTIVATION = 0x0040000000000000"
definition DISPATCH_QUEUE_SUSPEND_BITS_MASK :: u64 where
  "DISPATCH_QUEUE_SUSPEND_BITS_MASK = 0xffc0000000000000"
definition DISPATCH_QUEUE_IN_BARRIER :: u64 where
  "DISPATCH_QUEUE_IN_BARRIER = 0x0020000000000000"
definition DISPATCH_QUEUE_WIDTH_FULL_BIT :: u64 where
  "DISPATCH_QUEUE_WIDTH_FULL_BIT = 0x0010000000000000"
definition DISPATCH_QUEUE_WIDTH_FULL :: u64 where
  "DISPATCH_QUEUE_WIDTH_FULL = 0x8000"
definition DISPATCH_QUEUE_WIDTH_INTERVAL :: u64 where
  "DISPATCH_QUEUE_WIDTH_INTERVAL = 0x0000002000000000"
definition DISPATCH_QUEUE_WIDTH_MASK :: u64 where
  "DISPATCH_QUEUE_WIDTH_MASK = 0x001fffe000000000"
definition DISPATCH_QUEUE_WIDTH_SHIFT :: nat where
  "DISPATCH_QUEUE_WIDTH_SHIFT = 37"
definition DISPATCH_QUEUE_PENDING_BARRIER :: u64 where
  "DISPATCH_QUEUE_PENDING_BARRIER = 0x0000001000000000"
definition DISPATCH_QUEUE_DIRTY :: u64 where
  "DISPATCH_QUEUE_DIRTY = 0x0000000800000000"
definition DISPATCH_QUEUE_HAS_OVERRIDE :: u64 where
  "DISPATCH_QUEUE_HAS_OVERRIDE = 0x0000000400000000"
definition DISPATCH_QUEUE_DRAIN_PENDED :: u64 where
  "DISPATCH_QUEUE_DRAIN_PENDED = 0x0000000200000000"
definition DISPATCH_QUEUE_ENQUEUED :: u64 where
  "DISPATCH_QUEUE_ENQUEUED = 0x0000000100000000"
definition DISPATCH_QUEUE_DRAIN_UNLOCK_MASK :: u64 where
  "DISPATCH_QUEUE_DRAIN_UNLOCK_MASK = 0x00000002ffffffff"

definition DISPATCH_QUEUE_DRAIN_OWNER_MASK :: u64 where
  "DISPATCH_QUEUE_DRAIN_OWNER_MASK = ucast (DLOCK_OWNER_MASK OR DLOCK_NOFAILED_TRYLOCK_BIT)"
definition DISPATCH_QUEUE_DRAIN_UNLOCK_PRESERVE_WAITERS_BIT :: "u64 \<Rightarrow> u64" where
  "DISPATCH_QUEUE_DRAIN_UNLOCK_PRESERVE_WAITERS_BIT v =
     (v AND NOT (DISPATCH_QUEUE_DRAIN_PENDED OR DISPATCH_QUEUE_DRAIN_OWNER_MASK))
       XOR ucast DLOCK_NOWAITERS_BIT"
definition DISPATCH_QUEUE_DRAIN_PRESERVED_BITS_MASK :: u64 where
  "DISPATCH_QUEUE_DRAIN_PRESERVED_BITS_MASK =
     DISPATCH_QUEUE_ENQUEUED OR DISPATCH_QUEUE_HAS_OVERRIDE OR ucast DLOCK_NOWAITERS_BIT"

definition DISPATCH_QUEUE_STATE_INIT_VALUE :: "u16 \<Rightarrow> u64" where
  "DISPATCH_QUEUE_STATE_INIT_VALUE width =
     push_bit DISPATCH_QUEUE_WIDTH_SHIFT (DISPATCH_QUEUE_WIDTH_FULL - ucast width)"
definition DISPATCH_ROOT_QUEUE_STATE_INIT_VALUE :: u64 where
  "DISPATCH_ROOT_QUEUE_STATE_INIT_VALUE =
     DISPATCH_QUEUE_WIDTH_FULL_BIT OR DISPATCH_QUEUE_IN_BARRIER"
definition DISPATCH_QUEUE_SERIAL_DRAIN_OWNED :: u64 where
  "DISPATCH_QUEUE_SERIAL_DRAIN_OWNED =
     DISPATCH_QUEUE_IN_BARRIER OR DISPATCH_QUEUE_WIDTH_INTERVAL"
definition DISPATCH_QUEUE_WIDTH_POOL :: u16 where "DISPATCH_QUEUE_WIDTH_POOL = 0x7fff"
definition DISPATCH_QUEUE_WIDTH_MAX :: u16 where "DISPATCH_QUEUE_WIDTH_MAX = 0x7ffe"
definition DISPATCH_QUEUE_USES_REDIRECTION :: "u16 \<Rightarrow> bool" where
  "DISPATCH_QUEUE_USES_REDIRECTION width = (1 < width \<and> width < DISPATCH_QUEUE_WIDTH_POOL)"

section \<open>Accessors\<close>

definition dq_state_suspend_cnt :: "u64 \<Rightarrow> u32" where
  "dq_state_suspend_cnt dq_state = ucast (dq_state div DISPATCH_QUEUE_SUSPEND_INTERVAL)"
definition dq_state_has_side_suspend_cnt :: "u64 \<Rightarrow> bool" where
  "dq_state_has_side_suspend_cnt dq_state =
     (dq_state AND DISPATCH_QUEUE_HAS_SIDE_SUSPEND_CNT \<noteq> 0)"
definition dq_state_extract_width_bits :: "u64 \<Rightarrow> u32" where
  "dq_state_extract_width_bits dq_state =
     ucast (drop_bit DISPATCH_QUEUE_WIDTH_SHIFT (dq_state AND DISPATCH_QUEUE_WIDTH_MASK))"
definition dq_state_available_width :: "u64 \<Rightarrow> u32" where
  "dq_state_available_width dq_state =
     (let full = ucast DISPATCH_QUEUE_WIDTH_FULL
      in if dq_state AND DISPATCH_QUEUE_WIDTH_FULL_BIT = 0
         then full - dq_state_extract_width_bits dq_state else 0)"
definition dq_state_has_pending_barrier :: "u64 \<Rightarrow> bool" where
  "dq_state_has_pending_barrier dq_state = (dq_state AND DISPATCH_QUEUE_PENDING_BARRIER \<noteq> 0)"
definition dq_state_used_width :: "u64 \<Rightarrow> u16 \<Rightarrow> u32" where
  "dq_state_used_width dq_state dq_width =
     (let full = ucast DISPATCH_QUEUE_WIDTH_FULL; width = dq_state_extract_width_bits dq_state
      in if dq_state AND DISPATCH_QUEUE_PENDING_BARRIER \<noteq> 0
         then width - (full - ucast dq_width) - (ucast dq_width - 1)
         else width - (full - ucast dq_width))"
definition dq_state_is_suspended :: "u64 \<Rightarrow> bool" where
  "dq_state_is_suspended dq_state = (DISPATCH_QUEUE_NEEDS_ACTIVATION \<le> dq_state)"
definition dq_state_is_inactive :: "u64 \<Rightarrow> bool" where
  "dq_state_is_inactive dq_state = (dq_state AND DISPATCH_QUEUE_INACTIVE \<noteq> 0)"
definition dq_state_needs_activation :: "u64 \<Rightarrow> bool" where
  "dq_state_needs_activation dq_state = (dq_state AND DISPATCH_QUEUE_NEEDS_ACTIVATION \<noteq> 0)"
definition dq_state_is_in_barrier :: "u64 \<Rightarrow> bool" where
  "dq_state_is_in_barrier dq_state = (dq_state AND DISPATCH_QUEUE_IN_BARRIER \<noteq> 0)"
definition dq_state_has_available_width :: "u64 \<Rightarrow> bool" where
  "dq_state_has_available_width dq_state = (\<not> (dq_state AND DISPATCH_QUEUE_WIDTH_FULL_BIT \<noteq> 0))"
definition dq_state_is_dirty :: "u64 \<Rightarrow> bool" where
  "dq_state_is_dirty dq_state = (dq_state AND DISPATCH_QUEUE_DIRTY \<noteq> 0)"
definition dq_state_is_enqueued :: "u64 \<Rightarrow> bool" where
  "dq_state_is_enqueued dq_state = (dq_state AND DISPATCH_QUEUE_ENQUEUED \<noteq> 0)"
definition dq_state_has_override :: "u64 \<Rightarrow> bool" where
  "dq_state_has_override dq_state = (dq_state AND DISPATCH_QUEUE_HAS_OVERRIDE \<noteq> 0)"
definition dq_state_drain_owner :: "u64 \<Rightarrow> dispatch_lock_owner" where
  "dq_state_drain_owner dq_state = dispatch_lock_owner (ucast dq_state)"
definition dq_state_drain_pended :: "u64 \<Rightarrow> bool" where
  "dq_state_drain_pended dq_state = (dq_state AND DISPATCH_QUEUE_DRAIN_PENDED \<noteq> 0)"
definition dq_state_drain_locked_by :: "u64 \<Rightarrow> dispatch_lock_owner \<Rightarrow> bool" where
  "dq_state_drain_locked_by dq_state tid =
     (if dq_state_drain_pended dq_state then False else dq_state_drain_owner dq_state = tid)"
definition dq_state_drain_locked :: "u64 \<Rightarrow> bool" where
  "dq_state_drain_locked dq_state = (dq_state AND DISPATCH_QUEUE_DRAIN_OWNER_MASK \<noteq> 0)"
definition dq_state_has_waiters :: "u64 \<Rightarrow> bool" where
  "dq_state_has_waiters dq_state = dispatch_lock_has_waiters (ucast dq_state)"
definition dq_state_is_sync_runnable :: "u64 \<Rightarrow> bool" where
  "dq_state_is_sync_runnable dq_state = (dq_state < DISPATCH_QUEUE_IN_BARRIER)"
definition dq_state_is_runnable :: "u64 \<Rightarrow> bool" where
  "dq_state_is_runnable dq_state = (dq_state < DISPATCH_QUEUE_WIDTH_FULL_BIT)"
definition dq_state_should_wakeup :: "u64 \<Rightarrow> bool" where
  "dq_state_should_wakeup dq_state =
     (dq_state_is_runnable dq_state \<and> \<not> dq_state_is_enqueued dq_state \<and>
      \<not> dq_state_drain_locked dq_state)"

section \<open>Transitions\<close>

text \<open>
  \<open>_dispatch_queue_drain_try_lock\<close>: the width the drainer now owns (0 when it did not get the
  lock) and the new word. \<open>stealing\<close> is \<open>flags & DISPATCH_INVOKE_STEALING\<close>.
\<close>

definition dispatch_queue_drain_try_lock :: "u16 \<Rightarrow> u32 \<Rightarrow> bool \<Rightarrow> u64 \<Rightarrow> u64 \<times> u64" where
  "dispatch_queue_drain_try_lock dq_width tid_self stealing old_state =
     (let pending_barrier_width = (ucast dq_width - 1) * DISPATCH_QUEUE_WIDTH_INTERVAL;
          xor_owner_and_set_full_width = ucast tid_self OR DISPATCH_QUEUE_WIDTH_FULL_BIT;
          clear_enqueued_bit = (if stealing then 0 else DISPATCH_QUEUE_ENQUEUED);
          free = (dq_state_is_runnable old_state \<and> \<not> dq_state_drain_locked old_state);
          new_state = old_state XOR clear_enqueued_bit;
          new_state =
            (if free then
               (let new_state = new_state AND DISPATCH_QUEUE_DRAIN_PRESERVED_BITS_MASK;
                    new_state = new_state XOR xor_owner_and_set_full_width
                in if dq_state_has_pending_barrier old_state \<or>
                      old_state + pending_barrier_width < DISPATCH_QUEUE_WIDTH_FULL_BIT
                   then new_state OR DISPATCH_QUEUE_IN_BARRIER else new_state)
             else new_state)
      in (if free
          then (new_state AND (DISPATCH_QUEUE_IN_BARRIER OR DISPATCH_QUEUE_WIDTH_FULL_BIT))
                 - (old_state AND DISPATCH_QUEUE_WIDTH_MASK)
          else 0, new_state))"

definition dispatch_queue_try_acquire_barrier_sync :: "u16 \<Rightarrow> u32 \<Rightarrow> u64 \<Rightarrow> u64 option" where
  "dispatch_queue_try_acquire_barrier_sync dq_width tid_self dq_state =
     (let v = (DISPATCH_QUEUE_WIDTH_FULL_BIT OR DISPATCH_QUEUE_IN_BARRIER) OR ucast tid_self
      in if dq_state = DISPATCH_QUEUE_STATE_INIT_VALUE dq_width then Some v else None)"

definition dispatch_queue_reserve_sync_width :: "u64 \<Rightarrow> u64" where
  "dispatch_queue_reserve_sync_width dq_state = dq_state + DISPATCH_QUEUE_WIDTH_INTERVAL"

definition dispatch_queue_try_reserve_sync_width :: "u64 \<Rightarrow> u64 option" where
  "dispatch_queue_try_reserve_sync_width dq_state =
     (if \<not> dq_state_is_sync_runnable dq_state \<or> dq_state_is_dirty dq_state \<or>
         dq_state_has_pending_barrier dq_state
      then None else Some (dq_state + DISPATCH_QUEUE_WIDTH_INTERVAL))"

definition dispatch_queue_try_reserve_apply_width :: "u32 \<Rightarrow> u64 \<Rightarrow> u32 \<times> u64" where
  "dispatch_queue_try_reserve_apply_width da_width dq_state =
     (let width = dq_state_available_width dq_state
      in if width = 0 then (0, dq_state)
         else let width = (if da_width < width then da_width else width)
              in (width, dq_state + ucast width * DISPATCH_QUEUE_WIDTH_INTERVAL))"

definition dispatch_queue_relinquish_width :: "u32 \<Rightarrow> u64 \<Rightarrow> u64" where
  "dispatch_queue_relinquish_width da_width dq_state =
     dq_state - ucast da_width * DISPATCH_QUEUE_WIDTH_INTERVAL"

definition dispatch_queue_try_acquire_async :: "u64 \<Rightarrow> u64 option" where
  "dispatch_queue_try_acquire_async dq_state =
     (if \<not> dq_state_is_runnable dq_state \<or> dq_state_is_dirty dq_state \<or>
         dq_state_has_pending_barrier dq_state
      then None else Some (dq_state + DISPATCH_QUEUE_WIDTH_INTERVAL))"

text \<open>\<open>next_barrier\<close>: there is a next continuation and it is a barrier.\<close>

definition dispatch_queue_adjust_owned :: "u16 \<Rightarrow> u64 \<Rightarrow> bool \<Rightarrow> u64" where
  "dispatch_queue_adjust_owned dq_width owned next_barrier =
     (if 1 < dq_width \<and> next_barrier
      then owned - (DISPATCH_QUEUE_PENDING_BARRIER +
                    (ucast dq_width - 1) * DISPATCH_QUEUE_WIDTH_INTERVAL)
      else owned)"

definition dispatch_queue_drain_try_unlock :: "u64 \<Rightarrow> u64 \<Rightarrow> bool \<times> u64" where
  "dispatch_queue_drain_try_unlock owned old_state =
     (if dq_state_is_dirty old_state \<and> \<not> dq_state_is_suspended old_state
      then (False, old_state AND NOT DISPATCH_QUEUE_DIRTY)
      else let new_state = old_state - owned
           in if new_state AND DISPATCH_QUEUE_WIDTH_FULL_BIT \<noteq> 0 \<or> dq_state_is_suspended old_state
              then (True, DISPATCH_QUEUE_DRAIN_UNLOCK_PRESERVE_WAITERS_BIT new_state)
              else let new_state = new_state AND NOT DISPATCH_QUEUE_DIRTY;
                       new_state = new_state AND NOT DISPATCH_QUEUE_DRAIN_UNLOCK_MASK
                   in (True, if dq_state_has_override new_state
                             then new_state AND NOT DISPATCH_QUEUE_HAS_OVERRIDE else new_state))"

definition dispatch_queue_drain_lock_transfer_or_unlock :: "u64 \<Rightarrow> u32 \<Rightarrow> u64 \<Rightarrow> u64" where
  "dispatch_queue_drain_lock_transfer_or_unlock owned next_owner dq_state =
     (let next_owner = next_owner XOR DLOCK_NOWAITERS_BIT;
          v = dq_state - owned;
          v = v AND NOT DISPATCH_QUEUE_DRAIN_OWNER_MASK;
          v = v AND NOT DISPATCH_QUEUE_DRAIN_PENDED;
          v = v AND NOT DISPATCH_QUEUE_DIRTY
      in v XOR ucast next_owner)"

definition dispatch_queue_drain_unlock :: "u64 \<Rightarrow> u64 \<Rightarrow> u64" where
  "dispatch_queue_drain_unlock owned dq_state =
     dispatch_queue_drain_lock_transfer_or_unlock owned 0 dq_state"

text \<open>
  The compare-and-swap of \<open>_dispatch_non_barrier_complete\<close>: the word after a reader gives its
  width back. When the queue becomes idle, or only a pending barrier is left, the completing
  thread takes the full barrier width itself.
\<close>

definition full_width_after :: "u16 \<Rightarrow> u64 \<Rightarrow> u64" where
  "full_width_after dq_width v =
     (if dq_state_has_pending_barrier v
      then v - DISPATCH_QUEUE_PENDING_BARRIER + DISPATCH_QUEUE_WIDTH_INTERVAL
             + DISPATCH_QUEUE_IN_BARRIER
      else v + ucast dq_width * DISPATCH_QUEUE_WIDTH_INTERVAL + DISPATCH_QUEUE_IN_BARRIER)"

definition dispatch_non_barrier_complete :: "u16 \<Rightarrow> u32 \<Rightarrow> u64 \<Rightarrow> u64" where
  "dispatch_non_barrier_complete dq_width tid_self old_state =
     (let new_state = old_state - DISPATCH_QUEUE_WIDTH_INTERVAL
      in if dq_state_is_runnable new_state then
           (let new_state = (if \<not> dq_state_is_runnable old_state
                             then new_state OR DISPATCH_QUEUE_DIRTY else new_state)
            in if \<not> dq_state_drain_locked new_state then
                 (let full_width = full_width_after dq_width new_state
                  in if full_width AND DISPATCH_QUEUE_WIDTH_MASK = DISPATCH_QUEUE_WIDTH_FULL_BIT
                     then (full_width AND NOT DISPATCH_QUEUE_DIRTY) OR ucast tid_self
                     else new_state)
               else new_state)
         else new_state)"

section \<open>The word as two parts\<close>

text \<open>
  All arithmetic of the state machine is on multiples of \<open>DISPATCH_QUEUE_WIDTH_INTERVAL\<close>, so the
  bits below it are never touched by it. \<open>dq_hi\<close> is the word above them (suspend count, inactive
  bits, barrier bit at 2^16, width field below 2^16 with the full bit at 2^15), \<open>dq_lo\<close> the rest.
\<close>

definition dq_hi :: "u64 \<Rightarrow> nat" where "dq_hi s = unat (drop_bit 37 s)"
definition dq_lo :: "u64 \<Rightarrow> u64" where "dq_lo s = take_bit 37 s"

lemma dq_hi_div: "dq_hi s = unat s div 2 ^ 37"
  by (simp add: dq_hi_def unat_drop_bit)

lemma unat_lo: "unat (dq_lo s) = unat s mod 2 ^ 37"
  by (simp add: dq_lo_def unat_take_bit)

lemma unat_parts: "unat s = dq_hi s * 2 ^ 37 + unat (dq_lo s)"
  by (simp add: dq_hi_div unat_lo)

lemma unat_u64_bound: "unat (s :: u64) < 2 ^ 64"
  using unsigned_less [of s] by simp

lemma dq_hi_bound: "dq_hi s < 2 ^ 27"
  using unat_u64_bound [of s] by (simp add: dq_hi_div)

lemma parts_eqI: "dq_hi s = dq_hi t \<Longrightarrow> dq_lo s = dq_lo t \<Longrightarrow> s = t"
  by (metis unat_parts unsigned_word_eqI)

lemma dq_lo_add_mult [simp]: "dq_lo (s + k * DISPATCH_QUEUE_WIDTH_INTERVAL) = dq_lo s"
proof -
  have "unat (dq_lo (s + k * DISPATCH_QUEUE_WIDTH_INTERVAL)) = (unat s + unat k * 2 ^ 37) mod (2 ^ 37 * 2 ^ 27) mod 2 ^ 37"
    by (simp add: DISPATCH_QUEUE_WIDTH_INTERVAL_def unat_lo unat_word_ariths mod_add_right_eq)
  also have "\<dots> = unat (dq_lo s)"
    by (simp only: mod_mult2_eq) (simp add: unat_lo)
  finally show ?thesis by (rule unsigned_word_eqI)
qed

lemma dq_hi_add_mult: "dq_hi (s + k * DISPATCH_QUEUE_WIDTH_INTERVAL) = (dq_hi s + unat k) mod 2 ^ 27"
proof -
  have "unat (s + k * DISPATCH_QUEUE_WIDTH_INTERVAL) = (unat s + unat k * 2 ^ 37) mod (2 ^ 37 * 2 ^ 27)"
    by (simp add: DISPATCH_QUEUE_WIDTH_INTERVAL_def unat_word_ariths mod_add_right_eq)
  then have "dq_hi (s + k * DISPATCH_QUEUE_WIDTH_INTERVAL) = (unat s + unat k * 2 ^ 37) div 2 ^ 37 mod 2 ^ 27"
    by (simp only: dq_hi_div mod_mult2_eq) simp
  then show ?thesis by (simp add: dq_hi_div add.commute)
qed

lemma dq_lo_sub_mult [simp]: "dq_lo (s - k * DISPATCH_QUEUE_WIDTH_INTERVAL) = dq_lo s"
  using dq_lo_add_mult [of "s - k * DISPATCH_QUEUE_WIDTH_INTERVAL" k] by simp

lemma dq_hi_sub_mult:
  assumes "unat k \<le> dq_hi s"
  shows "dq_hi (s - k * DISPATCH_QUEUE_WIDTH_INTERVAL) = dq_hi s - unat k"
proof -
  let ?t = "s - k * DISPATCH_QUEUE_WIDTH_INTERVAL"
  have "dq_hi s = (dq_hi ?t + unat k) mod 2 ^ 27"
    using dq_hi_add_mult [of ?t k] by simp
  then show ?thesis
    using assms dq_hi_bound [of ?t] dq_hi_bound [of s]
    by (cases "dq_hi ?t + unat k < 2 ^ 27") (auto simp: mod_if split: if_splits)
qed


lemma bit_hi: "bit s (37 + n) = odd (dq_hi s div 2 ^ n)"
proof -
  have "bit s (37 + n) = bit (unat (drop_bit 37 s)) n"
    by (simp add: bit_unsigned_iff bit_drop_bit_eq)
  then show ?thesis by (simp add: dq_hi_def bit_iff_odd)
qed

lemma bit_lo: "n < 37 \<Longrightarrow> bit (dq_lo s) n = bit s n"
  by (simp add: dq_lo_def bit_take_bit_iff)

lemma flag_test:
  "(s AND 0x0100000000000000 = 0) = (\<not> bit s 56)"
  "(s AND 0x0080000000000000 = 0) = (\<not> bit s 55)"
  "(s AND 0x0040000000000000 = 0) = (\<not> bit s 54)"
  "(s AND 0x0020000000000000 = 0) = (\<not> bit s 53)"
  "(s AND 0x0010000000000000 = 0) = (\<not> bit s 52)"
  "(s AND 0x0000001000000000 = 0) = (\<not> bit s 36)"
  "(s AND 0x0000000800000000 = 0) = (\<not> bit s 35)"
  "(s AND 0x0000000400000000 = 0) = (\<not> bit s 34)"
  "(s AND 0x0000000200000000 = 0) = (\<not> bit s 33)"
  "(s AND 0x0000000100000000 = 0) = (\<not> bit s 32)"
  for s :: u64
  using mask_bit_eq_0 [of s 56] mask_bit_eq_0 [of s 55] mask_bit_eq_0 [of s 54]
    mask_bit_eq_0 [of s 53] mask_bit_eq_0 [of s 52] mask_bit_eq_0 [of s 36]
    mask_bit_eq_0 [of s 35] mask_bit_eq_0 [of s 34] mask_bit_eq_0 [of s 33]
    mask_bit_eq_0 [of s 32] by simp_all

lemma suspended_hi: "dq_state_is_suspended s = (2 ^ 17 \<le> dq_hi s)"
  by (simp add: dq_state_is_suspended_def DISPATCH_QUEUE_NEEDS_ACTIVATION_def word_le_nat_alt
      dq_hi_div less_eq_div_iff_mult_less_eq)

lemma sync_runnable_hi: "dq_state_is_sync_runnable s = (dq_hi s < 2 ^ 16)"
  by (simp add: dq_state_is_sync_runnable_def DISPATCH_QUEUE_IN_BARRIER_def word_less_nat_alt
      dq_hi_div div_less_iff_less_mult)

lemma runnable_hi: "dq_state_is_runnable s = (dq_hi s < 2 ^ 15)"
  by (simp add: dq_state_is_runnable_def DISPATCH_QUEUE_WIDTH_FULL_BIT_def word_less_nat_alt
      dq_hi_div div_less_iff_less_mult)

lemma in_barrier_hi: "dq_state_is_in_barrier s = odd (dq_hi s div 2 ^ 16)"
  using bit_hi [of s 16]
  by (simp add: dq_state_is_in_barrier_def DISPATCH_QUEUE_IN_BARRIER_def flag_test)

lemma full_bit_hi: "(s AND DISPATCH_QUEUE_WIDTH_FULL_BIT = 0) = even (dq_hi s div 2 ^ 15)"
  using bit_hi [of s 15] by (simp add: DISPATCH_QUEUE_WIDTH_FULL_BIT_def flag_test)

lemma drop_width_mask:
  "drop_bit 37 (s AND DISPATCH_QUEUE_WIDTH_MASK) = take_bit 16 (drop_bit 37 s)"
proof -
  have "drop_bit 37 DISPATCH_QUEUE_WIDTH_MASK = (mask 16 :: u64)"
    by (simp add: DISPATCH_QUEUE_WIDTH_MASK_def mask_numeral drop_bit_numeral_bit0)
  then show ?thesis by (simp add: take_bit_eq_mask)
qed

lemma extract_width_hi: "unat (dq_state_extract_width_bits s) = dq_hi s mod 2 ^ 16"
  unfolding dq_state_extract_width_bits_def DISPATCH_QUEUE_WIDTH_SHIFT_def drop_width_mask
  by (simp add: unsigned_ucast_eq unsigned_take_bit_eq dq_hi_def take_bit_nat_def mod_mod_cancel)


lemma available_width_hi:
  "unat (dq_state_available_width s) =
     (if even (dq_hi s div 2 ^ 15) then 2 ^ 15 - dq_hi s mod 2 ^ 15 else 0)"
proof (cases "even (dq_hi s div 2 ^ 15)")
  case True
  then have "dq_hi s mod 2 ^ 16 = dq_hi s mod 2 ^ 15"
    using mod_mult2_eq [of "dq_hi s" "2 ^ 15" 2] by (simp add: even_iff_mod_2_eq_zero)
  with True show ?thesis
    by (simp add: dq_state_available_width_def full_bit_hi DISPATCH_QUEUE_WIDTH_FULL_def
        unat_sub_if_size extract_width_hi)
next
  case False
  then show ?thesis by (simp add: dq_state_available_width_def full_bit_hi)
qed

subsection \<open>Masks below the width field\<close>

lemma hi_mask:
  assumes "drop_bit 37 m = 0"
  shows "dq_hi (s AND NOT m) = dq_hi s" "dq_hi (s OR m) = dq_hi s" "dq_hi (s XOR m) = dq_hi s"
    "dq_hi (s AND m) = 0"
proof -
  have m: "\<not> bit m (n + 37)" for n
    using bit_drop_bit_eq [of 37 m] assms by (simp add: fun_eq_iff add.commute)
  have "drop_bit 37 (s AND NOT m) = drop_bit 37 s"
  proof (rule bit_word_eqI)
    fix n :: nat
    show "bit (drop_bit 37 (s AND NOT m)) n = bit (drop_bit 37 s) n"
      using m [of n] bit_u64_less [of s "n + 37"] by (auto simp: bit_simps add.commute)
  qed
  moreover have "drop_bit 37 (s OR m) = drop_bit 37 s" "drop_bit 37 (s XOR m) = drop_bit 37 s"
    using assms by (simp_all add: drop_bit_or drop_bit_xor)
  ultimately show "dq_hi (s AND NOT m) = dq_hi s" "dq_hi (s OR m) = dq_hi s"
    "dq_hi (s XOR m) = dq_hi s" "dq_hi (s AND m) = 0"
    using assms by (simp_all add: dq_hi_def)
qed

lemma ucast_u32_hi [simp]: "drop_bit 37 (ucast (t :: u32) :: u64) = 0"
  by (rule bit_word_eqI) (auto simp: bit_simps dest: bit_u32_less)

lemma drain_owner_mask_bit: "bit DISPATCH_QUEUE_DRAIN_OWNER_MASK n = (1 \<le> n \<and> n < 32)"
  by (auto simp: DISPATCH_QUEUE_DRAIN_OWNER_MASK_def bit_simps)

lemma low_masks:
  "drop_bit 37 DISPATCH_QUEUE_DIRTY = 0"
  "drop_bit 37 DISPATCH_QUEUE_PENDING_BARRIER = 0"
  "drop_bit 37 DISPATCH_QUEUE_HAS_OVERRIDE = 0"
  "drop_bit 37 DISPATCH_QUEUE_DRAIN_PENDED = 0"
  "drop_bit 37 DISPATCH_QUEUE_ENQUEUED = 0"
  "drop_bit 37 DISPATCH_QUEUE_DRAIN_UNLOCK_MASK = 0"
  "drop_bit 37 DISPATCH_QUEUE_DRAIN_OWNER_MASK = 0"
  "drop_bit 37 DISPATCH_QUEUE_DRAIN_PRESERVED_BITS_MASK = 0"
  by (simp_all add: DISPATCH_QUEUE_DIRTY_def DISPATCH_QUEUE_PENDING_BARRIER_def
      DISPATCH_QUEUE_HAS_OVERRIDE_def DISPATCH_QUEUE_DRAIN_PENDED_def DISPATCH_QUEUE_ENQUEUED_def
      DISPATCH_QUEUE_DRAIN_UNLOCK_MASK_def DISPATCH_QUEUE_DRAIN_OWNER_MASK_def
      DISPATCH_QUEUE_DRAIN_PRESERVED_BITS_MASK_def)

lemmas lo_op_hi = hi_mask [OF low_masks(1)] hi_mask [OF low_masks(2)] hi_mask [OF low_masks(3)]
  hi_mask [OF low_masks(4)] hi_mask [OF low_masks(5)] hi_mask [OF low_masks(6)]
  hi_mask [OF low_masks(7)] hi_mask [OF low_masks(8)] hi_mask [OF ucast_u32_hi]

lemma unlock_preserve_hi [simp]:
  "dq_hi (DISPATCH_QUEUE_DRAIN_UNLOCK_PRESERVE_WAITERS_BIT v) = dq_hi v"
proof -
  have "drop_bit 37 (DISPATCH_QUEUE_DRAIN_PENDED OR DISPATCH_QUEUE_DRAIN_OWNER_MASK) = 0"
    by (simp only: drop_bit_or low_masks or.left_neutral)
  then show ?thesis
    unfolding DISPATCH_QUEUE_DRAIN_UNLOCK_PRESERVE_WAITERS_BIT_def
    by (simp only: hi_mask lo_op_hi)
qed


subsection \<open>Reading the flags\<close>

lemma flag_bit:
  "dq_state_is_dirty s = bit s 35" "dq_state_has_pending_barrier s = bit s 36"
  "dq_state_has_override s = bit s 34" "dq_state_drain_pended s = bit s 33"
  "dq_state_is_enqueued s = bit s 32" "dq_state_is_in_barrier s = bit s 53"
  "dq_state_is_inactive s = bit s 55" "dq_state_needs_activation s = bit s 54"
  "dq_state_has_side_suspend_cnt s = bit s 56"
  "(s AND DISPATCH_QUEUE_WIDTH_FULL_BIT = 0) = (\<not> bit s 52)"
  by (simp_all add: dq_state_is_dirty_def dq_state_has_pending_barrier_def
      dq_state_has_override_def dq_state_drain_pended_def dq_state_is_enqueued_def
      dq_state_is_in_barrier_def dq_state_is_inactive_def dq_state_needs_activation_def
      dq_state_has_side_suspend_cnt_def DISPATCH_QUEUE_DIRTY_def DISPATCH_QUEUE_PENDING_BARRIER_def
      DISPATCH_QUEUE_HAS_OVERRIDE_def DISPATCH_QUEUE_DRAIN_PENDED_def DISPATCH_QUEUE_ENQUEUED_def
      DISPATCH_QUEUE_IN_BARRIER_def DISPATCH_QUEUE_INACTIVE_def DISPATCH_QUEUE_NEEDS_ACTIVATION_def
      DISPATCH_QUEUE_HAS_SIDE_SUSPEND_CNT_def DISPATCH_QUEUE_WIDTH_FULL_BIT_def flag_test)

lemma flag_mask:
  "bit DISPATCH_QUEUE_DIRTY n = (n = 35)"
  "bit DISPATCH_QUEUE_PENDING_BARRIER n = (n = 36)"
  "bit DISPATCH_QUEUE_HAS_OVERRIDE n = (n = 34)"
  "bit DISPATCH_QUEUE_DRAIN_PENDED n = (n = 33)"
  "bit DISPATCH_QUEUE_ENQUEUED n = (n = 32)"
  "bit DISPATCH_QUEUE_IN_BARRIER n = (n = 53)"
  "bit DISPATCH_QUEUE_WIDTH_FULL_BIT n = (n = 52)"
proof -
  have *: "DISPATCH_QUEUE_DIRTY = 2 ^ 35" "DISPATCH_QUEUE_PENDING_BARRIER = 2 ^ 36"
    "DISPATCH_QUEUE_HAS_OVERRIDE = 2 ^ 34" "DISPATCH_QUEUE_DRAIN_PENDED = 2 ^ 33"
    "DISPATCH_QUEUE_ENQUEUED = 2 ^ 32" "DISPATCH_QUEUE_IN_BARRIER = 2 ^ 53"
    "DISPATCH_QUEUE_WIDTH_FULL_BIT = 2 ^ 52"
    by (simp_all add: DISPATCH_QUEUE_DIRTY_def DISPATCH_QUEUE_PENDING_BARRIER_def
      DISPATCH_QUEUE_HAS_OVERRIDE_def DISPATCH_QUEUE_DRAIN_PENDED_def DISPATCH_QUEUE_ENQUEUED_def
      DISPATCH_QUEUE_IN_BARRIER_def DISPATCH_QUEUE_WIDTH_FULL_BIT_def)
  show "bit DISPATCH_QUEUE_DIRTY n = (n = 35)"
    "bit DISPATCH_QUEUE_PENDING_BARRIER n = (n = 36)"
    "bit DISPATCH_QUEUE_HAS_OVERRIDE n = (n = 34)"
    "bit DISPATCH_QUEUE_DRAIN_PENDED n = (n = 33)"
    "bit DISPATCH_QUEUE_ENQUEUED n = (n = 32)"
    "bit DISPATCH_QUEUE_IN_BARRIER n = (n = 53)"
    "bit DISPATCH_QUEUE_WIDTH_FULL_BIT n = (n = 52)"
    unfolding * bit_exp_iff by auto
qed

lemma bit_unlock_mask: "bit DISPATCH_QUEUE_DRAIN_UNLOCK_MASK n = (n < 32 \<or> n = 33)"
proof -
  have eq: "DISPATCH_QUEUE_DRAIN_UNLOCK_MASK = mask 32 OR 2 ^ 33"
    by (simp add: DISPATCH_QUEUE_DRAIN_UNLOCK_MASK_def mask_numeral)
  show ?thesis unfolding eq bit_or_iff bit_mask_iff bit_exp_iff by auto
qed

lemma bit_preserved_mask:
  "bit DISPATCH_QUEUE_DRAIN_PRESERVED_BITS_MASK n = (n = 32 \<or> n = 34 \<or> n = 0)"
  by (auto simp: DISPATCH_QUEUE_DRAIN_PRESERVED_BITS_MASK_def bit_or_iff flag_mask bit_ucast_iff)

lemma drain_locked_bit: "dq_state_drain_locked s = (\<exists>n. 1 \<le> n \<and> n < 32 \<and> bit s n)"
  using bit_u64_less [of s]
  by (force simp: dq_state_drain_locked_def bit_eq_iff bit_and_iff drain_owner_mask_bit)

lemma drain_owner_bit:
  assumes "valid_tid t"
  shows "dq_state_drain_owner s = t \<longleftrightarrow> (\<forall>n. 2 \<le> n \<and> n < 32 \<longrightarrow> bit s n = bit t n)"
proof -
  have "dq_state_drain_owner s = t \<longleftrightarrow> (\<forall>n\<ge>2. bit (ucast s :: u32) n = bit t n)"
    by (simp add: dq_state_drain_owner_def lock_owner_eq_iff [OF assms] is_locked_by_iff)
  also have "\<dots> \<longleftrightarrow> (\<forall>n. 2 \<le> n \<and> n < 32 \<longrightarrow> bit s n = bit t n)"
    using bit_u32_less [of t] by (auto simp: bit_ucast_iff)
  finally show ?thesis .
qed

lemma drain_owned_locked: "valid_tid t \<Longrightarrow> dq_state_drain_owner s = t \<Longrightarrow> dq_state_drain_locked s"
  using bit_u32_less [of t]
  by (auto simp: drain_owner_bit drain_locked_bit valid_tid_def is_locked_iff)
    (metis One_nat_def Suc_leI le_trans one_le_numeral)

lemma bit_width_add [simp]: "n < 37 \<Longrightarrow> bit (s + k * DISPATCH_QUEUE_WIDTH_INTERVAL) n = bit s n" for s k :: u64
  using bit_lo [of n s] bit_lo [of n "s + k * DISPATCH_QUEUE_WIDTH_INTERVAL"] by simp

lemma bit_width_sub [simp]: "n < 37 \<Longrightarrow> bit (s - k * DISPATCH_QUEUE_WIDTH_INTERVAL) n = bit s n" for s k :: u64
  using bit_lo [of n s] bit_lo [of n "s - k * DISPATCH_QUEUE_WIDTH_INTERVAL"] by simp

text \<open>The constants above the low part, as multiples of the width interval.\<close>

lemma hi_const:
  "DISPATCH_QUEUE_WIDTH_FULL_BIT = 0x8000 * DISPATCH_QUEUE_WIDTH_INTERVAL"
  "DISPATCH_QUEUE_IN_BARRIER = 0x10000 * DISPATCH_QUEUE_WIDTH_INTERVAL"
  "DISPATCH_QUEUE_NEEDS_ACTIVATION = 0x20000 * DISPATCH_QUEUE_WIDTH_INTERVAL"
  "DISPATCH_QUEUE_INACTIVE = 0x40000 * DISPATCH_QUEUE_WIDTH_INTERVAL"
  "DISPATCH_QUEUE_HAS_SIDE_SUSPEND_CNT = 0x80000 * DISPATCH_QUEUE_WIDTH_INTERVAL"
  "DISPATCH_QUEUE_SUSPEND_INTERVAL = 0x100000 * DISPATCH_QUEUE_WIDTH_INTERVAL"
  by (simp_all add: DISPATCH_QUEUE_WIDTH_INTERVAL_def DISPATCH_QUEUE_WIDTH_FULL_BIT_def
      DISPATCH_QUEUE_IN_BARRIER_def DISPATCH_QUEUE_NEEDS_ACTIVATION_def DISPATCH_QUEUE_INACTIVE_def
      DISPATCH_QUEUE_HAS_SIDE_SUSPEND_CNT_def DISPATCH_QUEUE_SUSPEND_INTERVAL_def)

lemma dq_lo_const [simp]: "dq_lo (k * DISPATCH_QUEUE_WIDTH_INTERVAL) = 0"
  using dq_lo_add_mult [of 0 k] by (simp add: dq_lo_def)

lemma dq_hi_const: "dq_hi (k * DISPATCH_QUEUE_WIDTH_INTERVAL) = unat k mod 2 ^ 27"
  using dq_hi_add_mult [of 0 k] by (simp add: dq_hi_def)



lemma hi_interval_add: "dq_hi s + 1 < 2 ^ 27 \<Longrightarrow> dq_hi (s + DISPATCH_QUEUE_WIDTH_INTERVAL) = dq_hi s + 1"
  using dq_hi_add_mult [of s 1] by simp

lemma lo_interval_add [simp]: "dq_lo (s + DISPATCH_QUEUE_WIDTH_INTERVAL) = dq_lo s"
  using dq_lo_add_mult [of s 1] by simp

lemma hi_interval_sub: "0 < dq_hi s \<Longrightarrow> dq_hi (s - DISPATCH_QUEUE_WIDTH_INTERVAL) = dq_hi s - 1"
  using dq_hi_sub_mult [of 1 s] by simp

lemma lo_interval_sub [simp]: "dq_lo (s - DISPATCH_QUEUE_WIDTH_INTERVAL) = dq_lo s"
  using dq_lo_sub_mult [of s 1] by simp

lemma bit_interval [simp]:
  "n < 37 \<Longrightarrow> bit (s + DISPATCH_QUEUE_WIDTH_INTERVAL) n = bit s n"
  "n < 37 \<Longrightarrow> bit (s - DISPATCH_QUEUE_WIDTH_INTERVAL) n = bit s n"
  using bit_width_add [of n s 1] bit_width_sub [of n s 1] by simp_all

lemma ucast_lock_word [simp]:
  "ucast (s + k * DISPATCH_QUEUE_WIDTH_INTERVAL) = (ucast s :: u32)"
  "ucast (s - k * DISPATCH_QUEUE_WIDTH_INTERVAL) = (ucast s :: u32)"
  "ucast (s + DISPATCH_QUEUE_WIDTH_INTERVAL) = (ucast s :: u32)"
  "ucast (s - DISPATCH_QUEUE_WIDTH_INTERVAL) = (ucast s :: u32)"
  by (rule bit_word_eqI, simp add: bit_ucast_iff)+

lemma dq_hi_add:
  "dq_hi s + unat k < 2 ^ 27 \<Longrightarrow> dq_hi (s + k * DISPATCH_QUEUE_WIDTH_INTERVAL) = dq_hi s + unat k"
  by (simp add: dq_hi_add_mult)

section \<open>What the transitions do\<close>

subsection \<open>Width reservation\<close>

lemma width_available: "dq_hi s < 2 ^ 15 \<Longrightarrow> unat (dq_state_available_width s) = 2 ^ 15 - dq_hi s"
  by (simp add: available_width_hi)

lemma try_acquire_async_Some:
  "dispatch_queue_try_acquire_async s = Some s' \<longleftrightarrow>
     dq_hi s < 2 ^ 15 \<and> \<not> bit s 35 \<and> \<not> bit s 36 \<and> s' = s + DISPATCH_QUEUE_WIDTH_INTERVAL"
  by (auto simp: dispatch_queue_try_acquire_async_def runnable_hi flag_bit)

lemma try_reserve_sync_width_Some:
  "dispatch_queue_try_reserve_sync_width s = Some s' \<longleftrightarrow>
     dq_hi s < 2 ^ 16 \<and> \<not> bit s 35 \<and> \<not> bit s 36 \<and> s' = s + DISPATCH_QUEUE_WIDTH_INTERVAL"
  by (auto simp: dispatch_queue_try_reserve_sync_width_def sync_runnable_hi flag_bit)

theorem acquire_async_takes_one_slot:
  assumes "dispatch_queue_try_acquire_async s = Some s'"
  shows "unat (dq_state_available_width s) = Suc (unat (dq_state_available_width s'))
    \<and> dispatch_queue_relinquish_width 1 s' = s
    \<and> dq_state_is_suspended s' = dq_state_is_suspended s
    \<and> dq_state_drain_owner s' = dq_state_drain_owner s
    \<and> dq_state_is_in_barrier s' = dq_state_is_in_barrier s"
proof -
  from assms have hi: "dq_hi s < 2 ^ 15" and s': "s' = s + DISPATCH_QUEUE_WIDTH_INTERVAL"
    by (auto simp: try_acquire_async_Some)
  from hi have hi': "dq_hi s' = dq_hi s + 1" by (simp add: s' hi_interval_add)
  have "ucast s' = (ucast s :: u32)" by (simp add: s')
  then have "dq_state_drain_owner s' = dq_state_drain_owner s"
    by (simp add: dq_state_drain_owner_def)
  moreover have "unat (dq_state_available_width s) = Suc (unat (dq_state_available_width s'))"
    using hi hi' by (cases "dq_hi s = 2 ^ 15 - 1") (auto simp: available_width_hi)
  moreover have "dispatch_queue_relinquish_width 1 s' = s"
    by (simp add: dispatch_queue_relinquish_width_def s')
  ultimately show ?thesis
    using hi hi' by (simp add: suspended_hi in_barrier_hi)
qed

lemma slots_add:
  fixes h w :: nat
  assumes "even (h div 2 ^ 15)" "w \<le> 2 ^ 15 - h mod 2 ^ 15"
  shows "(if even ((h + w) div 2 ^ 15) then 2 ^ 15 - (h + w) mod 2 ^ 15 else 0)
    = 2 ^ 15 - h mod 2 ^ 15 - w"
proof (cases "h mod 2 ^ 15 + w < 2 ^ 15")
  case True
  then show ?thesis using assms(1) field_add [OF True] by simp
next
  case False
  have "h mod 2 ^ 15 < (2 ^ 15 :: nat)" by simp
  with False assms(2) have "h mod 2 ^ 15 + w = 2 ^ 15" by linarith
  from field_add_carry [OF this] assms(1) this show ?thesis by simp
qed

lemma slots_bound:
  fixes h w :: nat
  assumes "even (h div 2 ^ 15)" "w \<le> 2 ^ 15 - h mod 2 ^ 15" "h < 2 ^ 27"
  shows "h + w < 2 ^ 27"
proof -
  have "h div 2 ^ 15 < 2 ^ 12" using assms(3) by (simp add: div_less_iff_less_mult)
  with assms(1) have "h div 2 ^ 15 < 2 ^ 12 - 1" by (cases "h div 2 ^ 15 = 2 ^ 12 - 1") auto
  then have "Suc (h div 2 ^ 15) * 2 ^ 15 < 2 ^ 27" by simp
  moreover have "h mod 2 ^ 15 < 2 ^ 15" by simp
  then have "h mod 2 ^ 15 + w \<le> 2 ^ 15" using assms(2) by (simp only: le_diff_conv2 less_imp_le add.commute)
  ultimately show ?thesis using field_room le_less_trans by blast
qed

theorem apply_width_roundtrip:
  assumes "dispatch_queue_try_reserve_apply_width da_width s = (w, s')"
  shows "w = min da_width (dq_state_available_width s)
    \<and> unat (dq_state_available_width s') = unat (dq_state_available_width s) - unat w
    \<and> dq_lo s' = dq_lo s \<and> dispatch_queue_relinquish_width w s' = s"
proof (cases "dq_state_available_width s = 0")
  case True
  then show ?thesis
    using assms by (simp add: dispatch_queue_try_reserve_apply_width_def
        dispatch_queue_relinquish_width_def)
next
  case False
  let ?a = "dq_state_available_width s"
  from False assms have w: "w = min da_width ?a"
    and s': "s' = s + ucast w * DISPATCH_QUEUE_WIDTH_INTERVAL"
    by (auto simp: dispatch_queue_try_reserve_apply_width_def Let_def min_def)
  have le: "unat w \<le> unat ?a"
    by (simp add: w min_def word_le_nat_alt)
  have even: "even (dq_hi s div 2 ^ 15)"
  proof (rule ccontr)
    assume "\<not> ?thesis"
    then have "unat ?a = 0" by (simp add: available_width_hi)
    with False show False by (simp add: unat_0_iff)
  qed
  have room: "unat w \<le> 2 ^ 15 - dq_hi s mod 2 ^ 15"
    using le even by (simp add: available_width_hi)
  have hi: "dq_hi s' = dq_hi s + unat w"
    using slots_bound [OF even room dq_hi_bound] by (simp add: s' dq_hi_add)
  have "unat (dq_state_available_width s') = unat ?a - unat w"
    using slots_add [OF even room] even by (simp only: available_width_hi hi if_True)
  moreover have "dispatch_queue_relinquish_width w s' = s" "dq_lo s' = dq_lo s"
    by (simp_all add: dispatch_queue_relinquish_width_def s')
  ultimately show ?thesis using w by simp
qed

subsection \<open>Widths as numbers of slots\<close>

definition slots :: "nat \<Rightarrow> u64" where
  "slots n = of_nat n * DISPATCH_QUEUE_WIDTH_INTERVAL"

lemma unat_of_nat_u64: "unat (of_nat n :: u64) = n mod 2 ^ 64"
  by (simp add: unat_of_nat)

lemma mod_64_27: "(n :: nat) mod 2 ^ 64 mod 2 ^ 27 = n mod 2 ^ 27"
proof (rule mod_mod_cancel)
  show "(2 :: nat) ^ 27 dvd 2 ^ 64" by (rule le_imp_power_dvd) simp
qed

lemma hi_slots: "dq_hi (slots n) = n mod 2 ^ 27"
  unfolding slots_def dq_hi_const unat_of_nat_u64 by (rule mod_64_27)

lemma lo_slots [simp]: "dq_lo (slots n) = 0"
  by (simp add: slots_def)

lemma hi_add_slots: "dq_hi (s + slots n) = (dq_hi s + n) mod 2 ^ 27"
  unfolding slots_def dq_hi_add_mult unat_of_nat_u64
  by (metis mod_64_27 mod_add_right_eq)

lemma lo_slots_arith [simp]: "dq_lo (s + slots n) = dq_lo s" "dq_lo (s - slots n) = dq_lo s"
  by (simp_all add: slots_def)

lemma slots_add_eq: "slots (a + b) = slots a + slots b"
  by (simp add: slots_def algebra_simps)

lemma hi_sub_slots: "n \<le> dq_hi s \<Longrightarrow> dq_hi (s - slots n) = dq_hi s - n"
proof -
  assume "n \<le> dq_hi s"
  moreover from this dq_hi_bound [of s] have "n < 2 ^ 27" by (rule le_less_trans)
  then have "unat (of_nat n :: u64) = n"
    by (simp add: unat_of_nat_u64)
  ultimately show ?thesis by (simp add: slots_def dq_hi_sub_mult)
qed

lemma slots_diff: "b \<le> a \<Longrightarrow> slots a - slots b = slots (a - b)"
  by (simp add: slots_def algebra_simps of_nat_diff)

lemma slots_const:
  "DISPATCH_QUEUE_WIDTH_INTERVAL = slots 1"
  "DISPATCH_QUEUE_WIDTH_FULL_BIT = slots 0x8000"
  "DISPATCH_QUEUE_IN_BARRIER = slots 0x10000"
  "DISPATCH_QUEUE_NEEDS_ACTIVATION = slots 0x20000"
  "DISPATCH_QUEUE_INACTIVE = slots 0x40000"
  "DISPATCH_QUEUE_HAS_SIDE_SUSPEND_CNT = slots 0x80000"
  "DISPATCH_QUEUE_SUSPEND_INTERVAL = slots 0x100000"
  by (simp_all add: slots_def DISPATCH_QUEUE_WIDTH_INTERVAL_def DISPATCH_QUEUE_WIDTH_FULL_BIT_def
      DISPATCH_QUEUE_IN_BARRIER_def DISPATCH_QUEUE_NEEDS_ACTIVATION_def DISPATCH_QUEUE_INACTIVE_def
      DISPATCH_QUEUE_HAS_SIDE_SUSPEND_CNT_def DISPATCH_QUEUE_SUSPEND_INTERVAL_def)

lemma of_nat_unat_ucast: "of_nat (unat w) = (ucast w :: u64)" for w :: u16
proof (rule unsigned_word_eqI)
  have "unat w < 2 ^ LENGTH(16)" by (rule unsigned_less)
  then have "unat w < 2 ^ 64" by simp
  then show "unat (of_nat (unat w) :: u64) = unat (ucast w :: u64)"
    unfolding unat_of_nat_u64 by simp
qed

lemma width_slots: "ucast (w :: u16) * DISPATCH_QUEUE_WIDTH_INTERVAL = slots (unat w)"
  unfolding slots_def of_nat_unat_ucast ..

lemma masked_width: "s AND DISPATCH_QUEUE_WIDTH_MASK = slots (dq_hi s mod 2 ^ 16)"
proof (rule parts_eqI)
  show "dq_hi (s AND DISPATCH_QUEUE_WIDTH_MASK) = dq_hi (slots (dq_hi s mod 2 ^ 16))"
    unfolding hi_slots unfolding dq_hi_def drop_width_mask
    by (simp add: unat_take_bit)
  have "take_bit 37 DISPATCH_QUEUE_WIDTH_MASK = 0"
    by (simp add: DISPATCH_QUEUE_WIDTH_MASK_def)
  then show "dq_lo (s AND DISPATCH_QUEUE_WIDTH_MASK) = dq_lo (slots (dq_hi s mod 2 ^ 16))"
    by (simp only: dq_lo_def [of "s AND m" for m] take_bit_and lo_slots) simp
qed

lemma bit_slots [simp]: "n < 37 \<Longrightarrow> \<not> bit (slots k) n"
  using bit_lo [of n "slots k"] by simp

lemma bit_add_slots [simp]: "n < 37 \<Longrightarrow> bit (s + slots k) n = bit s n" "n < 37 \<Longrightarrow> bit (s - slots k) n = bit s n"
  by (simp_all add: slots_def)

lemma init_value_slots:
  assumes "unat w \<le> 2 ^ 15"
  shows "DISPATCH_QUEUE_STATE_INIT_VALUE w = slots (2 ^ 15 - unat w)"
proof -
  have "DISPATCH_QUEUE_STATE_INIT_VALUE w = (0x8000 - ucast w) * 2 ^ 37"
    by (simp add: DISPATCH_QUEUE_STATE_INIT_VALUE_def DISPATCH_QUEUE_WIDTH_SHIFT_def
        DISPATCH_QUEUE_WIDTH_FULL_def push_bit_eq_mult)
  also have "\<dots> = slots (2 ^ 15) - slots (unat w)"
    using width_slots [of w] by (simp add: slots_def DISPATCH_QUEUE_WIDTH_INTERVAL_def algebra_simps)
  finally show ?thesis using assms slots_diff by simp
qed

lemma or_in_barrier_hi: "dq_hi v = 2 ^ 15 \<Longrightarrow> dq_hi (v OR DISPATCH_QUEUE_IN_BARRIER) = 0x18000"
proof -
  assume "dq_hi v = 2 ^ 15"
  then have "drop_bit 37 v = 0x8000"
    by (simp add: dq_hi_def word_unat_eq_iff)
  then have "drop_bit 37 (v OR DISPATCH_QUEUE_IN_BARRIER) = 0x18000"
    by (simp add: drop_bit_or DISPATCH_QUEUE_IN_BARRIER_def)
  then show ?thesis by (simp add: dq_hi_def)
qed


subsection \<open>Taking the drain lock\<close>

lemma init_value_hi: "unat w \<le> 2 ^ 15 \<Longrightarrow> dq_hi (DISPATCH_QUEUE_STATE_INIT_VALUE w) = 2 ^ 15 - unat w"
  by (simp add: init_value_slots hi_slots)

lemma drop_bit_hi: "n < 2 ^ 27 \<Longrightarrow> dq_hi v = n \<longleftrightarrow> drop_bit 37 v = of_nat n"
  unfolding dq_hi_def word_unat_eq_iff unat_of_nat_u64 by simp

lemma barrier_bits_hi:
  assumes "dq_hi v = 0x8000 \<or> dq_hi v = 0x18000"
  shows "v AND (DISPATCH_QUEUE_IN_BARRIER OR DISPATCH_QUEUE_WIDTH_FULL_BIT) = slots (dq_hi v)"
proof (rule parts_eqI)
  let ?m = "DISPATCH_QUEUE_IN_BARRIER OR DISPATCH_QUEUE_WIDTH_FULL_BIT"
  have m: "drop_bit 37 ?m = 0x18000" "take_bit 37 ?m = 0"
    by (simp_all add: DISPATCH_QUEUE_IN_BARRIER_def DISPATCH_QUEUE_WIDTH_FULL_BIT_def)
  have "drop_bit 37 v = 0x8000 \<or> drop_bit 37 v = 0x18000"
    using assms by (simp add: drop_bit_hi)
  then have "drop_bit 37 (v AND ?m) = drop_bit 37 v"
    unfolding drop_bit_and m by (elim disjE) simp_all
  then show "dq_hi (v AND ?m) = dq_hi (slots (dq_hi v))"
    unfolding hi_slots using dq_hi_bound [of v] by (simp add: dq_hi_def)
  show "dq_lo (v AND ?m) = dq_lo (slots (dq_hi v))"
    unfolding lo_slots unfolding dq_lo_def take_bit_and m by simp
qed

lemma drain_try_lock_idle:
  fixes w :: u16
  assumes w: "0 < unat w" and hi: "dq_hi s < 2 ^ 15"
  shows "s + (ucast w - 1) * DISPATCH_QUEUE_WIDTH_INTERVAL < DISPATCH_QUEUE_WIDTH_FULL_BIT
    \<longleftrightarrow> dq_hi s + unat w \<le> 2 ^ 15"
proof -
  define k where "k = (ucast w - 1 :: u64)"
  have one: "(1 :: u64) \<le> ucast w"
    using w by (simp add: word_le_nat_alt)
  have k: "unat k = unat w - 1"
    unfolding k_def unat_sub [OF one] by simp
  have "unat w < 2 ^ LENGTH(16)" by (rule unsigned_less)
  with hi k have "dq_hi s + unat k < 2 ^ 27" by simp
  then have *: "dq_hi (s + k * DISPATCH_QUEUE_WIDTH_INTERVAL) = dq_hi s + unat k"
    by (rule dq_hi_add)
  have lt: "x < DISPATCH_QUEUE_WIDTH_FULL_BIT \<longleftrightarrow> dq_hi x < 2 ^ 15" for x
    using runnable_hi [of x] by (simp only: dq_state_is_runnable_def)
  show ?thesis unfolding k_def [symmetric] lt * k using w by linarith
qed

lemma drain_try_lock_hi:
  assumes free: "dq_hi s < 2 ^ 15" "\<not> dq_state_drain_locked s" and w: "0 < unat w"
    and lock: "dispatch_queue_drain_try_lock w t stealing s = (owned, s')"
  shows "dq_hi s' = (if bit s 36 \<or> dq_hi s + unat w \<le> 2 ^ 15 then 0x18000 else 0x8000)"
    and "owned = slots (dq_hi s' - dq_hi s)"
    and "n < 37 \<Longrightarrow> bit s' n =
      (((bit s n \<noteq> (\<not> stealing \<and> n = 32)) \<and> n \<in> {0, 32, 34}) \<noteq> bit t n)"
proof -
  define v where "v = ((s XOR (if stealing then 0 else DISPATCH_QUEUE_ENQUEUED))
    AND DISPATCH_QUEUE_DRAIN_PRESERVED_BITS_MASK) XOR (ucast t OR DISPATCH_QUEUE_WIDTH_FULL_BIT)"
  have "dq_state_is_runnable s" using free(1) by (simp add: runnable_hi)
  note lock' = lock [unfolded dispatch_queue_drain_try_lock_def Let_def drain_try_lock_idle [OF w free(1)],
      folded v_def, simplified this free(2) flag_bit if_True simp_thms prod.inject]
  have s': "s' = (if bit s 36 \<or> dq_hi s + unat w \<le> 2 ^ 15
       then v OR DISPATCH_QUEUE_IN_BARRIER else v)" using lock' by blast
  have o: "owned = (s' AND (DISPATCH_QUEUE_IN_BARRIER OR DISPATCH_QUEUE_WIDTH_FULL_BIT))
        - (s AND DISPATCH_QUEUE_WIDTH_MASK)" using lock' by blast
  have "drop_bit 37 DISPATCH_QUEUE_WIDTH_FULL_BIT = 0x8000"
    by (simp add: DISPATCH_QUEUE_WIDTH_FULL_BIT_def)
  then have "drop_bit 37 v = 0x8000"
    unfolding v_def by (simp add: drop_bit_xor drop_bit_and drop_bit_or low_masks)
  then have hv: "dq_hi v = 2 ^ 15" by (simp add: dq_hi_def)
  show hi: "dq_hi s' = (if bit s 36 \<or> dq_hi s + unat w \<le> 2 ^ 15 then 0x18000 else 0x8000)"
    unfolding s' using hv by (simp add: or_in_barrier_hi)
  have "dq_hi s mod 2 ^ 16 = dq_hi s" using free(1) by simp
  moreover have "dq_hi s \<le> dq_hi s'" using free(1) hi by auto
  ultimately show "owned = slots (dq_hi s' - dq_hi s)"
    unfolding o masked_width using hi by (subst barrier_bits_hi) (auto simp: slots_diff)
  show "n < 37 \<Longrightarrow> bit s' n =
      (((bit s n \<noteq> (\<not> stealing \<and> n = 32)) \<and> n \<in> {0, 32, 34}) \<noteq> bit t n)"
    unfolding s' v_def by (auto simp: bit_simps flag_mask bit_preserved_mask)
qed

lemma lock_has_waiters_bit:
  "dispatch_lock_has_waiters (ucast s) = ((\<exists>n. 2 \<le> n \<and> n < 32 \<and> bit s n) \<noteq> bit s 0)" for s :: u64
  by (auto simp: dispatch_lock_has_waiters_def is_locked_iff DLOCK_NOWAITERS_BIT_def bit_ucast_iff
      and_exp_eq_0_iff_not_bit [of _ 0, simplified])

lemma drain_try_lock_busy:
  assumes "\<not> dq_state_is_runnable s \<or> dq_state_drain_locked s"
  shows "dispatch_queue_drain_try_lock w t stealing s
    = (0, s XOR (if stealing then 0 else DISPATCH_QUEUE_ENQUEUED))"
  using assms by (auto simp: dispatch_queue_drain_try_lock_def Let_def)

lemma not_runnable_no_async: "\<not> dq_state_is_runnable s \<Longrightarrow> dispatch_queue_try_acquire_async s = None"
  by (simp add: dispatch_queue_try_acquire_async_def)

theorem drain_try_lock_takes_the_queue:
  assumes lock: "dispatch_queue_drain_try_lock w t stealing s = (owned, s')"
    and free: "dq_state_is_runnable s" "\<not> dq_state_drain_locked s"
    and enq: "stealing \<or> dq_state_is_enqueued s"
    and t: "valid_tid t" and w: "0 < unat w"
  shows "owned \<noteq> 0 \<and> dq_state_drain_owner s' = t
    \<and> dq_state_is_enqueued s' = (stealing \<and> dq_state_is_enqueued s)
    \<and> dq_state_has_waiters s' = bit s 0
    \<and> dq_state_is_dirty s' = False \<and> dq_state_has_pending_barrier s' = False
    \<and> dq_state_is_in_barrier s' =
        (dq_state_has_pending_barrier s \<or> unat w \<le> unat (dq_state_available_width s))
    \<and> dq_state_available_width s' = 0 \<and> dispatch_queue_try_acquire_async s' = None
    \<and> fst (dispatch_queue_drain_try_lock w' t' stealing' s') = 0"
proof (intro conjI)
  from free(1) have h: "dq_hi s < 2 ^ 15" by (simp add: runnable_hi)
  note r = drain_try_lock_hi [OF h free(2) w lock]
  have low: "\<not> bit t n" if "32 \<le> n" for n using bit_u32_less [of t n] that by auto
  have hi: "dq_hi s' = 0x8000 \<or> dq_hi s' = 0x18000" using r(1) by auto
  then have full: "\<not> dq_state_is_runnable s'" by (auto simp: runnable_hi)
  show owner: "dq_state_drain_owner s' = t"
    using r(3) by (simp add: drain_owner_bit [OF t])
  show "dq_state_is_enqueued s' = (stealing \<and> dq_state_is_enqueued s)"
    using r(3) [of 32] enq low [of 32] by (auto simp: flag_bit)
  have "\<exists>n. 2 \<le> n \<and> n < 32 \<and> bit t n"
    using t bit_u32_less by (auto simp: valid_tid_def is_locked_iff)
  then have "\<exists>n. 2 \<le> n \<and> n < 32 \<and> bit s' n" using r(3) by auto
  moreover have "bit s' 0 = (\<not> bit s 0)" using r(3) [of 0] t by (auto simp: valid_tid_def)
  ultimately show "dq_state_has_waiters s' = bit s 0"
    by (simp add: dq_state_has_waiters_def lock_has_waiters_bit)
  show "dq_state_is_dirty s' = False" "dq_state_has_pending_barrier s' = False"
    using r(3) [of 35] r(3) [of 36] low [of 35] low [of 36] by (simp_all add: flag_bit)
  show "dq_state_available_width s' = 0"
    using hi by (auto simp: unat_0_iff [symmetric] available_width_hi simp del: unat_0_iff)
  show "dispatch_queue_try_acquire_async s' = None" using full by (rule not_runnable_no_async)
  show "fst (dispatch_queue_drain_try_lock w' t' stealing' s') = 0"
    using full by (simp add: drain_try_lock_busy)
  show "owned \<noteq> 0"
  proof
    assume "owned = 0"
    then have "dq_hi owned = 0" by (simp add: dq_hi_def)
    moreover have "dq_hi owned = dq_hi s' - dq_hi s"
      unfolding r(2) hi_slots using hi by (intro mod_less) auto
    ultimately show False using hi h by auto
  qed
  have "unat w \<le> unat (dq_state_available_width s) \<longleftrightarrow> dq_hi s + unat w \<le> 2 ^ 15"
    using h by (simp add: width_available) linarith
  then show "dq_state_is_in_barrier s' =
      (dq_state_has_pending_barrier s \<or> unat w \<le> unat (dq_state_available_width s))"
    using r(1) by (auto simp: in_barrier_hi flag_bit)
qed

lemma drain_unlock_word:
  "dispatch_queue_drain_unlock owned s =
     ((s - owned) AND NOT (DISPATCH_QUEUE_DRAIN_OWNER_MASK OR DISPATCH_QUEUE_DRAIN_PENDED OR DISPATCH_QUEUE_DIRTY))
       XOR ucast DLOCK_NOWAITERS_BIT"
  by (simp add: dispatch_queue_drain_unlock_def dispatch_queue_drain_lock_transfer_or_unlock_def
      Let_def and.assoc or.assoc)

lemma bit_drain_unlock:
  assumes "n < 37"
  shows "bit (dispatch_queue_drain_unlock (slots k) s) n =
    (if n = 0 then \<not> bit s 0 else 32 \<le> n \<and> n \<noteq> 33 \<and> n \<noteq> 35 \<and> bit s n)"
  using assms by (auto simp: drain_unlock_word bit_simps drain_owner_mask_bit flag_mask DLOCK_NOWAITERS_BIT_def)

lemma hi_drain_unlock [simp]: "dq_hi (dispatch_queue_drain_unlock owned s) = dq_hi (s - owned)"
  by (simp add: dispatch_queue_drain_unlock_def dispatch_queue_drain_lock_transfer_or_unlock_def
      Let_def lo_op_hi)

text \<open>\<open>_dispatch_queue_drain_try_unlock\<close>, split on its three outcomes.\<close>

lemma drain_try_unlock_cases:
  obtains (renew) "bit s 35" "dq_hi s < 2 ^ 17"
      "dispatch_queue_drain_try_unlock owned s = (False, s AND NOT DISPATCH_QUEUE_DIRTY)"
  | (keep) "\<not> bit s 35 \<or> 2 ^ 17 \<le> dq_hi s" "odd (dq_hi (s - owned) div 2 ^ 15) \<or> 2 ^ 17 \<le> dq_hi s"
      "dispatch_queue_drain_try_unlock owned s =
         (True, DISPATCH_QUEUE_DRAIN_UNLOCK_PRESERVE_WAITERS_BIT (s - owned))"
  | (idle) v where "\<not> bit s 35" "dq_hi s < 2 ^ 17" "even (dq_hi (s - owned) div 2 ^ 15)"
      "dispatch_queue_drain_try_unlock owned s = (True, v)" "dq_hi v = dq_hi (s - owned)"
      "\<And>n. n < 37 \<Longrightarrow> bit v n = (bit (s - owned) n \<and> 32 \<le> n \<and> n \<notin> {33, 34, 35})"
proof (cases "bit s 35 \<and> dq_hi s < 2 ^ 17")
  case True
  then show ?thesis
    by (intro renew) (simp_all add: dispatch_queue_drain_try_unlock_def flag_bit suspended_hi)
next
  case nr: False
  show ?thesis
  proof (cases "odd (dq_hi (s - owned) div 2 ^ 15) \<or> 2 ^ 17 \<le> dq_hi s")
    case True
    with nr show ?thesis
      by (intro keep) (auto simp: dispatch_queue_drain_try_unlock_def suspended_hi full_bit_hi
          dq_state_is_dirty_def [symmetric] flag_bit(1))
  next
    case False
    let ?v = "((s - owned) AND NOT DISPATCH_QUEUE_DIRTY) AND NOT DISPATCH_QUEUE_DRAIN_UNLOCK_MASK"
    have un: "dispatch_queue_drain_try_unlock owned s =
      (True, if dq_state_has_override ?v then ?v AND NOT DISPATCH_QUEUE_HAS_OVERRIDE else ?v)"
      using nr False by (simp add: dispatch_queue_drain_try_unlock_def suspended_hi full_bit_hi
          flag_bit(1) Let_def)
    show ?thesis
    proof (rule idle [OF _ _ _ un])
      show "\<not> bit s 35" "dq_hi s < 2 ^ 17" "even (dq_hi (s - owned) div 2 ^ 15)"
        using nr False by auto
      show "dq_hi (if dq_state_has_override ?v then ?v AND NOT DISPATCH_QUEUE_HAS_OVERRIDE else ?v)
          = dq_hi (s - owned)" by (simp add: lo_op_hi)
      show "\<And>n. n < 37 \<Longrightarrow> bit (if dq_state_has_override ?v then ?v AND NOT DISPATCH_QUEUE_HAS_OVERRIDE else ?v) n
          = (bit (s - owned) n \<and> 32 \<le> n \<and> n \<notin> {33, 34, 35})"
        by (auto simp: bit_simps flag_mask bit_unlock_mask flag_bit)
    qed
  qed
qed

lemma bit_preserve_waiters:
  "n < 37 \<Longrightarrow> bit (DISPATCH_QUEUE_DRAIN_UNLOCK_PRESERVE_WAITERS_BIT v) n =
     (if n = 0 then \<not> bit v 0 else 32 \<le> n \<and> n \<noteq> 33 \<and> bit v n)"
  by (auto simp: DISPATCH_QUEUE_DRAIN_UNLOCK_PRESERVE_WAITERS_BIT_def bit_simps
      drain_owner_mask_bit flag_mask DLOCK_NOWAITERS_BIT_def)


lemma drain_locked_none: "(\<And>n. 1 \<le> n \<Longrightarrow> n < 32 \<Longrightarrow> \<not> bit s n) \<Longrightarrow> \<not> dq_state_drain_locked s"
  by (auto simp: drain_locked_bit)

text \<open>
  C4. The unlock of a drain fails exactly when DIRTY is set and the queue is not suspended; a
  failure only clears DIRTY, keeps the owner, and the next attempt succeeds; a success gives
  back the owned width, drops the lock and keeps ENQUEUED.
\<close>
theorem try_unlock_dirty_handshake:
  assumes "dispatch_queue_drain_try_unlock (slots k) s = (released, s')"
  shows "(released \<longleftrightarrow> \<not> (dq_state_is_dirty s \<and> \<not> dq_state_is_suspended s))
    \<and> (\<not> released \<longrightarrow> s' = s AND NOT DISPATCH_QUEUE_DIRTY
          \<and> dq_state_drain_owner s' = dq_state_drain_owner s
          \<and> fst (dispatch_queue_drain_try_unlock (slots k) s'))
    \<and> (released \<longrightarrow> dq_hi s' = dq_hi (s - slots k) \<and> \<not> dq_state_drain_locked s'
          \<and> \<not> dq_state_drain_pended s' \<and> dq_state_is_enqueued s' = dq_state_is_enqueued s
          \<and> (dq_state_is_dirty s' \<longrightarrow> dq_state_is_suspended s))"
  using drain_try_unlock_cases [of s "slots k"]
proof cases
  case renew
  have lo: "bit (s AND NOT DISPATCH_QUEUE_DIRTY) n = (bit s n \<and> n \<noteq> 35)" if "n < 37" for n
    using that by (auto simp: bit_simps flag_mask)
  then have "ucast (s AND NOT DISPATCH_QUEUE_DIRTY) = (ucast s :: u32)"
    by (intro bit_word_eqI) (simp add: bit_ucast_iff)
  moreover have "fst (dispatch_queue_drain_try_unlock (slots k) (s AND NOT DISPATCH_QUEUE_DIRTY))"
    using lo [of 35] by (simp add: dispatch_queue_drain_try_unlock_def flag_bit(1) Let_def)
  ultimately show ?thesis
    using renew assms by (simp add: flag_bit suspended_hi dq_state_drain_owner_def)
next
  case keep
  with assms have s': "released" "s' = DISPATCH_QUEUE_DRAIN_UNLOCK_PRESERVE_WAITERS_BIT (s - slots k)"
    by simp_all
  have "\<not> dq_state_drain_locked s'"
    unfolding s' by (rule drain_locked_none) (simp add: bit_preserve_waiters)
  then show ?thesis
    using keep s' by (auto simp: flag_bit bit_preserve_waiters suspended_hi)
next
  case (idle v)
  with assms have s': "released" "s' = v" by simp_all
  have "\<not> dq_state_drain_locked s'"
    unfolding s' by (rule drain_locked_none) (simp add: idle(6))
  then show ?thesis
    using idle s' by (auto simp: flag_bit suspended_hi)
qed

subsection \<open>Barriers\<close>

definition barrier_owned :: "u16 \<Rightarrow> u64" where
  "barrier_owned dq_width =
     DISPATCH_QUEUE_IN_BARRIER + ucast dq_width * DISPATCH_QUEUE_WIDTH_INTERVAL"

lemma barrier_owned_slots: "barrier_owned w = slots (2 ^ 16 + unat w)"
  unfolding barrier_owned_def width_slots slots_add_eq slots_const(3) by simp

lemma u16_bound: "unat (w :: u16) < 2 ^ 16"
  using unsigned_less [of w] by simp

lemma eqI_hi_bits: "dq_hi a = dq_hi b \<Longrightarrow> (\<And>n. n < 37 \<Longrightarrow> bit a n = bit b n) \<Longrightarrow> a = b"
  by (rule parts_eqI, assumption, rule bit_word_eqI) (auto simp: dq_lo_def bit_take_bit_iff)

lemma hi_slots_small: "n < 2 ^ 27 \<Longrightarrow> dq_hi (slots n) = n"
  by (simp add: hi_slots)

lemma barrier_sync_word:
  assumes "dispatch_queue_try_acquire_barrier_sync w t s = Some s'"
  shows "s = DISPATCH_QUEUE_STATE_INIT_VALUE w" "dq_hi s' = 0x18000" "n < 37 \<Longrightarrow> bit s' n = bit t n"
proof -
  from assms show "s = DISPATCH_QUEUE_STATE_INIT_VALUE w"
    by (auto simp: dispatch_queue_try_acquire_barrier_sync_def Let_def split: if_splits)
  from assms have s': "s' = (DISPATCH_QUEUE_WIDTH_FULL_BIT OR DISPATCH_QUEUE_IN_BARRIER) OR ucast t"
    by (auto simp: dispatch_queue_try_acquire_barrier_sync_def Let_def split: if_splits)
  have "drop_bit 37 (DISPATCH_QUEUE_WIDTH_FULL_BIT OR DISPATCH_QUEUE_IN_BARRIER) = (0x18000 :: u64)"
    by (simp add: DISPATCH_QUEUE_IN_BARRIER_def DISPATCH_QUEUE_WIDTH_FULL_BIT_def)
  then show "dq_hi s' = 0x18000"
    unfolding s' by (simp add: dq_hi_def drop_bit_or)
  show "n < 37 \<Longrightarrow> bit s' n = bit t n"
    unfolding s' by (auto simp: bit_simps flag_mask)
qed

theorem barrier_sync_roundtrip:
  assumes lock: "dispatch_queue_try_acquire_barrier_sync w t s = Some s'"
    and t: "valid_tid t" and w: "1 \<le> unat w" "unat w \<le> 0x7fff"
  shows "s = DISPATCH_QUEUE_STATE_INIT_VALUE w \<and> dq_state_drain_owner s' = t
    \<and> dq_state_is_in_barrier s'
    \<and> dispatch_queue_try_acquire_async s' = None \<and> dispatch_queue_try_reserve_sync_width s' = None
    \<and> fst (dispatch_queue_drain_try_lock w t' stealing s') = 0
    \<and> dispatch_queue_try_acquire_barrier_sync w t' s' = None
    \<and> dispatch_queue_drain_try_unlock (barrier_owned w) s' = (True, s)
    \<and> dispatch_queue_drain_unlock (barrier_owned w) s' = s"
proof -
  note r = barrier_sync_word [OF lock]
  have low: "\<not> bit t n" if "32 \<le> n" for n using bit_u32_less [of t n] that by auto
  have full: "\<not> dq_state_is_runnable s'" by (simp add: runnable_hi r(2))
  have init: "dq_hi s = 2 ^ 15 - unat w" "s = slots (2 ^ 15 - unat w)"
    using w by (simp_all add: r(1) init_value_slots hi_slots_small)
  have owner: "dq_state_drain_owner s' = t"
    using r(3) by (simp add: drain_owner_bit [OF t])
  have hi: "dq_hi (s' - barrier_owned w) = 2 ^ 15 - unat w"
    using w r(2) by (simp add: barrier_owned_slots hi_sub_slots)
  have "s' \<noteq> DISPATCH_QUEUE_STATE_INIT_VALUE w"
    using init(1) r(1,2) by auto
  then have b: "dispatch_queue_try_acquire_barrier_sync w t' s' = None"
    by (simp add: dispatch_queue_try_acquire_barrier_sync_def Let_def)
  have "dispatch_queue_drain_unlock (barrier_owned w) s' = s"
  proof (rule eqI_hi_bits)
    fix n :: nat assume n: "n < 37"
    show "bit (dispatch_queue_drain_unlock (barrier_owned w) s') n = bit s n"
      using n low [of n] t [unfolded valid_tid_def]
      by (simp add: barrier_owned_slots bit_drain_unlock r(3) init(2))
  qed (simp add: hi init(1))
  moreover have "dispatch_queue_drain_try_unlock (barrier_owned w) s' = (True, s)"
    using drain_try_unlock_cases [of s' "barrier_owned w"]
  proof cases
    case renew
    then show ?thesis using r(3) low [of 35] by simp
  next
    case keep
    then show ?thesis using hi r(2) w by (simp add: div_less)
  next
    case (idle v)
    have "v = s"
    proof (rule eqI_hi_bits)
      fix n :: nat assume n: "n < 37"
      then show "bit v n = bit s n"
        using low [of n] by (simp add: idle(6) barrier_owned_slots r(3) init(2))
    qed (simp add: idle(5) hi init(1))
    with idle(4) show ?thesis by simp
  qed
  ultimately show ?thesis
    using b r(1,2) owner full
    by (simp add: drain_try_lock_busy not_runnable_no_async in_barrier_hi
        dispatch_queue_try_reserve_sync_width_def sync_runnable_hi)
qed

subsection \<open>Completing a reader\<close>

lemma drain_locked_cong:
  "(\<And>n. n < 32 \<Longrightarrow> bit a n = bit b n) \<Longrightarrow> dq_state_drain_locked a = dq_state_drain_locked b"
  by (auto simp: drain_locked_bit)

lemma minus_pending:
  assumes "bit s 36"
  shows "s - DISPATCH_QUEUE_PENDING_BARRIER = s AND NOT DISPATCH_QUEUE_PENDING_BARRIER"
  by (rule disjunctive_diff) (use assms in \<open>auto simp: flag_mask\<close>)

lemma full_width_after_word:
  assumes "dq_hi v < 2 ^ 15"
  shows "dq_hi (full_width_after w v) = (if bit v 36 then dq_hi v + 1 else dq_hi v + unat w) + 2 ^ 16"
    and "n < 37 \<Longrightarrow> bit (full_width_after w v) n = (bit v n \<and> n \<noteq> 36)"
proof -
  have f: "full_width_after w v =
    (if bit v 36 then (v AND NOT DISPATCH_QUEUE_PENDING_BARRIER) + slots (1 + 2 ^ 16)
     else v + slots (unat w + 2 ^ 16))"
    unfolding full_width_after_def flag_bit width_slots slots_add_eq
    by (simp add: minus_pending slots_const)
  show "dq_hi (full_width_after w v) = (if bit v 36 then dq_hi v + 1 else dq_hi v + unat w) + 2 ^ 16"
    using assms u16_bound [of w] by (simp add: f hi_add_slots lo_op_hi)
  show "n < 37 \<Longrightarrow> bit (full_width_after w v) n = (bit v n \<and> n \<noteq> 36)"
    by (auto simp: f bit_simps flag_mask)
qed

lemma width_mask_full: "(v AND DISPATCH_QUEUE_WIDTH_MASK = DISPATCH_QUEUE_WIDTH_FULL_BIT) = (dq_hi v mod 2 ^ 16 = 2 ^ 15)"
proof -
  have "slots (dq_hi v mod 2 ^ 16) = slots (2 ^ 15) \<longleftrightarrow> dq_hi v mod 2 ^ 16 = 2 ^ 15"
  proof
    assume "slots (dq_hi v mod 2 ^ 16) = slots (2 ^ 15)"
    then have "dq_hi (slots (dq_hi v mod 2 ^ 16)) = dq_hi (slots (2 ^ 15))" by simp
    moreover have "dq_hi v mod 2 ^ 16 < 2 ^ 27" by (rule less_le_trans [of _ "2 ^ 16"]) simp_all
    ultimately show "dq_hi v mod 2 ^ 16 = 2 ^ 15" by (simp add: hi_slots_small del: mod_less)
  qed simp
  then show ?thesis unfolding masked_width slots_const(2) by simp
qed

lemma mod_16_eq_15: "x < 2 ^ 16 + 2 ^ 15 \<Longrightarrow> (x :: nat) mod 2 ^ 16 = 2 ^ 15 \<longleftrightarrow> x = 2 ^ 15"
  by (cases "x < 2 ^ 16") (simp_all add: le_mod_geq)

text \<open>The word a completing reader leaves when it does not take the barrier over.\<close>

lemma non_barrier_complete_cases:
  assumes "0 < dq_hi s"
  obtains (full) "2 ^ 15 < dq_hi s" "dispatch_non_barrier_complete w t s = s - slots 1"
  | (release) v where "dq_hi s \<le> 2 ^ 15" "dispatch_non_barrier_complete w t s = v"
      "dq_hi v = dq_hi s - 1"
      "\<And>n. n < 37 \<Longrightarrow> bit v n = (bit s n \<or> n = 35 \<and> dq_hi s = 2 ^ 15)"
      "dq_state_drain_locked s \<or> (if bit s 36 then dq_hi s \<noteq> 2 ^ 15 else dq_hi s + unat w \<noteq> 2 ^ 15 + 1)"
  | (take_over) v where "dq_hi s \<le> 2 ^ 15" "dispatch_non_barrier_complete w t s = v"
      "\<not> dq_state_drain_locked s"
      "if bit s 36 then dq_hi s = 2 ^ 15 else dq_hi s + unat w = 2 ^ 15 + 1"
      "dq_hi v = 0x18000"
      "\<And>n. n < 37 \<Longrightarrow> bit v n = (bit s n \<and> n \<noteq> 35 \<and> n \<noteq> 36 \<or> bit t n)"
proof (cases "2 ^ 15 < dq_hi s")
  case True
  have "dq_hi (s - slots 1) = dq_hi s - 1" using assms by (simp add: hi_sub_slots)
  then have "dispatch_non_barrier_complete w t s = s - slots 1"
    unfolding dispatch_non_barrier_complete_def Let_def runnable_hi slots_const(1)
    using True by (subst if_not_P) simp_all
  with True show ?thesis by (rule full)
next
  case False
  define v where "v = (if dq_hi s = 2 ^ 15 then (s - slots 1) OR DISPATCH_QUEUE_DIRTY else s - slots 1)"
  have hs: "dq_hi (s - slots 1) = dq_hi s - 1" using assms by (simp add: hi_sub_slots)
  then have hv: "dq_hi v = dq_hi s - 1" by (simp add: v_def lo_op_hi)
  have bv: "\<And>n. n < 37 \<Longrightarrow> bit v n = (bit s n \<or> n = 35 \<and> dq_hi s = 2 ^ 15)"
    by (auto simp: v_def bit_simps flag_mask)
  have lv: "dq_state_drain_locked v = dq_state_drain_locked s"
    by (rule drain_locked_cong) (simp add: bv)
  have hv15: "dq_hi v < 2 ^ 15" using False assms hv by simp
  have "(if \<not> dq_hi s < 2 ^ 15 then (s - slots 1) OR DISPATCH_QUEUE_DIRTY else s - slots 1) = v"
    using False by (auto simp: v_def)
  note step = dispatch_non_barrier_complete_def [of w t s, unfolded Let_def runnable_hi slots_const(1) hs this
      width_mask_full lv]
  have r: "dispatch_non_barrier_complete w t s = (if \<not> dq_state_drain_locked s then
      (if dq_hi (full_width_after w v) mod 2 ^ 16 = 2 ^ 15
       then (full_width_after w v AND NOT DISPATCH_QUEUE_DIRTY) OR ucast t else v) else v)"
    using False assms by (subst step) (rule if_P, simp)
  let ?f = "full_width_after w v"
  have hf: "dq_hi ?f = (if bit s 36 then dq_hi s else dq_hi s + unat w - 1) + 2 ^ 16"
    using full_width_after_word(1) [OF hv15, of w] assms by (simp add: hv bv)
  have take: "dq_hi ?f mod 2 ^ 16 = 2 ^ 15 \<longleftrightarrow>
      (if bit s 36 then dq_hi s = 2 ^ 15 else dq_hi s + unat w = 2 ^ 15 + 1)"
  proof -
    have "(if bit s 36 then dq_hi s else dq_hi s + unat w - 1) < 2 ^ 16 + 2 ^ 15"
      using False u16_bound [of w] assms by auto
    then show ?thesis unfolding hf using assms
      by (simp only: mod_add_self2 mod_16_eq_15) auto
  qed
  show ?thesis
  proof (cases "dq_state_drain_locked s \<or> dq_hi ?f mod 2 ^ 16 \<noteq> 2 ^ 15")
    case True
    show ?thesis
    proof (rule release)
      show "dispatch_non_barrier_complete w t s = v" using True unfolding r by (auto split: if_split)
      show "dq_state_drain_locked s \<or>
          (if bit s 36 then dq_hi s \<noteq> 2 ^ 15 else dq_hi s + unat w \<noteq> 2 ^ 15 + 1)"
        using True unfolding take by (auto split: if_splits)
    qed (use False hv bv in simp_all)
  next
    case nt: False
    with take have c: "if bit s 36 then dq_hi s = 2 ^ 15 else dq_hi s + unat w = 2 ^ 15 + 1" by simp
    show ?thesis
    proof (rule take_over)
      show "dispatch_non_barrier_complete w t s = (?f AND NOT DISPATCH_QUEUE_DIRTY) OR ucast t"
        using nt by (simp add: r)
      show "dq_hi ((?f AND NOT DISPATCH_QUEUE_DIRTY) OR ucast t) = 0x18000"
        using c by (auto simp: lo_op_hi hf split: if_splits)
      show "\<And>n. n < 37 \<Longrightarrow> bit ((?f AND NOT DISPATCH_QUEUE_DIRTY) OR ucast t) n
          = (bit s n \<and> n \<noteq> 35 \<and> n \<noteq> 36 \<or> bit t n)"
        using full_width_after_word(2) [OF hv15, of _ w] bv
        by (auto simp: bit_simps flag_mask dest: bit_u32_less)
    qed (use nt c False in simp_all)
  qed
qed

section \<open>Concrete runs\<close>

lemma sample_async: "dispatch_queue_try_acquire_async 0x000fff8000000000 = Some 0x000fffa000000000"
  by code_simp

lemma sample_apply:
  "dispatch_queue_try_reserve_apply_width 8 0x000fff8000000000 = (4, 0x0010000000000000)"
  by code_simp

lemma sample_drain_lock: "dispatch_queue_drain_try_lock 4 0x103 False 0x000fff8100000000
    = (0x0020008000000000, 0x0030000000000103)"
  by code_simp

lemma sample_barrier:
  "dispatch_queue_try_acquire_barrier_sync 4 0x103 0x000fff8000000000 = Some 0x0030000000000103"
  by code_simp

lemma sample_renew:
  "dispatch_queue_drain_try_unlock (slots 0x10004) 0x0030000800000103 = (False, 0x0030000000000103)"
  unfolding slots_def DISPATCH_QUEUE_WIDTH_INTERVAL_def of_nat_numeral by code_simp

lemma sample_tid: "valid_tid 0x103" by code_simp

theorem acquire_async_takes_one_slot_witness:
  "unat (dq_state_available_width 0x000fff8000000000)
     = Suc (unat (dq_state_available_width 0x000fffa000000000))
   \<and> dispatch_queue_relinquish_width 1 0x000fffa000000000 = 0x000fff8000000000"
  using acquire_async_takes_one_slot [OF sample_async] by blast

theorem apply_width_roundtrip_witness:
  "dispatch_queue_relinquish_width 4 0x0010000000000000 = 0x000fff8000000000"
  using apply_width_roundtrip [OF sample_apply] by blast

theorem drain_try_lock_takes_the_queue_witness:
  "dq_state_drain_owner 0x0030000000000103 = 0x103
   \<and> fst (dispatch_queue_drain_try_lock 4 0x207 True 0x0030000000000103) = 0"
proof -
  have free: "dq_state_is_runnable 0x000fff8100000000" "\<not> dq_state_drain_locked 0x000fff8100000000"
    "False \<or> dq_state_is_enqueued 0x000fff8100000000" "0 < unat (4 :: u16)"
    by code_simp+
  show ?thesis
    using drain_try_lock_takes_the_queue [OF sample_drain_lock free(1-3) sample_tid free(4),
        of 4 "0x207" True] by blast
qed

theorem try_unlock_dirty_handshake_witness:
  "dq_state_drain_owner 0x0030000000000103 = dq_state_drain_owner 0x0030000800000103
   \<and> fst (dispatch_queue_drain_try_unlock (slots 0x10004) 0x0030000000000103)"
  using try_unlock_dirty_handshake [OF sample_renew] by blast

theorem barrier_sync_roundtrip_witness:
  "dispatch_queue_drain_try_unlock (barrier_owned 4) 0x0030000000000103 = (True, 0x000fff8000000000)
   \<and> dispatch_queue_try_acquire_async 0x0030000000000103 = None"
  using barrier_sync_roundtrip [OF sample_barrier sample_tid, of "0x207" True] by simp

end
