(* ===== verification/Queue_Concurrency.thy ===== *)
theory Queue_Concurrency
  imports Queue_State
begin

text \<open>
  The interleaved executions of the queue state machine. A configuration is the shared word, the
  number of readers that currently hold one unit of width each (synchronous readers and
  redirected asynchronous items), and what every thread believes it owns: nothing, the full
  barrier (\<open>IN_BARRIER\<close> plus the whole width), or a drain lock with some units of width
  (\<open>owned\<close> in \<open>_dispatch_queue_drain\<close>). A step is one atomic operation of \<open>inline_internal.h\<close>
  or \<open>queue.c\<close> with the bookkeeping its caller does from the value it got back; no step looks at
  what the other threads own. The reader-writer discipline is then a theorem.
\<close>

section \<open>The end of a drain\<close>

text \<open>
  The compare-and-swap at the end of \<open>_dispatch_queue_class_invoke\<close>: a drain interrupted by a
  suspension, a retarget or a width change gives up what it owns, unless it may upgrade to the
  pending barrier it has just reserved.
\<close>

definition dispatch_queue_class_invoke_release :: "bool \<Rightarrow> u64 \<Rightarrow> u64 \<Rightarrow> u64" where
  "dispatch_queue_class_invoke_release full_width_upgrade_allowed to_unlock old_state =
     (let new_state = old_state - to_unlock
      in if full_width_upgrade_allowed \<and> dq_state_is_runnable new_state \<and>
            dq_state_has_pending_barrier new_state
         then let new_state = new_state + DISPATCH_QUEUE_IN_BARRIER;
                  new_state = new_state + DISPATCH_QUEUE_WIDTH_INTERVAL;
                  new_state = new_state - DISPATCH_QUEUE_PENDING_BARRIER
              in new_state + (to_unlock AND DISPATCH_QUEUE_DRAIN_PRESERVED_BITS_MASK)
         else let new_state = DISPATCH_QUEUE_DRAIN_UNLOCK_PRESERVE_WAITERS_BIT new_state
              in if dq_state_should_wakeup new_state
                 then (new_state OR DISPATCH_QUEUE_ENQUEUED) OR DISPATCH_QUEUE_DIRTY
                 else new_state)"

section \<open>Steps\<close>

text \<open>The barrier bit and the width field; suspend count and activation bits are above them.\<close>

definition queue_body :: "u64 \<Rightarrow> nat" where "queue_body s = dq_hi s mod 2 ^ 17"

datatype queue_role = RIdle | RBarrier | RDrain nat

record queue_config =
  qc_state :: u64
  qc_readers :: nat
  qc_role :: "u32 \<Rightarrow> queue_role"

definition role_owned :: "u16 \<Rightarrow> queue_role \<Rightarrow> u64" where
  "role_owned w r = (case r of RIdle \<Rightarrow> 0 | RBarrier \<Rightarrow> barrier_owned w
     | RDrain n \<Rightarrow> slots n)"

text \<open>The role a drainer has after it acquired \<open>owned\<close>: the test at the start of the drain.\<close>

definition owned_role :: "u64 \<Rightarrow> queue_role" where
  "owned_role owned = (if dq_state_is_in_barrier owned then RBarrier else RDrain (dq_hi owned))"

text \<open>More readers than this cannot exist: synchronous readers are blocked threads.\<close>

definition reader_limit :: nat where "reader_limit = 0x7fff"

inductive queue_step :: "u16 \<Rightarrow> queue_config \<Rightarrow> queue_config \<Rightarrow> bool" for w where
  sync_reader: "dispatch_queue_try_reserve_sync_width (qc_state c) = Some s' \<Longrightarrow>
    qc_readers c < reader_limit \<Longrightarrow>
    queue_step w c (c\<lparr>qc_state := s', qc_readers := Suc (qc_readers c)\<rparr>)"
| async_reader: "dispatch_queue_try_acquire_async (qc_state c) = Some s' \<Longrightarrow>
    queue_step w c (c\<lparr>qc_state := s', qc_readers := Suc (qc_readers c)\<rparr>)"
| reader_done: "qc_readers c = Suc r \<Longrightarrow> valid_tid t \<Longrightarrow>
    dispatch_non_barrier_complete w t (qc_state c) = s' \<Longrightarrow>
    queue_step w c (c\<lparr>qc_state := s', qc_readers := r, qc_role :=
      (if dq_state_is_in_barrier s' then (qc_role c)(t := RBarrier) else qc_role c)\<rparr>)"
| barrier_sync: "valid_tid t \<Longrightarrow>
    dispatch_queue_try_acquire_barrier_sync w t (qc_state c) = Some s' \<Longrightarrow>
    queue_step w c (c\<lparr>qc_state := s', qc_role := (qc_role c)(t := RBarrier)\<rparr>)"
| drain_lock: "valid_tid t \<Longrightarrow>
    dispatch_queue_drain_try_lock w t stealing (qc_state c) = (owned, s') \<Longrightarrow>
    stealing \<or> dq_state_is_enqueued (qc_state c) \<Longrightarrow>
    queue_step w c (c\<lparr>qc_state := s', qc_role :=
      (if owned = 0 then qc_role c else (qc_role c)(t := owned_role owned))\<rparr>)"
| drop_barrier: "qc_role c t = RBarrier \<Longrightarrow>
    queue_step w c (c\<lparr>qc_state := qc_state c AND NOT DISPATCH_QUEUE_IN_BARRIER,
      qc_role := (qc_role c)(t := RDrain (unat w))\<rparr>)"
| drain_width_sync: "qc_role c t = RDrain 0 \<Longrightarrow> qc_readers c < reader_limit \<Longrightarrow>
    queue_step w c (c\<lparr>qc_state := dispatch_queue_reserve_sync_width (qc_state c),
      qc_role := (qc_role c)(t := RDrain 1)\<rparr>)"
| drain_width_async: "qc_role c t = RDrain 0 \<Longrightarrow>
    dispatch_queue_try_acquire_async (qc_state c) = Some s' \<Longrightarrow>
    queue_step w c (c\<lparr>qc_state := s', qc_role := (qc_role c)(t := RDrain 1)\<rparr>)"
| hand_to_reader: "qc_role c t = RDrain (Suc n) \<Longrightarrow> qc_readers c < reader_limit \<Longrightarrow>
    queue_step w c (c\<lparr>qc_readers := Suc (qc_readers c), qc_role := (qc_role c)(t := RDrain n)\<rparr>)"
| try_unlock: "qc_role c t \<noteq> RIdle \<Longrightarrow>
    dispatch_queue_drain_try_unlock (role_owned w (qc_role c t)) (qc_state c) = (released, s') \<Longrightarrow>
    queue_step w c (c\<lparr>qc_state := s', qc_role :=
      (if released then (qc_role c)(t := RIdle) else qc_role c)\<rparr>)"
| unlock: "qc_role c t = RBarrier \<Longrightarrow>
    dispatch_queue_drain_unlock (dispatch_queue_adjust_owned w (barrier_owned w) next_barrier)
      (qc_state c) = s' \<Longrightarrow>
    queue_step w c (c\<lparr>qc_state := s', qc_role := (qc_role c)(t := RIdle)\<rparr>)"
| give_up: "qc_role c t \<noteq> RIdle \<Longrightarrow>
    dispatch_queue_class_invoke_release upgrade_allowed
      (dispatch_queue_adjust_owned w (role_owned w (qc_role c t)) next_barrier) (qc_state c) = s' \<Longrightarrow>
    queue_step w c (c\<lparr>qc_state := s', qc_role :=
      (qc_role c)(t := if dq_state_is_in_barrier s' then RBarrier else RIdle)\<rparr>)"
| transfer_barrier: "qc_role c t = RBarrier \<Longrightarrow> valid_tid t' \<Longrightarrow>
    dispatch_queue_drain_lock_transfer_or_unlock 0 t' (qc_state c) = s' \<Longrightarrow>
    queue_step w c (c\<lparr>qc_state := s', qc_role := (qc_role c)(t := RIdle, t' := RBarrier)\<rparr>)"
| transfer_readers: "qc_role c t = RBarrier \<Longrightarrow> qc_readers c + n \<le> reader_limit \<Longrightarrow>
    dispatch_queue_drain_unlock (barrier_owned w - of_nat n * DISPATCH_QUEUE_WIDTH_INTERVAL)
      (qc_state c) = s' \<Longrightarrow>
    queue_step w c (c\<lparr>qc_state := s', qc_readers := qc_readers c + n,
      qc_role := (qc_role c)(t := RIdle)\<rparr>)"
| other_flags: "queue_body s' = queue_body (qc_state c) \<Longrightarrow>
    (\<And>n. n = 36 \<or> 1 \<le> n \<and> n < 32 \<Longrightarrow>
      bit s' n = bit (qc_state c) n) \<Longrightarrow>
    queue_step w c (c\<lparr>qc_state := s'\<rparr>)"

definition queue_init :: "u16 \<Rightarrow> queue_config" where
  "queue_init w = \<lparr>qc_state = DISPATCH_QUEUE_STATE_INIT_VALUE w, qc_readers = 0,
     qc_role = (\<lambda>_. RIdle)\<rparr>"

inductive queue_reachable :: "u16 \<Rightarrow> queue_config \<Rightarrow> bool" for w where
  start: "queue_reachable w (queue_init w)"
| step: "queue_reachable w c \<Longrightarrow> queue_step w c c' \<Longrightarrow> queue_reachable w c'"

section \<open>The invariant\<close>

definition idle_word :: "u16 \<Rightarrow> nat \<Rightarrow> u64 \<Rightarrow> bool" where
  "idle_word w r s = (\<not> dq_state_drain_locked s \<and>
     queue_body s = (if bit s 36 then 0x7fff + r else 0x8000 - unat w + r))"

definition owned_word :: "u16 \<Rightarrow> nat \<Rightarrow> u32 \<Rightarrow> queue_role \<Rightarrow> u64 \<Rightarrow> bool" where
  "owned_word w r t role s = (valid_tid t \<and> dq_state_drain_owner s = t \<and> \<not> bit s 36 \<and>
     (case role of RIdle \<Rightarrow> False
      | RBarrier \<Rightarrow> r = 0 \<and> queue_body s = 0x18000
      | RDrain n \<Rightarrow> n \<le> unat w \<and> queue_body s = 0x8000 - unat w + r + n))"

definition queue_inv :: "u16 \<Rightarrow> queue_config \<Rightarrow> bool" where
  "queue_inv w c = (qc_readers c \<le> reader_limit \<and>
     ((\<forall>t. qc_role c t = RIdle) \<and> idle_word w (qc_readers c) (qc_state c) \<or>
      (\<exists>t. (\<forall>t'. t' \<noteq> t \<longrightarrow> qc_role c t' = RIdle) \<and>
           owned_word w (qc_readers c) t (qc_role c t) (qc_state c))))"

subsection \<open>The body of the word\<close>

lemma body_add: "queue_body s + k < 2 ^ 17 \<Longrightarrow> queue_body (s + slots k) = queue_body s + k"
proof -
  assume k: "queue_body s + k < 2 ^ 17"
  have "queue_body (s + slots k) = (dq_hi s + k) mod 2 ^ 17"
    unfolding queue_body_def hi_add_slots
    by (rule mod_mod_cancel) (rule le_imp_power_dvd, simp)
  also have "\<dots> = queue_body s + k"
    using k unfolding queue_body_def by (rule field_add(2))
  finally show ?thesis .
qed

lemma body_le_hi: "queue_body s \<le> dq_hi s"
  by (simp add: queue_body_def)

lemma body_sub: "k \<le> queue_body s \<Longrightarrow> queue_body (s - slots k) = queue_body s - k"
  using body_le_hi [of s] hi_sub_slots [of k s]
  by (simp add: queue_body_def field_sub(2) del: One_nat_def)

lemma body_runnable: "dq_hi s < 2 ^ 17 \<Longrightarrow> queue_body s = dq_hi s"
  by (simp add: queue_body_def)

lemma body_bound: "queue_body s < 2 ^ 17"
  by (simp add: queue_body_def)

lemma body_full: "odd (dq_hi s div 2 ^ 15) = odd (queue_body s div 2 ^ 15)"
proof -
  have "queue_body s div 2 ^ 15 = dq_hi s div 2 ^ 15 mod 4"
    using mod_div_field [of "2 ^ 15" "dq_hi s" 4] by (simp add: queue_body_def)
  then show ?thesis by (simp only: odd_mod_4)
qed

lemma body_in_barrier: "dq_state_is_in_barrier s = (2 ^ 16 \<le> queue_body s)"
proof -
  have "queue_body s div 2 ^ 16 = dq_hi s div 2 ^ 16 mod 2"
    using mod_div_field [of "2 ^ 16" "dq_hi s" 2] by (simp add: queue_body_def)
  moreover have "queue_body s div 2 ^ 16 < 2"
    using body_bound [of s] by (simp add: div_less_iff_less_mult)
  then have "queue_body s div 2 ^ 16 = 1 \<longleftrightarrow> 2 ^ 16 \<le> queue_body s"
    by (auto simp: less_2_cases_iff div_eq_0_iff)
  ultimately show ?thesis unfolding in_barrier_hi by (simp add: odd_iff_mod_2_eq_one)
qed

lemma body_eq: "dq_hi s = dq_hi s' \<Longrightarrow> queue_body s = queue_body s'"
  by (simp add: queue_body_def)

subsection \<open>Words with the same owner\<close>

definition same_owner :: "u64 \<Rightarrow> u64 \<Rightarrow> bool" where
  "same_owner s s' = (\<forall>n. 1 \<le> n \<and> n < 32 \<longrightarrow> bit s' n = bit s n)"

lemma same_owner_locked: "same_owner s s' \<Longrightarrow> dq_state_drain_locked s' = dq_state_drain_locked s"
  by (auto simp: same_owner_def drain_locked_bit)

lemma same_owner_owner: "same_owner s s' \<Longrightarrow> valid_tid t \<Longrightarrow> dq_state_drain_owner s' = t \<longleftrightarrow> dq_state_drain_owner s = t"
  by (simp add: same_owner_def drain_owner_bit)

lemma idle_wordI:
  assumes "idle_word w r s" "same_owner s s'" "bit s' 36 = bit s 36" "queue_body s' + r = queue_body s + r'"
  shows "idle_word w r' s'"
  using assms by (auto simp: idle_word_def same_owner_locked split: if_splits)

subsection \<open>The three shapes of a configuration\<close>

lemma queue_inv_cases [consumes 1, case_names idle barrier drain]:
  assumes "queue_inv w c"
  obtains "\<forall>t. qc_role c t = RIdle" "\<not> dq_state_drain_locked (qc_state c)"
      "queue_body (qc_state c) = (if bit (qc_state c) 36 then 0x7fff + qc_readers c
         else 0x8000 - unat w + qc_readers c)" "qc_readers c \<le> reader_limit"
  | t where "\<forall>t'. qc_role c t' = (if t' = t then RBarrier else RIdle)" "valid_tid t"
      "dq_state_drain_owner (qc_state c) = t" "\<not> bit (qc_state c) 36" "qc_readers c = 0"
      "queue_body (qc_state c) = 0x18000"
  | t n where "\<forall>t'. qc_role c t' = (if t' = t then RDrain n else RIdle)" "valid_tid t"
      "dq_state_drain_owner (qc_state c) = t" "\<not> bit (qc_state c) 36" "n \<le> unat w"
      "queue_body (qc_state c) = 0x8000 - unat w + qc_readers c + n" "qc_readers c \<le> reader_limit"
proof -
  from assms consider "(\<forall>t. qc_role c t = RIdle) \<and> idle_word w (qc_readers c) (qc_state c)"
    | t where "\<forall>t'. t' \<noteq> t \<longrightarrow> qc_role c t' = RIdle"
        "owned_word w (qc_readers c) t (qc_role c t) (qc_state c)"
    by (auto simp: queue_inv_def)
  then show ?thesis
  proof cases
    case 1
    with assms show ?thesis by (intro that(1)) (auto simp: idle_word_def queue_inv_def)
  next
    case (2 t)
    show ?thesis
    proof (cases "qc_role c t")
      case RIdle
      with 2 show ?thesis by (simp add: owned_word_def)
    next
      case RBarrier
      with 2 show ?thesis by (intro that(2)) (auto simp: owned_word_def)
    next
      case (RDrain n)
      with 2 assms show ?thesis by (intro that(3) [of t n]) (auto simp: owned_word_def queue_inv_def)
    qed
  qed
qed

lemma inv_idleI:
  "\<lbrakk>\<And>t. qc_role c t = RIdle; \<not> dq_state_drain_locked (qc_state c); qc_readers c \<le> reader_limit;
    queue_body (qc_state c) = (if bit (qc_state c) 36 then 0x7fff + qc_readers c
         else 0x8000 - unat w + qc_readers c)\<rbrakk> \<Longrightarrow> queue_inv w c"
  by (simp add: queue_inv_def idle_word_def)

lemma inv_barrierI:
  "\<lbrakk>\<And>t'. qc_role c t' = (if t' = t then RBarrier else RIdle); valid_tid t;
    dq_state_drain_owner (qc_state c) = t; \<not> bit (qc_state c) 36; qc_readers c = 0;
    queue_body (qc_state c) = 0x18000\<rbrakk> \<Longrightarrow> queue_inv w c"
  by (auto simp: queue_inv_def owned_word_def)

lemma inv_drainI:
  "\<lbrakk>\<And>t'. qc_role c t' = (if t' = t then RDrain n else RIdle); valid_tid t;
    dq_state_drain_owner (qc_state c) = t; \<not> bit (qc_state c) 36; n \<le> unat w;
    queue_body (qc_state c) = 0x8000 - unat w + qc_readers c + n; qc_readers c \<le> reader_limit\<rbrakk>
   \<Longrightarrow> queue_inv w c"
  unfolding queue_inv_def owned_word_def by (intro conjI disjI2 exI [of _ t]) simp_all

subsection \<open>Every step keeps it\<close>

lemma same_owner_slots [simp]: "same_owner s (s + slots k)" "same_owner s (s - slots k)"
  by (auto simp: same_owner_def)

lemma add_reader_inv:
  assumes inv: "queue_inv w c" and body: "queue_body (qc_state c) < 2 ^ 16"
    and lim: "qc_readers c < reader_limit" and s: "\<not> bit (qc_state c) 36"
  shows "queue_inv w (c\<lparr>qc_state := qc_state c + slots 1, qc_readers := Suc (qc_readers c)\<rparr>)"
    (is "queue_inv w ?c")
proof -
  let ?s = "qc_state c"
  have b: "queue_body (?s + slots 1) = queue_body ?s + 1" using body by (simp add: body_add)
  have l: "dq_state_drain_locked (?s + slots 1) = dq_state_drain_locked ?s"
    by (simp add: same_owner_locked [of ?s])
  show ?thesis using inv
  proof (cases rule: queue_inv_cases)
    case idle
    then show ?thesis using b l lim s by (intro inv_idleI) simp_all
  next
    case (barrier t)
    with body show ?thesis by simp
  next
    case (drain t n)
    then show ?thesis using b lim s
      by (intro inv_drainI [where t = t and n = n]) (simp_all add: same_owner_owner [of ?s])
  qed
qed

lemma sync_reader_inv:
  assumes "queue_inv w c" "dispatch_queue_try_reserve_sync_width (qc_state c) = Some s'"
    "qc_readers c < reader_limit"
  shows "queue_inv w (c\<lparr>qc_state := s', qc_readers := Suc (qc_readers c)\<rparr>)"
  using assms add_reader_inv [of w c] body_runnable [of "qc_state c"]
  by (simp add: try_reserve_sync_width_Some slots_const)

lemma width_room:
  assumes "queue_inv w c" "unat w \<le> 0x7ffe" "dq_hi (qc_state c) < 2 ^ 15" "\<not> bit (qc_state c) 36"
  shows "qc_readers c < unat w"
  using assms(1)
proof (cases rule: queue_inv_cases)
  case (barrier t)
  then show ?thesis using assms body_runnable [of "qc_state c"] by simp
qed (use assms body_runnable [of "qc_state c"] in simp_all)

lemma async_reader_inv:
  assumes "queue_inv w c" "dispatch_queue_try_acquire_async (qc_state c) = Some s'" "unat w \<le> 0x7ffe"
  shows "queue_inv w (c\<lparr>qc_state := s', qc_readers := Suc (qc_readers c)\<rparr>)"
proof -
  from assms(2) have h: "dq_hi (qc_state c) < 2 ^ 15" "\<not> bit (qc_state c) 36"
    and s': "s' = qc_state c + slots 1"
    by (auto simp: try_acquire_async_Some slots_const)
  from width_room [OF assms(1,3) h] assms(3) have "qc_readers c < reader_limit"
    by (simp add: reader_limit_def)
  then show ?thesis
    using add_reader_inv [OF assms(1)] body_runnable [of "qc_state c"] h by (simp add: s')
qed

lemma reader_done_inv:
  assumes inv: "queue_inv w c" and r: "qc_readers c = Suc r" and t: "valid_tid t"
    and w: "unat w \<le> 0x7ffe"
  shows "queue_inv w (c\<lparr>qc_state := dispatch_non_barrier_complete w t (qc_state c), qc_readers := r,
    qc_role := (if dq_state_is_in_barrier (dispatch_non_barrier_complete w t (qc_state c))
       then (qc_role c)(t := RBarrier) else qc_role c)\<rparr>)" (is "queue_inv w ?c")
proof -
  let ?s = "qc_state c"
  let ?s' = "dispatch_non_barrier_complete w t ?s"
  have "1 \<le> queue_body ?s \<and> queue_body ?s < 2 ^ 16" using inv
    by (cases rule: queue_inv_cases) (use r w in \<open>auto simp: reader_limit_def\<close>)
  then have b: "1 \<le> queue_body ?s" "queue_body ?s < 2 ^ 16" by simp_all
  have rel: "queue_inv w ?c"
    if "queue_body ?s' = queue_body ?s - 1" "same_owner ?s ?s'" "bit ?s' 36 = bit ?s 36"
  proof -
    have nb: "\<not> dq_state_is_in_barrier ?s'" using that(1) b by (simp add: body_in_barrier)
    show ?thesis using inv
    proof (cases rule: queue_inv_cases)
      case idle
      then show ?thesis using nb that r by (intro inv_idleI) (simp_all add: same_owner_locked [of ?s])
    next
      case (barrier t')
      with r show ?thesis by simp
    next
      case (drain t' n)
      then show ?thesis using nb that r
        by (intro inv_drainI [where t = t' and n = n]) (simp_all add: same_owner_owner [of ?s])
    qed
  qed
  have hi: "0 < dq_hi ?s" using b body_le_hi [of ?s] by simp
  from hi show ?thesis
  proof (cases rule: non_barrier_complete_cases [of ?s w t])
    case full
    then show ?thesis using b by (intro rel) (simp_all add: body_sub)
  next
    case (release v)
    from release(1,3) have "queue_body ?s' = queue_body ?s - 1"
      unfolding release(2) by (simp add: queue_body_def)
    moreover have "same_owner ?s ?s'" "bit ?s' 36 = bit ?s 36"
      unfolding release(2) by (simp_all add: same_owner_def release(4))
    ultimately show ?thesis by (rule rel)
  next
    case (take_over v)
    have low: "\<not> bit ?s n" if "1 \<le> n" "n < 32" for n
      using take_over(3) that by (auto simp: drain_locked_bit)
    have ht: "\<not> bit t n" if "32 \<le> n" for n using bit_u32_less [of t n] that by auto
    have own: "dq_state_drain_owner ?s' = t"
      using take_over(2,6) low by (simp add: drain_owner_bit [OF t])
    have body: "queue_body ?s' = 0x18000" using take_over(2,5) by (simp add: queue_body_def)
    show ?thesis using inv
    proof (cases rule: queue_inv_cases)
      case idle
      have "r = 0"
        using idle(3) take_over(1,4) r w body_runnable [of ?s] by (auto split: if_splits)
      then show ?thesis using idle own body t r take_over(2,6) ht [of 36]
        by (intro inv_barrierI [where t = t]) (simp_all add: body_in_barrier)
    next
      case (barrier t')
      with r show ?thesis by simp
    next
      case (drain t' n)
      with take_over(3) drain_owned_locked show ?thesis by blast
    qed
  qed
qed

lemma barrier_sync_inv:
  assumes inv: "queue_inv w c" and t: "valid_tid t" and w: "1 \<le> unat w" "unat w \<le> 0x7ffe"
    and lock: "dispatch_queue_try_acquire_barrier_sync w t (qc_state c) = Some s'"
  shows "queue_inv w (c\<lparr>qc_state := s', qc_role := (qc_role c)(t := RBarrier)\<rparr>)"
proof -
  note r = barrier_sync_word [OF lock]
  have s: "qc_state c = slots (2 ^ 15 - unat w)" using r(1) w by (simp add: init_value_slots)
  then have body: "queue_body (qc_state c) = 0x8000 - unat w" "\<not> bit (qc_state c) 36"
    using w by (simp_all add: queue_body_def hi_slots)
  have nl: "\<not> dq_state_drain_locked (qc_state c)"
    by (rule drain_locked_none) (simp add: s)
  have own: "dq_state_drain_owner s' = t"
    using r(3) by (simp add: drain_owner_bit [OF t])
  show ?thesis using inv
  proof (cases rule: queue_inv_cases)
    case idle
    then show ?thesis using own t body r(2,3) w bit_u32_less [of t 36]
      by (intro inv_barrierI [where t = t]) (auto simp: queue_body_def)
  next
    case (barrier t')
    with nl drain_owned_locked show ?thesis by blast
  next
    case (drain t' n)
    with nl drain_owned_locked show ?thesis by blast
  qed
qed

lemma same_owner_refl: "same_owner s s"
  by (simp add: same_owner_def)

lemma same_owner_enqueued [simp]: "same_owner s (s XOR DISPATCH_QUEUE_ENQUEUED)"
  "bit (s XOR DISPATCH_QUEUE_ENQUEUED) 36 = bit s 36"
  by (simp_all add: same_owner_def bit_simps flag_mask)

lemma other_flags_inv:
  assumes inv: "queue_inv w c" and s': "same_owner (qc_state c) s'" "bit s' 36 = bit (qc_state c) 36"
    "queue_body s' = queue_body (qc_state c)"
  shows "queue_inv w (c\<lparr>qc_state := s'\<rparr>)"
  using inv
proof (cases rule: queue_inv_cases)
  case idle
  then show ?thesis using s' by (intro inv_idleI) (simp_all add: same_owner_locked)
next
  case (barrier t)
  then show ?thesis using s' by (intro inv_barrierI [where t = t]) (simp_all add: same_owner_owner)
next
  case (drain t n)
  then show ?thesis using s'
    by (intro inv_drainI [where t = t and n = n]) (simp_all add: same_owner_owner)
qed

lemma drain_lock_inv:
  assumes inv: "queue_inv w c" and t: "valid_tid t" and w: "1 \<le> unat w" "unat w \<le> 0x7ffe"
    and lock: "dispatch_queue_drain_try_lock w t stealing (qc_state c) = (owned, s')"
  shows "queue_inv w (c\<lparr>qc_state := s', qc_role :=
      (if owned = 0 then qc_role c else (qc_role c)(t := owned_role owned))\<rparr>)"
proof (cases "dq_state_is_runnable (qc_state c) \<and> \<not> dq_state_drain_locked (qc_state c)")
  case False
  then have "owned = 0" "s' = qc_state c XOR (if stealing then 0 else DISPATCH_QUEUE_ENQUEUED)"
    using lock drain_try_lock_busy [of "qc_state c" w t stealing] by auto
  then show ?thesis using other_flags_inv [OF inv, of s']
    by (cases stealing) (simp_all add: lo_op_hi queue_body_def same_owner_refl)
next
  case True
  let ?s = "qc_state c"
  from True have h: "dq_hi ?s < 2 ^ 15" and nl: "\<not> dq_state_drain_locked ?s"
    by (simp_all add: runnable_hi)
  have w0: "0 < unat w" using w by simp
  note r = drain_try_lock_hi [OF h nl w0 lock]
  have hs': "dq_hi s' = 0x8000 \<or> dq_hi s' = 0x18000" using r(1) by auto
  have own: "dq_state_drain_owner s' = t" using r(3) by (simp add: drain_owner_bit [OF t])
  have np: "\<not> bit s' 36" using r(3) [of 36] bit_u32_less [of t 36] by auto
  have ho: "dq_hi owned = dq_hi s' - dq_hi ?s"
    unfolding r(2) hi_slots using hs' by (intro mod_less) auto
  have o: "owned \<noteq> 0" using ho hs' h by (auto simp: dq_hi_def)
  show ?thesis using inv
  proof (cases rule: queue_inv_cases)
    case idle
    note body = idle(3) [unfolded queue_body_def] 
    have readers: "bit ?s 36 \<or> dq_hi ?s + unat w \<le> 2 ^ 15 \<Longrightarrow> qc_readers c = 0"
      using body h w by (auto split: if_splits)
    show ?thesis
    proof (cases "bit ?s 36 \<or> dq_hi ?s + unat w \<le> 2 ^ 15")
      case True
      have hi: "dq_hi s' = 0x18000" using r(1) True by simp
      have "(0x18000 - dq_hi ?s) div 2 ^ 16 = 1"
        using h by (intro div_nat_eqI) simp_all
      then have "dq_state_is_in_barrier owned"
        unfolding in_barrier_hi ho hi by simp
      then show ?thesis using o idle(1) t own np readers [OF True] hi
        by (intro inv_barrierI [where t = t]) (simp_all add: owned_role_def queue_body_def)
    next
      case False
      have hi: "dq_hi s' = 0x8000" using r(1) False by simp
      have "\<not> dq_state_is_in_barrier owned"
        unfolding in_barrier_hi ho hi using h by simp
      moreover have "dq_hi owned = unat w - qc_readers c" "qc_readers c \<le> unat w"
        using body False h w unfolding ho hi by auto
      ultimately show ?thesis using o idle(1,4) t own np hi w
        by (intro inv_drainI [where t = t and n = "unat w - qc_readers c"])
          (simp_all add: owned_role_def queue_body_def)
    qed
  next
    case (barrier t')
    with nl drain_owned_locked show ?thesis by blast
  next
    case (drain t' n)
    with nl drain_owned_locked show ?thesis by blast
  qed
qed

subsection \<open>Giving the lock up\<close>

definition role_units :: "u16 \<Rightarrow> queue_role \<Rightarrow> nat" where
  "role_units w r = (case r of RIdle \<Rightarrow> 0 | RBarrier \<Rightarrow> 2 ^ 16 + unat w | RDrain n \<Rightarrow> n)"

lemma role_owned_slots: "role_owned w r = slots (role_units w r)"
  by (cases r) (simp_all add: role_owned_def role_units_def barrier_owned_slots slots_def)

lemma owner_facts:
  assumes "queue_inv w c" "qc_role c t \<noteq> RIdle" "unat w \<le> 0x7ffe"
  shows "t' \<noteq> t \<Longrightarrow> qc_role c t' = RIdle" "valid_tid t" "dq_state_drain_owner (qc_state c) = t"
    "\<not> bit (qc_state c) 36" "qc_readers c \<le> reader_limit"
    "queue_body (qc_state c) = 0x8000 - unat w + qc_readers c + role_units w (qc_role c t)"
proof -
  have "(t' \<noteq> t \<longrightarrow> qc_role c t' = RIdle) \<and> valid_tid t \<and> dq_state_drain_owner (qc_state c) = t
    \<and> \<not> bit (qc_state c) 36 \<and> qc_readers c \<le> reader_limit \<and>
    queue_body (qc_state c) = 0x8000 - unat w + qc_readers c + role_units w (qc_role c t)"
    using assms(1)
  proof (cases rule: queue_inv_cases)
    case idle
    with assms(2) show ?thesis by simp
  next
    case (barrier t1)
    with assms(2) have "t1 = t" by (auto split: if_splits)
    with barrier assms show ?thesis by (auto simp: role_units_def)
  next
    case (drain t1 n)
    with assms(2) have "t1 = t" by (auto split: if_splits)
    with drain assms show ?thesis by (auto simp: role_units_def)
  qed
  then show "t' \<noteq> t \<Longrightarrow> qc_role c t' = RIdle" "valid_tid t" "dq_state_drain_owner (qc_state c) = t"
    "\<not> bit (qc_state c) 36" "qc_readers c \<le> reader_limit"
    "queue_body (qc_state c) = 0x8000 - unat w + qc_readers c + role_units w (qc_role c t)"
    by blast+
qed

lemma release_inv:
  assumes "queue_inv w c" "qc_role c t \<noteq> RIdle" "unat w \<le> 0x7ffe" "\<not> dq_state_drain_locked s'"
    and "r \<le> reader_limit"
    and "queue_body s' = (if bit s' 36 then 0x7fff + r else 0x8000 - unat w + r)"
  shows "queue_inv w (c\<lparr>qc_state := s', qc_readers := r, qc_role := (qc_role c)(t := RIdle)\<rparr>)"
  using assms owner_facts(1) [OF assms(1-3)] by (intro inv_idleI) auto

lemma plus_pending:
  "\<not> bit s 36 \<Longrightarrow> s + DISPATCH_QUEUE_PENDING_BARRIER = s OR DISPATCH_QUEUE_PENDING_BARRIER"
  by (rule disjunctive_add) (auto simp: flag_mask)

lemma width_pred_slots:
  assumes "0 < unat w"
  shows "(ucast (w :: u16) - 1) * DISPATCH_QUEUE_WIDTH_INTERVAL = slots (unat w - 1)"
proof -
  have "(ucast w - 1) * DISPATCH_QUEUE_WIDTH_INTERVAL = slots (unat w) - slots 1"
    using width_slots [of w] slots_const(1) by (simp add: algebra_simps)
  then show ?thesis using assms by (simp add: slots_diff)
qed

lemma body_low_or [simp]: "queue_body (s OR DISPATCH_QUEUE_PENDING_BARRIER) = queue_body s"
  "queue_body (s OR DISPATCH_QUEUE_DIRTY) = queue_body s"
  "queue_body (s OR DISPATCH_QUEUE_ENQUEUED) = queue_body s"
  "queue_body (s AND NOT DISPATCH_QUEUE_DIRTY) = queue_body s"
  "queue_body (s AND NOT DISPATCH_QUEUE_PENDING_BARRIER) = queue_body s"
  "queue_body (DISPATCH_QUEUE_DRAIN_UNLOCK_PRESERVE_WAITERS_BIT s) = queue_body s"
  by (simp_all add: queue_body_def lo_op_hi)

lemma adjust_owned_word:
  fixes nb :: bool and s :: u64 and w :: u16 and k :: nat
  assumes "\<not> bit s 36" "k \<le> queue_body s" "queue_body s < 2 ^ 17 - unat w + k"
  defines "v \<equiv> s - dispatch_queue_adjust_owned w (slots k) nb"
  shows "queue_body v = queue_body s - k + (if 1 < w \<and> nb then unat w - 1 else 0)"
    and "n < 37 \<Longrightarrow> bit v n = (bit s n \<or> n = 36 \<and> 1 < w \<and> nb)"
proof -
  have w: "unat w < 2 ^ 16" by (rule u16_bound)
  have v: "v = (if 1 < w \<and> nb
      then (s - slots k + slots (unat w - 1)) OR DISPATCH_QUEUE_PENDING_BARRIER else s - slots k)"
  proof (cases "1 < w \<and> nb")
    case True
    then have "0 < unat w" by (auto simp: word_less_nat_alt)
    then have "dispatch_queue_adjust_owned w (slots k) nb
        = slots k - (DISPATCH_QUEUE_PENDING_BARRIER + slots (unat w - 1))"
      using True unfolding dispatch_queue_adjust_owned_def by (simp only: width_pred_slots) simp
    then have "v = (s - slots k + slots (unat w - 1)) + DISPATCH_QUEUE_PENDING_BARRIER"
      unfolding v_def by (simp only:) (simp add: algebra_simps)
    with True assms(1) show ?thesis by (simp add: plus_pending)
  next
    case False
    then show ?thesis by (simp only: v_def dispatch_queue_adjust_owned_def if_False)
  qed
  have "queue_body (s - slots k + slots (unat w - 1)) = queue_body s - k + (unat w - 1)"
    using assms(2,3) w by (subst body_add) (simp_all add: body_sub)
  then show "queue_body v = queue_body s - k + (if 1 < w \<and> nb then unat w - 1 else 0)"
    using assms(2) unfolding v by (simp add: body_low_or body_sub)
  show "n < 37 \<Longrightarrow> bit v n = (bit s n \<or> n = 36 \<and> 1 < w \<and> nb)"
    by (auto simp: v bit_simps flag_mask)
qed

lemma adjust_owned_id [simp]: "dispatch_queue_adjust_owned w x False = x"
  by (simp add: dispatch_queue_adjust_owned_def)

text \<open>The word minus what its owner gives back, the reservation of a pending barrier included.\<close>

lemma give_back_word:
  fixes nb :: bool and c :: queue_config
  assumes "queue_inv w c" "qc_role c t \<noteq> RIdle" "unat w \<le> 0x7ffe"
  defines "v \<equiv> qc_state c - dispatch_queue_adjust_owned w (role_owned w (qc_role c t)) nb"
  shows "queue_body v = (if bit v 36 then 0x7fff + qc_readers c else 0x8000 - unat w + qc_readers c)"
    "same_owner (qc_state c) v"
proof -
  note o = owner_facts [OF assms(1-3)]
  let ?k = "role_units w (qc_role c t)"
  have "?k \<le> queue_body (qc_state c)" "queue_body (qc_state c) < 2 ^ 17 - unat w + ?k"
    using o(5,6) assms(3) by (simp_all add: reader_limit_def)
  note a = adjust_owned_word [OF o(4) this, where nb = nb, folded role_owned_slots, folded v_def]
  have "1 < w \<longleftrightarrow> 1 < unat w" by (simp add: word_less_nat_alt)
  then show "queue_body v = (if bit v 36 then 0x7fff + qc_readers c else 0x8000 - unat w + qc_readers c)"
    using a(2) [of 36] o(4,6) assms(3) unfolding a(1) by auto
  show "same_owner (qc_state c) v"
    using a(2) by (auto simp: same_owner_def)
qed

lemma bit_drain_unlock_word:
  "n < 37 \<Longrightarrow> bit (dispatch_queue_drain_unlock owned s) n =
    (if n = 0 then \<not> bit (s - owned) 0 else 32 \<le> n \<and> n \<noteq> 33 \<and> n \<noteq> 35 \<and> bit (s - owned) n)"
  by (auto simp: drain_unlock_word bit_simps drain_owner_mask_bit flag_mask DLOCK_NOWAITERS_BIT_def)

lemma unlock_not_locked: "\<not> dq_state_drain_locked (dispatch_queue_drain_unlock owned s)"
  by (rule drain_locked_none) (simp add: bit_drain_unlock_word)

lemma preserve_not_locked: "\<not> dq_state_drain_locked (DISPATCH_QUEUE_DRAIN_UNLOCK_PRESERVE_WAITERS_BIT v)"
  by (rule drain_locked_none) (simp add: bit_preserve_waiters)

lemma try_unlock_inv:
  assumes inv: "queue_inv w c" "qc_role c t \<noteq> RIdle" "unat w \<le> 0x7ffe"
    and un: "dispatch_queue_drain_try_unlock (role_owned w (qc_role c t)) (qc_state c) = (released, s')"
  shows "queue_inv w (c\<lparr>qc_state := s', qc_role :=
      (if released then (qc_role c)(t := RIdle) else qc_role c)\<rparr>)"
  using drain_try_unlock_cases [of "qc_state c" "role_owned w (qc_role c t)"]
proof cases
  case renew
  then show ?thesis
    using un other_flags_inv [OF inv(1), of s'] by (auto simp: same_owner_def bit_simps flag_mask)
next
  case keep
  note g = give_back_word [OF inv, of False, unfolded adjust_owned_id]
  from keep un have "released"
    "s' = DISPATCH_QUEUE_DRAIN_UNLOCK_PRESERVE_WAITERS_BIT (qc_state c - role_owned w (qc_role c t))"
    by simp_all
  then show ?thesis
    using release_inv [OF inv, of s' "qc_readers c"] g(1) owner_facts(5) [OF inv]
    by (simp add: preserve_not_locked bit_preserve_waiters)
next
  case (idle v)
  note g = give_back_word [OF inv, of False, unfolded adjust_owned_id]
  from idle(4) un have s': "released" "s' = v" by simp_all
  have "\<not> dq_state_drain_locked v" by (rule drain_locked_none) (simp add: idle(6))
  then show ?thesis
    using release_inv [OF inv, of s' "qc_readers c"] g(1) owner_facts(5) [OF inv] s' body_eq [OF idle(5)]
    by (simp add: idle(6))
qed

lemma unlock_inv:
  assumes inv: "queue_inv w c" "qc_role c t = RBarrier" "unat w \<le> 0x7ffe"
  shows "queue_inv w (c\<lparr>qc_state := dispatch_queue_drain_unlock
      (dispatch_queue_adjust_owned w (barrier_owned w) nb) (qc_state c),
      qc_role := (qc_role c)(t := RIdle)\<rparr>)" (is "queue_inv w (c\<lparr>qc_state := ?s', qc_role := _\<rparr>)")
proof -
  have nt: "qc_role c t \<noteq> RIdle" "role_owned w (qc_role c t) = barrier_owned w"
    using inv(2) by (simp_all add: role_owned_def)
  note g = give_back_word [OF inv(1) nt(1) inv(3), of nb, unfolded nt(2)]
  have "queue_body ?s' = queue_body (qc_state c - dispatch_queue_adjust_owned w (barrier_owned w) nb)"
    by (rule body_eq) simp
  then show ?thesis
    using release_inv [OF inv(1) nt(1) inv(3), of ?s' "qc_readers c"] g(1)
      owner_facts(5) [OF inv(1) nt(1) inv(3)]
    by (simp add: unlock_not_locked bit_drain_unlock_word)
qed

lemma transfer_readers_inv:
  assumes inv: "queue_inv w c" "qc_role c t = RBarrier" "unat w \<le> 0x7ffe"
    and n: "qc_readers c + n \<le> reader_limit"
  shows "queue_inv w (c\<lparr>qc_state := dispatch_queue_drain_unlock
      (barrier_owned w - of_nat n * DISPATCH_QUEUE_WIDTH_INTERVAL) (qc_state c),
      qc_readers := qc_readers c + n, qc_role := (qc_role c)(t := RIdle)\<rparr>)"
    (is "queue_inv w (c\<lparr>qc_state := ?s', qc_readers := _, qc_role := _\<rparr>)")
proof -
  have nt: "qc_role c t \<noteq> RIdle" "role_owned w (qc_role c t) = barrier_owned w"
    using inv(2) by (simp_all add: role_owned_def)
  note g = give_back_word [OF inv(1) nt(1) inv(3), of False, unfolded nt(2) adjust_owned_id]
  note o = owner_facts [OF inv(1) nt(1) inv(3)]
  let ?v = "qc_state c - barrier_owned w"
  have v: "qc_state c - (barrier_owned w - of_nat n * DISPATCH_QUEUE_WIDTH_INTERVAL) = ?v + slots n"
    by (simp add: slots_def)
  have v36: "\<not> bit ?v 36" using o(4) by (simp add: barrier_owned_slots)
  have "queue_body ?s' = queue_body (?v + slots n)"
    by (rule body_eq) (simp add: v)
  also have "\<dots> = queue_body ?v + n"
    using g(1) n v36 by (intro body_add) (simp add: reader_limit_def)
  finally show ?thesis
    using release_inv [OF inv(1) nt(1) inv(3), of ?s' "qc_readers c + n"] g(1) n v36
    by (simp add: unlock_not_locked bit_drain_unlock_word v)
qed

lemma role_owned_low: "n < 37 \<Longrightarrow> n \<noteq> 36 \<Longrightarrow> \<not> bit (dispatch_queue_adjust_owned w (role_owned w r) nb) n"
proof -
  assume n: "n < 37" "n \<noteq> 36"
  have "\<not> bit (slots k - (DISPATCH_QUEUE_PENDING_BARRIER + (ucast w - 1) * DISPATCH_QUEUE_WIDTH_INTERVAL)) n" for k
  proof -
    have "slots k - (DISPATCH_QUEUE_PENDING_BARRIER + (ucast w - 1) * DISPATCH_QUEUE_WIDTH_INTERVAL)
      = (slots k - (1 + (ucast w - 1)) * DISPATCH_QUEUE_WIDTH_INTERVAL) + DISPATCH_QUEUE_PENDING_BARRIER"
      unfolding distrib_right
      by (simp add: DISPATCH_QUEUE_PENDING_BARRIER_def DISPATCH_QUEUE_WIDTH_INTERVAL_def)
    also have "\<dots> = (slots k - (1 + (ucast w - 1)) * DISPATCH_QUEUE_WIDTH_INTERVAL) OR DISPATCH_QUEUE_PENDING_BARRIER"
      by (rule plus_pending) (simp only: bit_width_sub bit_slots not_False_eq_True)
    finally show ?thesis using n by (simp only: bit_or_iff bit_width_sub bit_slots flag_mask) simp
  qed
  then show ?thesis using n by (auto simp: dispatch_queue_adjust_owned_def role_owned_slots)
qed

lemma adjust_owned_preserved:
  "dispatch_queue_adjust_owned w (role_owned w r) nb AND DISPATCH_QUEUE_DRAIN_PRESERVED_BITS_MASK = 0"
  using role_owned_low [of 0 w r nb] role_owned_low [of 32 w r nb] role_owned_low [of 34 w r nb]
  by (intro bit_word_eqI) (auto simp: bit_simps bit_preserved_mask intro!: gr0I)

lemma give_up_inv:
  assumes inv: "queue_inv w c" "qc_role c t \<noteq> RIdle" "unat w \<le> 0x7ffe"
    and s': "s' = dispatch_queue_class_invoke_release upgrade_allowed
      (dispatch_queue_adjust_owned w (role_owned w (qc_role c t)) nb) (qc_state c)"
  shows "queue_inv w (c\<lparr>qc_state := s', qc_role :=
      (qc_role c)(t := if dq_state_is_in_barrier s' then RBarrier else RIdle)\<rparr>)"
proof -
  define v where "v = qc_state c - dispatch_queue_adjust_owned w (role_owned w (qc_role c t)) nb"
  note g = give_back_word [OF inv, of nb, folded v_def]
  note o = owner_facts [OF inv]
  have step: "s' = (if upgrade_allowed \<and> dq_state_is_runnable v \<and> dq_state_has_pending_barrier v
      then v + DISPATCH_QUEUE_IN_BARRIER + DISPATCH_QUEUE_WIDTH_INTERVAL - DISPATCH_QUEUE_PENDING_BARRIER
      else if dq_state_should_wakeup (DISPATCH_QUEUE_DRAIN_UNLOCK_PRESERVE_WAITERS_BIT v)
      then (DISPATCH_QUEUE_DRAIN_UNLOCK_PRESERVE_WAITERS_BIT v OR DISPATCH_QUEUE_ENQUEUED) OR DISPATCH_QUEUE_DIRTY
      else DISPATCH_QUEUE_DRAIN_UNLOCK_PRESERVE_WAITERS_BIT v)"
    unfolding s' dispatch_queue_class_invoke_release_def Let_def adjust_owned_preserved v_def [symmetric]
    by simp
  show ?thesis
  proof (cases "upgrade_allowed \<and> dq_state_is_runnable v \<and> dq_state_has_pending_barrier v")
    case True
    then have p: "bit v 36" and h: "dq_hi v < 2 ^ 15" by (simp_all add: flag_bit runnable_hi)
    from True have "s' = (v - DISPATCH_QUEUE_PENDING_BARRIER) + slots 0x10001"
      using slots_add_eq [of "0x10000" 1] unfolding step by (simp add: slots_const)
    then have s': "s' = (v AND NOT DISPATCH_QUEUE_PENDING_BARRIER) + slots 0x10001"
      using minus_pending [OF p] by simp
    have r: "qc_readers c = 0" "queue_body v = 0x7fff"
      using g(1) p body_runnable [of v] h by auto
    have "queue_body s' = 0x18000" unfolding s' using r(2) by (subst body_add) simp_all
    moreover from this have "dq_state_is_in_barrier s'" by (simp add: body_in_barrier)
    moreover have "dq_state_drain_owner s' = t"
      using o(2,3) g(2) by (auto simp: s' drain_owner_bit same_owner_def bit_simps flag_mask)
    moreover have "\<not> bit s' 36" by (simp add: s' bit_simps flag_mask)
    ultimately show ?thesis using o(1,2) r(1)
      by (intro inv_barrierI [where t = t]) auto
  next
    case False
    let ?p = "DISPATCH_QUEUE_DRAIN_UNLOCK_PRESERVE_WAITERS_BIT v"
    have s'2: "s' = ?p \<or> s' = (?p OR DISPATCH_QUEUE_ENQUEUED) OR DISPATCH_QUEUE_DIRTY"
      unfolding step if_not_P [OF False] by simp
    then have body: "queue_body s' = queue_body v" by auto
    have low: "n < 32 \<or> n = 36 \<Longrightarrow> bit s' n = bit ?p n" for n
      using s'2 by (auto simp: bit_simps flag_mask)
    have nl: "\<not> dq_state_drain_locked s'"
      using preserve_not_locked [of v] drain_locked_cong [of s' ?p] low by blast
    have p: "bit s' 36 = bit v 36" using low [of 36] by (simp add: bit_preserve_waiters)
    have "\<not> dq_state_is_in_barrier s'"
      using g(1) o(5) inv(3) by (auto simp: body_in_barrier body reader_limit_def split: if_splits)
    then show ?thesis
      using release_inv [OF inv nl o(5)] g(1) p body by simp
  qed
qed

lemma transfer_barrier_inv:
  assumes inv: "queue_inv w c" "qc_role c t = RBarrier" "unat w \<le> 0x7ffe" and t': "valid_tid t'"
  shows "queue_inv w (c\<lparr>qc_state := dispatch_queue_drain_lock_transfer_or_unlock 0 t' (qc_state c),
      qc_role := (qc_role c)(t := RIdle, t' := RBarrier)\<rparr>)" (is "queue_inv w ?c")
proof -
  let ?s' = "dispatch_queue_drain_lock_transfer_or_unlock 0 t' (qc_state c)"
  have nt: "qc_role c t \<noteq> RIdle" using inv(2) by simp
  note o = owner_facts [OF inv(1) nt inv(3)]
  have b: "bit ?s' n = (if n < 32 then bit t' n else n \<noteq> 33 \<and> n \<noteq> 35 \<and> bit (qc_state c) n)"
    if "n < 37" "n \<noteq> 0" for n
    using that by (auto simp: dispatch_queue_drain_lock_transfer_or_unlock_def Let_def bit_simps
        drain_owner_mask_bit flag_mask DLOCK_NOWAITERS_BIT_def dest: bit_u32_less)
  have "queue_body ?s' = queue_body (qc_state c)"
    by (rule body_eq) (simp add: dispatch_queue_drain_lock_transfer_or_unlock_def Let_def lo_op_hi)
  moreover have "dq_state_drain_owner ?s' = t'"
    using b by (simp add: drain_owner_bit [OF t'])
  moreover have "\<not> bit ?s' 36" using b [of 36] o(4) by simp
  moreover have "qc_readers c = 0" "queue_body (qc_state c) = 0x18000"
    using inv(1,2) by (cases rule: queue_inv_cases; simp split: if_splits)+
  ultimately show ?thesis using t' o(1) by (intro inv_barrierI [where t = t']) auto
qed

lemma drop_barrier_inv:
  assumes inv: "queue_inv w c" "qc_role c t = RBarrier" "unat w \<le> 0x7ffe"
  shows "queue_inv w (c\<lparr>qc_state := qc_state c AND NOT DISPATCH_QUEUE_IN_BARRIER,
      qc_role := (qc_role c)(t := RDrain (unat w))\<rparr>)" (is "queue_inv w ?c")
proof -
  let ?s = "qc_state c"
  have nt: "qc_role c t \<noteq> RIdle" using inv(2) by simp
  note o = owner_facts [OF inv(1) nt inv(3)]
  have b: "queue_body ?s = 0x18000" "qc_readers c = 0"
    using inv(1,2) by (cases rule: queue_inv_cases; simp split: if_splits)+
  have "bit ?s 53"
    using b(1) body_in_barrier [of ?s] by (simp add: flag_bit)
  then have s': "?s AND NOT DISPATCH_QUEUE_IN_BARRIER = ?s - slots (2 ^ 16)"
    using disjunctive_diff [of DISPATCH_QUEUE_IN_BARRIER ?s, unfolded flag_mask]
    by (simp add: slots_const(3))
  show ?thesis unfolding s'
    using o b inv(3) body_sub [of "2 ^ 16" ?s]
    by (intro inv_drainI [where t = t and n = "unat w"]) (auto simp: same_owner_owner [of ?s])
qed

lemma drain_width_inv:
  assumes inv: "queue_inv w c" "qc_role c t = RDrain 0" "unat w \<le> 0x7ffe" and w: "1 \<le> unat w"
  shows "queue_inv w (c\<lparr>qc_state := qc_state c + slots 1, qc_role := (qc_role c)(t := RDrain 1)\<rparr>)"
proof -
  let ?s = "qc_state c"
  have nt: "qc_role c t \<noteq> RIdle" using inv(2) by simp
  note o = owner_facts [OF inv(1) nt inv(3)]
  have "queue_body (?s + slots 1) = queue_body ?s + 1"
    using o(5,6) inv(2) by (intro body_add) (simp add: role_units_def reader_limit_def)
  then show ?thesis
    using o inv(2) w by (intro inv_drainI [where t = t and n = 1])
      (auto simp: role_units_def same_owner_owner [of ?s])
qed

lemma hand_to_reader_inv:
  assumes inv: "queue_inv w c" "qc_role c t = RDrain (Suc n)" "unat w \<le> 0x7ffe"
    and r: "qc_readers c < reader_limit"
  shows "queue_inv w (c\<lparr>qc_readers := Suc (qc_readers c), qc_role := (qc_role c)(t := RDrain n)\<rparr>)"
proof -
  have nt: "qc_role c t \<noteq> RIdle" using inv(2) by simp
  note o = owner_facts [OF inv(1) nt inv(3)]
  have "Suc n \<le> unat w"
    using inv(1,2) by (cases rule: queue_inv_cases; simp split: if_splits)
  then show ?thesis using o inv(2) r
    by (intro inv_drainI [where t = t and n = n]) (auto simp: role_units_def)
qed

lemma queue_step_inv:
  assumes step: "queue_step w c c'" and inv: "queue_inv w c" and w: "1 \<le> unat w" "unat w \<le> 0x7ffe"
  shows "queue_inv w c'"
  using step
proof cases
  case (sync_reader s')
  then show ?thesis using sync_reader_inv [OF inv] by simp
next
  case (async_reader s')
  then show ?thesis using async_reader_inv [OF inv _ w(2)] by simp
next
  case (reader_done r t s')
  then show ?thesis using reader_done_inv [OF inv _ _ w(2)] by blast
next
  case (barrier_sync t s')
  then show ?thesis using barrier_sync_inv [OF inv _ w] by simp
next
  case (drain_lock t stealing owned s')
  then show ?thesis using drain_lock_inv [OF inv _ w] by blast
next
  case (drop_barrier t)
  then show ?thesis using drop_barrier_inv [OF inv _ w(2)] by simp
next
  case (drain_width_sync t)
  then show ?thesis using drain_width_inv [OF inv _ w(2,1)]
    by (simp only: dispatch_queue_reserve_sync_width_def slots_const(1))
next
  case (drain_width_async t s')
  then show ?thesis using drain_width_inv [OF inv _ w(2,1)]
    by (simp only: try_acquire_async_Some slots_const(1))
next
  case (hand_to_reader t n)
  then show ?thesis using hand_to_reader_inv [OF inv _ w(2)] by simp
next
  case (try_unlock t released s')
  then show ?thesis using try_unlock_inv [OF inv _ w(2)] by blast
next
  case (unlock t nb s')
  then show ?thesis using unlock_inv [OF inv _ w(2)] by blast
next
  case (give_up t up nb s')
  then show ?thesis using give_up_inv [OF inv _ w(2)] by blast
next
  case (transfer_barrier t t' s')
  then show ?thesis using transfer_barrier_inv [OF inv _ w(2)] by blast
next
  case (transfer_readers t n s')
  then show ?thesis using transfer_readers_inv [OF inv _ w(2)] by blast
next
  case (other_flags s')
  then show ?thesis using other_flags_inv [OF inv, of s'] by (simp add: same_owner_def)
qed

lemma queue_init_inv: "unat w \<le> 0x7ffe \<Longrightarrow> queue_inv w (queue_init w)"
proof -
  assume w: "unat w \<le> 0x7ffe"
  have s: "DISPATCH_QUEUE_STATE_INIT_VALUE w = slots (2 ^ 15 - unat w)"
    using w by (simp add: init_value_slots)
  have "\<not> dq_state_drain_locked (slots (2 ^ 15 - unat w))" by (rule drain_locked_none) simp
  moreover have "queue_body (slots (2 ^ 15 - unat w)) = 2 ^ 15 - unat w"
    by (simp add: queue_body_def hi_slots)
  ultimately show ?thesis using w
    by (intro inv_idleI) (simp_all add: queue_init_def s reader_limit_def)
qed

lemma queue_reachable_inv:
  "queue_reachable w c \<Longrightarrow> 1 \<le> unat w \<Longrightarrow> unat w \<le> 0x7ffe \<Longrightarrow> queue_inv w c"
  by (induction rule: queue_reachable.induct) (auto intro: queue_init_inv queue_step_inv)

section \<open>The reader-writer discipline\<close>

text \<open>
  C1. In every interleaving of synchronous and asynchronous readers, barriers, drains, lock
  transfers, interrupted drains and changes of the other flags, at most one thread owns a queue,
  the state word names it as the drain owner, and a thread that owns the barrier runs with no
  reader active.
\<close>
theorem queue_exclusion:
  assumes "queue_reachable w c" "1 \<le> unat w" "unat w \<le> 0x7ffe" "qc_role c t \<noteq> RIdle"
  shows "(\<forall>t'. t' \<noteq> t \<longrightarrow> qc_role c t' = RIdle)
    \<and> dq_state_drain_owner (qc_state c) = t
    \<and> (qc_role c t = RBarrier \<longrightarrow> qc_readers c = 0 \<and> dq_state_is_in_barrier (qc_state c))
    \<and> role_units w (qc_role c t) \<le> 2 ^ 16 + unat w"
proof -
  note inv = queue_reachable_inv [OF assms(1-3)]
  note o = owner_facts [OF inv assms(4,3)]
  have "qc_role c t = RBarrier \<Longrightarrow> qc_readers c = 0 \<and> dq_state_is_in_barrier (qc_state c)"
    using inv by (cases rule: queue_inv_cases) (auto simp: body_in_barrier split: if_splits)
  moreover have "role_units w (qc_role c t) \<le> 2 ^ 16 + unat w"
    using inv by (cases rule: queue_inv_cases) (auto simp: role_units_def split: if_splits)
  ultimately show ?thesis using o by blast
qed

text \<open>
  C2. When an asynchronous item gets a slot of a queue (`_dispatch_queue_try_acquire_async`),
  the readers and the width any drainer still owns are fewer than the queue's width: the
  concurrency limit is never exceeded.
\<close>
theorem queue_width_respected:
  assumes "queue_reachable w c" "1 \<le> unat w" "unat w \<le> 0x7ffe"
    and "dispatch_queue_try_acquire_async (qc_state c) = Some s'"
  shows "qc_readers c + role_units w (qc_role c t) < unat w"
proof -
  note inv = queue_reachable_inv [OF assms(1-3)]
  from assms(4) have h: "dq_hi (qc_state c) < 2 ^ 15" "\<not> bit (qc_state c) 36"
    by (auto simp: try_acquire_async_Some)
  then have body: "queue_body (qc_state c) < 2 ^ 15" by (simp add: body_runnable)
  show ?thesis using inv
    by (cases rule: queue_inv_cases) (use body h assms in \<open>auto simp: role_units_def\<close>)
qed

text \<open>
  C3. A reachable queue that nobody uses and whose flags are clear is back at its initial word
  exactly, so no width is ever leaked and the one-shot compare-and-swap of dispatch_barrier_sync
  succeeds on it.
\<close>
theorem queue_idle_is_initial:
  assumes "queue_reachable w c" "1 \<le> unat w" "unat w \<le> 0x7ffe"
    and "\<And>t. qc_role c t = RIdle" "qc_readers c = 0"
    and "\<not> dq_state_is_suspended (qc_state c)" "dq_lo (qc_state c) = 0" and t: "valid_tid t"
  shows "dispatch_queue_try_acquire_barrier_sync w t (qc_state c) \<noteq> None"
proof -
  note inv = queue_reachable_inv [OF assms(1-3)]
  have p: "\<not> bit (qc_state c) 36" using bit_lo [of 36 "qc_state c"] assms(7) by simp
  have "queue_body (qc_state c) = 2 ^ 15 - unat w"
    using inv by (cases rule: queue_inv_cases) (use assms(4,5) p in \<open>auto split: if_splits\<close>)
  then have "dq_hi (qc_state c) = 2 ^ 15 - unat w"
    using assms(6) by (simp add: suspended_hi body_runnable)
  moreover have "DISPATCH_QUEUE_STATE_INIT_VALUE w = slots (2 ^ 15 - unat w)"
    using assms(3) by (intro init_value_slots) simp
  moreover have "dq_hi (slots (2 ^ 15 - unat w)) = 2 ^ 15 - unat w"
    by (rule hi_slots_small) simp
  ultimately have "qc_state c = DISPATCH_QUEUE_STATE_INIT_VALUE w"
    using assms(7) by (simp add: parts_eqI)
  then show ?thesis by (simp add: dispatch_queue_try_acquire_barrier_sync_def Let_def)
qed

lemma sample_run: "queue_reachable 4 ((queue_init 4)\<lparr>qc_state := 0x0030000000000103,
    qc_role := (qc_role (queue_init 4))(0x103 := RBarrier)\<rparr>)"
proof (rule queue_reachable.step [OF queue_reachable.start queue_step.barrier_sync [OF sample_tid]])
  have "qc_state (queue_init 4) = 0x000fff8000000000" by code_simp
  then show "dispatch_queue_try_acquire_barrier_sync 4 0x103 (qc_state (queue_init 4))
      = Some 0x0030000000000103"
    using sample_barrier by simp
qed

theorem queue_exclusion_witness:
  "dq_state_drain_owner 0x0030000000000103 = 0x103"
  using queue_exclusion [OF sample_run, of "0x103"] by simp

theorem queue_width_respected_witness:
  "dispatch_queue_try_acquire_async (qc_state (queue_init 4)) = Some 0x000fffa000000000
   \<and> qc_readers (queue_init 4) < 4"
proof -
  have a: "dispatch_queue_try_acquire_async (qc_state (queue_init 4)) = Some 0x000fffa000000000"
    by code_simp
  show ?thesis
    using a add_lessD1 [OF queue_width_respected [OF queue_reachable.start _ _ a]] by simp
qed

theorem queue_idle_is_initial_witness:
  "dispatch_queue_try_acquire_barrier_sync 4 0x103 (qc_state (queue_init 4)) \<noteq> None"
proof (rule queue_idle_is_initial [OF queue_reachable.start])
  show "\<not> dq_state_is_suspended (qc_state (queue_init 4))" "dq_lo (qc_state (queue_init 4)) = 0"
    "valid_tid 0x103" "qc_readers (queue_init 4) = 0" by code_simp+
  show "1 \<le> unat (4 :: u16)" "unat (4 :: u16) \<le> 0x7ffe" by simp_all
  show "qc_role (queue_init 4) t = RIdle" for t by (simp add: queue_init_def)
qed

end
