(* ===== verification/Unfair_Lock.thy ===== *)
theory Unfair_Lock
  imports Dispatch_Lock
begin

text \<open>
  The unfair lock: \<open>_dispatch_unfair_lock_*\<close> of \<open>shims/lock.h\<close> and the \<open>HAVE_UL_UNFAIR_LOCK\<close>
  branch of \<open>shims/lock.c\<close>. Every atomic operation is one function on the lock word; the
  threads run as a step relation whose program points are those between two atomic operations.
  The kernel's \<open>__ulock_wait\<close> compares the word and blocks in one atomic step, may return at any
  time, and tells a thread that was woken whether other threads are still blocked
  (\<open>ENOTEMPTY\<close>); \<open>__ulock_wake\<close> wakes one blocked thread when there is one. Shown: mutual
  exclusion, that neither crash of the code is reached, and that no wakeup is lost.
\<close>

section \<open>Operations on the word\<close>

definition dispatch_unfair_lock_lock :: "dispatch_lock_owner \<Rightarrow> dispatch_lock \<Rightarrow> dispatch_lock option" where
  "dispatch_unfair_lock_lock tid_self dul_lock =
     (if dul_lock = DLOCK_OWNER_NULL then Some tid_self else None)"

definition dispatch_unfair_lock_trylock ::
  "dispatch_lock_owner \<Rightarrow> dispatch_lock \<Rightarrow> bool \<times> dispatch_lock_owner \<times> dispatch_lock" where
  "dispatch_unfair_lock_trylock tid_self tid_old =
     (let tid_new = (if \<not> dispatch_lock_is_locked tid_old then tid_self
                     else tid_old AND NOT DLOCK_NOFAILED_TRYLOCK_BIT)
      in (\<not> dispatch_lock_is_locked tid_old, dispatch_lock_owner tid_new, tid_new))"

text \<open>The new word, whether the lock was released, and whether \<open>unlock_slow\<close> must run.\<close>

definition dispatch_unfair_lock_tryunlock :: "dispatch_lock \<Rightarrow> dispatch_lock \<times> bool \<times> bool" where
  "dispatch_unfair_lock_tryunlock tid_old =
     (let tid_new = (if tid_old AND DLOCK_NOFAILED_TRYLOCK_BIT \<noteq> 0 then DLOCK_OWNER_NULL
                     else tid_old OR DLOCK_NOFAILED_TRYLOCK_BIT)
      in if tid_new \<noteq> 0 then (tid_new, False, False)
         else (tid_new, True, dispatch_lock_has_waiters tid_old))"

text \<open>The new word, whether \<open>unlock_slow\<close> must run, and the result.\<close>

definition dispatch_unfair_lock_unlock_had_failed_trylock ::
  "dispatch_lock_owner \<Rightarrow> dispatch_lock \<Rightarrow> dispatch_lock \<times> bool \<times> bool" where
  "dispatch_unfair_lock_unlock_had_failed_trylock tid_self tid_cur =
     (if tid_cur = tid_self then (DLOCK_OWNER_NULL, False, False)
      else (DLOCK_OWNER_NULL, True, dispatch_lock_has_failed_trylock tid_cur))"

datatype lock_slow_result = LockRecursive | LockAcquired | LockWait dispatch_lock

text \<open>One round of the loop of \<open>_dispatch_unfair_lock_lock_slow\<close> up to the wait.\<close>

definition dispatch_unfair_lock_lock_slow ::
  "dispatch_lock_owner \<Rightarrow> dispatch_lock \<Rightarrow> dispatch_lock \<Rightarrow> lock_slow_result \<times> dispatch_lock" where
  "dispatch_unfair_lock_lock_slow tid_self next tid_old =
     (let tid_new = (if \<not> dispatch_lock_is_locked tid_old then next
                     else tid_old AND NOT DLOCK_NOWAITERS_BIT)
      in (if dispatch_lock_is_locked_by tid_old tid_self then LockRecursive
          else if tid_new = next then LockAcquired else LockWait tid_new, tid_new))"

text \<open>The word to install next time, from the result of the wait.\<close>

definition unfair_lock_next :: "dispatch_lock_owner \<Rightarrow> bool \<Rightarrow> dispatch_lock" where
  "unfair_lock_next tid_self enotempty =
     (if enotempty then tid_self AND NOT DLOCK_NOWAITERS_BIT else tid_self)"

text \<open>\<open>None\<close> is the crash; \<open>Some True\<close> means that a waiter must be woken.\<close>

definition dispatch_unfair_lock_unlock_slow ::
  "dispatch_lock_owner \<Rightarrow> dispatch_lock \<Rightarrow> bool option" where
  "dispatch_unfair_lock_unlock_slow tid_self tid_cur =
     (if \<not> dispatch_lock_is_locked_by tid_cur tid_self then None
      else Some (\<not> (tid_cur AND DLOCK_NOWAITERS_BIT \<noteq> 0)))"

section \<open>Threads\<close>

datatype unfair_pc = UIdle | USlow dispatch_lock | UWait dispatch_lock | UAsleep | UHeld
  | UWake dispatch_lock | UCrash

record unfair_config =
  uf_lock :: dispatch_lock
  uf_pc :: "dispatch_lock_owner \<Rightarrow> unfair_pc"

definition uf_set :: "unfair_config \<Rightarrow> dispatch_lock \<Rightarrow> dispatch_lock_owner \<Rightarrow> unfair_pc \<Rightarrow> unfair_config" where
  "uf_set c w t p = c\<lparr>uf_lock := w, uf_pc := (uf_pc c)(t := p)\<rparr>"

inductive unfair_step :: "unfair_config \<Rightarrow> unfair_config \<Rightarrow> bool" where
  lock_fast: "uf_pc c t = UIdle \<Longrightarrow> valid_tid t \<Longrightarrow>
    dispatch_unfair_lock_lock t (uf_lock c) = Some w \<Longrightarrow> unfair_step c (uf_set c w t UHeld)"
| lock_contended: "uf_pc c t = UIdle \<Longrightarrow> valid_tid t \<Longrightarrow>
    dispatch_unfair_lock_lock t (uf_lock c) = None \<Longrightarrow> unfair_step c (uf_set c (uf_lock c) t (USlow t))"
| trylock: "uf_pc c t = UIdle \<Longrightarrow> valid_tid t \<Longrightarrow>
    dispatch_unfair_lock_trylock t (uf_lock c) = (got, owner, w) \<Longrightarrow>
    unfair_step c (uf_set c w t (if got then UHeld else UIdle))"
| lock_slow: "uf_pc c t = USlow next \<Longrightarrow>
    dispatch_unfair_lock_lock_slow t next (uf_lock c) = (r, w) \<Longrightarrow>
    unfair_step c (uf_set c w t
      (case r of LockRecursive \<Rightarrow> UCrash | LockAcquired \<Rightarrow> UHeld | LockWait v \<Rightarrow> UWait v))"
| block: "uf_pc c t = UWait v \<Longrightarrow> uf_lock c = v \<Longrightarrow> unfair_step c (uf_set c (uf_lock c) t UAsleep)"
| return_early: "uf_pc c t = UWait v \<or> uf_pc c t = UAsleep \<Longrightarrow>
    unfair_step c (uf_set c (uf_lock c) t (USlow (unfair_lock_next t enotempty)))"
| unlock: "uf_pc c t = UHeld \<Longrightarrow>
    dispatch_unfair_lock_unlock_had_failed_trylock t (uf_lock c) = (w, slow, failed) \<Longrightarrow>
    unfair_step c (uf_set c w t (if slow then UWake (uf_lock c) else UIdle))"
| tryunlock: "uf_pc c t = UHeld \<Longrightarrow>
    dispatch_unfair_lock_tryunlock (uf_lock c) = (w, released, slow) \<Longrightarrow>
    unfair_step c (uf_set c w t
      (if \<not> released then UHeld else if slow then UWake (uf_lock c) else UIdle))"
| unlock_crash: "uf_pc c t = UWake cur \<Longrightarrow> dispatch_unfair_lock_unlock_slow t cur = None \<Longrightarrow>
    unfair_step c (uf_set c (uf_lock c) t UCrash)"
| unlock_quiet: "uf_pc c t = UWake cur \<Longrightarrow>
    dispatch_unfair_lock_unlock_slow t cur = Some False \<or> (\<forall>u. uf_pc c u \<noteq> UAsleep) \<Longrightarrow>
    dispatch_unfair_lock_unlock_slow t cur \<noteq> None \<Longrightarrow>
    unfair_step c (uf_set c (uf_lock c) t UIdle)"
| unlock_wake: "uf_pc c t = UWake cur \<Longrightarrow> dispatch_unfair_lock_unlock_slow t cur = Some True \<Longrightarrow>
    uf_pc c u = UAsleep \<Longrightarrow> others \<longleftrightarrow> (\<exists>v. v \<noteq> u \<and> uf_pc c v = UAsleep) \<Longrightarrow>
    unfair_step c (uf_set (uf_set c (uf_lock c) t UIdle) (uf_lock c) u
      (USlow (unfair_lock_next u others)))"

definition unfair_init :: unfair_config where
  "unfair_init = \<lparr>uf_lock = DLOCK_OWNER_NULL, uf_pc = (\<lambda>_. UIdle)\<rparr>"

inductive unfair_reachable :: "unfair_config \<Rightarrow> bool" where
  start: "unfair_reachable unfair_init"
| step: "unfair_reachable c \<Longrightarrow> unfair_step c c' \<Longrightarrow> unfair_reachable c'"

section \<open>The invariant\<close>

definition unfair_holder_ok :: "unfair_config \<Rightarrow> bool" where
  "unfair_holder_ok c = ((\<exists>t. valid_tid t \<and> dispatch_lock_is_locked_by (uf_lock c) t \<and>
       (\<forall>u. uf_pc c u = UHeld \<longleftrightarrow> u = t)) \<or>
     uf_lock c = 0 \<and> (\<forall>u. uf_pc c u \<noteq> UHeld))"

fun unfair_pc_ok :: "dispatch_lock_owner \<Rightarrow> unfair_pc \<Rightarrow> bool" where
  "unfair_pc_ok t UIdle = True"
| "unfair_pc_ok t (USlow n) = (valid_tid t \<and> dispatch_lock_is_locked_by n t)"
| "unfair_pc_ok t (UWait v) = (valid_tid t \<and> dispatch_lock_is_locked v \<and> \<not> bit v 0)"
| "unfair_pc_ok t UAsleep = valid_tid t"
| "unfair_pc_ok t UHeld = valid_tid t"
| "unfair_pc_ok t (UWake cur) = (valid_tid t \<and> dispatch_lock_is_locked_by cur t)"
| "unfair_pc_ok t UCrash = False"

text \<open>Somebody is bound to wake the sleepers: the holder, a thread in \<open>unlock_slow\<close>, or a woken
  thread that was told that others still sleep.\<close>

fun pc_wake_due :: "unfair_pc \<Rightarrow> bool" where
  "pc_wake_due (UWake cur) = (\<not> bit cur 0)"
| "pc_wake_due (USlow n) = (\<not> bit n 0)"
| "pc_wake_due _ = False"

definition word_wake_due :: "dispatch_lock \<Rightarrow> bool" where
  "word_wake_due w = (dispatch_lock_is_locked w \<and> \<not> bit w 0)"

definition unfair_wake_due :: "unfair_config \<Rightarrow> bool" where
  "unfair_wake_due c = (word_wake_due (uf_lock c) \<or> (\<exists>t. pc_wake_due (uf_pc c t)))"

definition unfair_inv :: "unfair_config \<Rightarrow> bool" where
  "unfair_inv c = (unfair_holder_ok c \<and> (\<forall>t. unfair_pc_ok t (uf_pc c t)) \<and>
     ((\<exists>t. uf_pc c t = UAsleep) \<longrightarrow> unfair_wake_due c))"

lemma uf_set_simps [simp]:
  "uf_lock (uf_set c w t p) = w" "uf_pc (uf_set c w t p) u = (if u = t then p else uf_pc c u)"
  by (simp_all add: uf_set_def)

lemma locked_by_self [simp]: "dispatch_lock_is_locked_by t t"
  by (simp add: is_locked_by_iff)

lemma not_locked_0 [simp]: "\<not> dispatch_lock_is_locked 0"
  by (simp add: is_locked_iff)

lemma locked_by_flag [simp]:
  "dispatch_lock_is_locked_by (w AND NOT DLOCK_NOWAITERS_BIT) t = dispatch_lock_is_locked_by w t"
  "dispatch_lock_is_locked_by (w AND NOT DLOCK_NOFAILED_TRYLOCK_BIT) t = dispatch_lock_is_locked_by w t"
  "dispatch_lock_is_locked_by (w OR DLOCK_NOFAILED_TRYLOCK_BIT) t = dispatch_lock_is_locked_by w t"
  using bit_u32_less [of w] by (auto simp: is_locked_by_iff bit_simps)

lemma locked_flag [simp]:
  "dispatch_lock_is_locked (w AND NOT DLOCK_NOWAITERS_BIT) = dispatch_lock_is_locked w"
  "dispatch_lock_is_locked (w AND NOT DLOCK_NOFAILED_TRYLOCK_BIT) = dispatch_lock_is_locked w"
  "dispatch_lock_is_locked (w OR DLOCK_NOFAILED_TRYLOCK_BIT) = dispatch_lock_is_locked w"
  using bit_u32_less [of w] by (auto simp: is_locked_iff bit_simps)

lemma holder_cases:
  assumes "unfair_inv c"
  obtains (held) t where "valid_tid t" "dispatch_lock_is_locked_by (uf_lock c) t"
      "\<And>u. uf_pc c u = UHeld \<longleftrightarrow> u = t" "dispatch_lock_is_locked (uf_lock c)" "uf_lock c \<noteq> 0"
  | (free) "uf_lock c = 0" "\<And>u. uf_pc c u \<noteq> UHeld"
  using assms locked_byD unfolding unfair_inv_def unfair_holder_ok_def
  by (metis not_locked_0)

lemma inv_pc: "unfair_inv c \<Longrightarrow> unfair_pc_ok t (uf_pc c t)"
  by (simp add: unfair_inv_def)

lemma inv_wake: "unfair_inv c \<Longrightarrow> uf_pc c t = UAsleep \<Longrightarrow> unfair_wake_due c"
  by (auto simp: unfair_inv_def)

lemma wake_due_set: "unfair_wake_due (uf_set c w t p) \<longleftrightarrow>
    word_wake_due w \<or> pc_wake_due p \<or> (\<exists>u. u \<noteq> t \<and> pc_wake_due (uf_pc c u))"
  unfolding unfair_wake_due_def uf_set_simps by metis

text \<open>A step of thread \<open>t\<close> to the program point \<open>p\<close> and the word \<open>w\<close> keeps the invariant.\<close>

lemma inv_setI:
  assumes inv: "unfair_inv c" and "unfair_pc_ok t p" "unfair_holder_ok (uf_set c w t p)"
    and new: "p = UAsleep \<Longrightarrow> word_wake_due w"
    and keep: "word_wake_due (uf_lock c) \<or> pc_wake_due (uf_pc c t) \<Longrightarrow> word_wake_due w \<or> pc_wake_due p"
  shows "unfair_inv (uf_set c w t p)"
proof -
  have "unfair_wake_due (uf_set c w t p)" if "uf_pc (uf_set c w t p) u = UAsleep" for u
  proof (cases "u = t")
    case True
    with that new show ?thesis by (simp add: wake_due_set)
  next
    case False
    with that have "unfair_wake_due c" by (intro inv_wake [OF inv]) simp
    then have "word_wake_due (uf_lock c) \<or> (\<exists>v. pc_wake_due (uf_pc c v))"
      by (simp only: unfair_wake_due_def)
    then show ?thesis using keep unfolding wake_due_set by metis
  qed
  then show ?thesis using assms(2,3) inv_pc [OF inv] unfolding unfair_inv_def uf_set_simps by presburger
qed

lemma holder_setI:
  "uf_pc c t = UHeld \<longleftrightarrow> p = UHeld \<Longrightarrow> (\<And>u. dispatch_lock_is_locked_by w u = dispatch_lock_is_locked_by (uf_lock c) u) \<Longrightarrow>
    (w = 0 \<longleftrightarrow> uf_lock c = 0) \<Longrightarrow> unfair_holder_ok c \<Longrightarrow> unfair_holder_ok (uf_set c w t p)"
  unfolding unfair_holder_ok_def uf_set_simps by metis

lemma next_ok: "valid_tid t \<Longrightarrow> unfair_pc_ok t (USlow (unfair_lock_next t b))"
  by (simp add: unfair_lock_next_def)

lemma is_locked_nonzero: "w = 0 \<or> dispatch_lock_is_locked w \<Longrightarrow> w = 0 \<longleftrightarrow> \<not> dispatch_lock_is_locked w"
  by auto

lemma word_locked: "unfair_inv c \<Longrightarrow> dispatch_lock_is_locked (uf_lock c) \<longleftrightarrow> uf_lock c \<noteq> 0"
  by (cases rule: holder_cases) auto

lemma locked_nonzero: "dispatch_lock_is_locked w \<Longrightarrow> w \<noteq> 0"
  by auto

lemma acquire_inv:
  assumes inv: "unfair_inv c" and t: "valid_tid t" and w: "uf_lock c = 0" "dispatch_lock_is_locked_by w t"
    and keep: "pc_wake_due (uf_pc c t) \<Longrightarrow> \<not> bit w 0"
  shows "unfair_inv (uf_set c w t UHeld)"
proof (rule inv_setI [OF inv])
  show "unfair_pc_ok t UHeld" using t by simp
  show "unfair_holder_ok (uf_set c w t UHeld)"
    using inv
  proof (cases rule: holder_cases)
    case free
    then show ?thesis using t w by (auto simp: unfair_holder_ok_def)
  qed (use w in simp)
  have "dispatch_lock_is_locked w" using locked_byD t w(2) by blast
  then show "word_wake_due (uf_lock c) \<or> pc_wake_due (uf_pc c t) \<Longrightarrow> word_wake_due w \<or> pc_wake_due UHeld"
    using w keep by (auto simp: word_wake_due_def)
qed simp

lemma stay_inv:
  assumes inv: "unfair_inv c" and p: "unfair_pc_ok t p" "uf_pc c t = UHeld \<longleftrightarrow> p = UHeld"
    and w: "\<And>u. dispatch_lock_is_locked_by w u = dispatch_lock_is_locked_by (uf_lock c) u"
      "w = 0 \<longleftrightarrow> uf_lock c = 0" "dispatch_lock_is_locked (uf_lock c) \<Longrightarrow> dispatch_lock_is_locked w" 
      "bit w 0 \<Longrightarrow> bit (uf_lock c) 0"
    and new: "p = UAsleep \<Longrightarrow> word_wake_due w"
    and keep: "pc_wake_due (uf_pc c t) \<Longrightarrow> word_wake_due w \<or> pc_wake_due p"
  shows "unfair_inv (uf_set c w t p)"
proof (rule inv_setI [OF inv p(1) _ new])
  show "unfair_holder_ok (uf_set c w t p)"
    using inv p w by (intro holder_setI) (auto simp: unfair_inv_def)
  show "word_wake_due (uf_lock c) \<or> pc_wake_due (uf_pc c t) \<Longrightarrow> word_wake_due w \<or> pc_wake_due p"
    using keep w by (auto simp: word_wake_due_def)
qed

lemma lock_release_inv:
  assumes inv: "unfair_inv c" and h: "uf_pc c t = UHeld" and p: "unfair_pc_ok t p" "p \<noteq> UHeld" "p \<noteq> UAsleep"
    and keep: "\<not> bit (uf_lock c) 0 \<Longrightarrow> pc_wake_due p"
  shows "unfair_inv (uf_set c 0 t p)"
proof (rule inv_setI [OF inv p(1)])
  show "unfair_holder_ok (uf_set c 0 t p)"
    using inv
  proof (cases rule: holder_cases)
    case (held u)
    then show ?thesis using h p by (auto simp: unfair_holder_ok_def)
  qed (use h in simp)
  show "word_wake_due (uf_lock c) \<or> pc_wake_due (uf_pc c t) \<Longrightarrow> word_wake_due 0 \<or> pc_wake_due p"
    using keep h by (auto simp: word_wake_due_def)
qed (use p in simp)

lemma held_by: "unfair_inv c \<Longrightarrow> uf_pc c t = UHeld \<Longrightarrow> valid_tid t \<and> dispatch_lock_is_locked_by (uf_lock c) t"
  by (cases rule: holder_cases) auto

lemma not_held_by:
  assumes "unfair_inv c" "valid_tid t" "uf_pc c t \<noteq> UHeld"
  shows "\<not> dispatch_lock_is_locked_by (uf_lock c) t"
  using assms(1)
proof (cases rule: holder_cases)
  case (held u)
  then show ?thesis using assms locked_by_unique by blast
next
  case free
  then show ?thesis using assms(2) locked_byD by fastforce
qed

section \<open>Every step keeps it\<close>

lemma lock_slow_inv:
  assumes inv: "unfair_inv c" and pc: "uf_pc c t = USlow next"
    and r: "dispatch_unfair_lock_lock_slow t next (uf_lock c) = (r, w)"
  shows "unfair_inv (uf_set c w t
    (case r of LockRecursive \<Rightarrow> UCrash | LockAcquired \<Rightarrow> UHeld | LockWait v \<Rightarrow> UWait v))"
proof -
  have ok: "valid_tid t" "dispatch_lock_is_locked_by next t" using inv_pc [OF inv, of t] pc by simp_all
  have nl: "\<not> dispatch_lock_is_locked_by (uf_lock c) t" using not_held_by [OF inv ok(1)] pc by simp
  show ?thesis
  proof (cases "uf_lock c = 0")
    case True
    then have "r = LockAcquired" "w = next"
      using r nl by (auto simp: dispatch_unfair_lock_lock_slow_def Let_def)
    then show ?thesis using acquire_inv [OF inv ok(1) True ok(2)] pc by simp
  next
    case False
    then have l: "dispatch_lock_is_locked (uf_lock c)" using word_locked [OF inv] by simp
    let ?w = "uf_lock c AND NOT DLOCK_NOWAITERS_BIT"
    have "?w \<noteq> next" using nl ok(2) by auto
    then have "r = LockWait ?w" "w = ?w"
      using r nl l by (auto simp: dispatch_unfair_lock_lock_slow_def Let_def)
    moreover have "dispatch_lock_is_locked ?w" "\<not> bit ?w 0" using l by (simp_all add: bit_simps)
    moreover have "?w \<noteq> 0" using l locked_nonzero [of ?w] by simp
    ultimately show ?thesis
      using ok False pc l by (auto intro!: stay_inv [OF inv] simp: word_wake_due_def)
  qed
qed

lemma unfair_step_inv:
  assumes step: "unfair_step c c'" and inv: "unfair_inv c"
  shows "unfair_inv c'"
  using step
proof cases
  case (lock_fast t w)
  then show ?thesis
    by (auto simp: dispatch_unfair_lock_lock_def DLOCK_OWNER_NULL_def intro!: acquire_inv [OF inv] split: if_splits)
next
  case (lock_contended t)
  then show ?thesis by (auto intro!: stay_inv [OF inv])
next
  case (trylock t got owner w)
  show ?thesis
  proof (cases "uf_lock c = 0")
    case True
    with trylock show ?thesis
      by (auto simp: dispatch_unfair_lock_trylock_def Let_def intro!: acquire_inv [OF inv])
  next
    case False
    then have l: "dispatch_lock_is_locked (uf_lock c)" using word_locked [OF inv] by simp
    with trylock have eq: "got = False" "w = uf_lock c AND NOT DLOCK_NOFAILED_TRYLOCK_BIT"
      by (auto simp: dispatch_unfair_lock_trylock_def Let_def)
    have "w \<noteq> 0" using l locked_nonzero [of w] by (simp add: eq(2))
    then show ?thesis unfolding trylock(1) eq
      using False trylock(2) l eq(2) by (auto intro!: stay_inv [OF inv] simp: bit_simps)
  qed
next
  case (lock_slow t nxt r w)
  then show ?thesis using lock_slow_inv [OF inv] by simp
next
  case (block t v)
  then show ?thesis using inv_pc [OF inv, of t]
    by (auto intro!: stay_inv [OF inv] simp: word_wake_due_def)
next
  case (return_early t b)
  then have "valid_tid t" using inv_pc [OF inv, of t] by auto
  with return_early show ?thesis
    by (auto intro!: stay_inv [OF inv] simp: next_ok simp del: unfair_pc_ok.simps)
next
  case (unlock t w slow failed)
  from held_by [OF inv unlock(2)] unlock show ?thesis
    by (auto simp: dispatch_unfair_lock_unlock_had_failed_trylock_def DLOCK_OWNER_NULL_def valid_tid_def
        intro!: lock_release_inv [OF inv] split: if_splits)
next
  case (tryunlock t w released slow)
  note h = held_by [OF inv tryunlock(2)]
  then have l: "dispatch_lock_is_locked (uf_lock c)" using locked_byD by blast
  show ?thesis
  proof (cases "bit (uf_lock c) 1")
    case True
    then have "w = 0" "released" "slow = dispatch_lock_has_waiters (uf_lock c)"
      using tryunlock(3) by (auto simp: dispatch_unfair_lock_tryunlock_def Let_def nofailed_test
          DLOCK_OWNER_NULL_def)
    then show ?thesis unfolding tryunlock(1)
      using h l tryunlock(2) by (auto simp: dispatch_lock_has_waiters_def nowaiters_test
          intro!: lock_release_inv [OF inv])
  next
    case False
    let ?w = "uf_lock c OR DLOCK_NOFAILED_TRYLOCK_BIT"
    have "?w \<noteq> 0" using l locked_nonzero [of ?w] by simp
    then have "w = ?w" "\<not> released"
      using tryunlock(3) False by (auto simp: dispatch_unfair_lock_tryunlock_def Let_def nofailed_test)
    then show ?thesis unfolding tryunlock(1)
      using \<open>?w \<noteq> 0\<close> h l tryunlock(2) by (auto intro!: stay_inv [OF inv] simp: bit_simps)
  qed
next
  case (unlock_crash t cur)
  then show ?thesis using inv_pc [OF inv, of t]
    by (simp add: dispatch_unfair_lock_unlock_slow_def split: if_splits)
next
  case (unlock_quiet t cur)
  have ok: "valid_tid t" "dispatch_lock_is_locked_by cur t"
    using inv_pc [OF inv, of t] unlock_quiet(2) by simp_all
  show ?thesis
  proof (cases "bit cur 0")
    case True
    then show ?thesis unfolding unlock_quiet(1)
      using unlock_quiet(2) by (auto intro!: stay_inv [OF inv])
  next
    case False
    with unlock_quiet(3) ok have none: "\<forall>u. uf_pc c u \<noteq> UAsleep"
      by (auto simp: dispatch_unfair_lock_unlock_slow_def nowaiters_test)
    have "unfair_holder_ok (uf_set c (uf_lock c) t UIdle)"
      using inv unlock_quiet(2) by (intro holder_setI) (auto simp: unfair_inv_def)
    then show ?thesis unfolding unlock_quiet(1)
      using none inv_pc [OF inv] by (auto simp: unfair_inv_def)
  qed
next
  case (unlock_wake t cur u others)
  let ?n = "unfair_lock_next u others"
  let ?c = "uf_set c (uf_lock c) t UIdle"
  have u: "valid_tid u" "u \<noteq> t" using inv_pc [OF inv, of u] unlock_wake(2,4) by auto
  have "unfair_holder_ok ?c"
    using inv unlock_wake(2) by (intro holder_setI) (auto simp: unfair_inv_def)
  then have h: "unfair_holder_ok c'"
    unfolding unlock_wake(1) using unlock_wake(4) u by (subst holder_setI) auto
  have ok: "unfair_pc_ok v (uf_pc c' v)" for v
    using inv_pc [OF inv, of v] next_ok [OF u(1)] by (simp add: unlock_wake(1) del: unfair_pc_ok.simps(2))
  have "unfair_wake_due c'" if "uf_pc c' v = UAsleep" for v
  proof -
    from that have "v \<noteq> u" "uf_pc c v = UAsleep" by (auto simp: unlock_wake(1) split: if_splits)
    with unlock_wake(5) have others by blast
    then have "\<not> bit ?n 0" by (simp add: unfair_lock_next_def bit_simps)
    then show ?thesis unfolding unlock_wake(1) wake_due_set by simp
  qed
  with h ok show ?thesis by (auto simp: unfair_inv_def)
qed


lemma unfair_init_inv: "unfair_inv unfair_init"
  by (simp add: unfair_inv_def unfair_init_def unfair_holder_ok_def DLOCK_OWNER_NULL_def)

lemma unfair_reachable_inv: "unfair_reachable c \<Longrightarrow> unfair_inv c"
  by (induction rule: unfair_reachable.induct) (auto intro: unfair_init_inv unfair_step_inv)

section \<open>The lock is a lock\<close>

text \<open>
  C10. In every interleaving of lock, trylock, unlock and tryunlock with their slow paths and
  spurious wakeups, at most one thread holds the unfair lock, the lock word names it as the
  owner, and neither the recursive-lock crash nor the unlock-of-an-unowned-lock crash is reached
  by correct callers.
\<close>
theorem unfair_lock_mutual_exclusion:
  assumes "unfair_reachable c" "uf_pc c t = UHeld"
  shows "(\<forall>u. uf_pc c u = UHeld \<longrightarrow> u = t) \<and> dispatch_lock_owner (uf_lock c) = t
    \<and> (\<forall>u. uf_pc c u \<noteq> UCrash)"
proof -
  note inv = unfair_reachable_inv [OF assms(1)]
  have "uf_pc c u \<noteq> UCrash" for u using inv_pc [OF inv, of u] by auto
  moreover have "dispatch_lock_owner (uf_lock c) = t"
    using held_by [OF inv assms(2)] lock_owner_eq_iff by blast
  moreover have "uf_pc c u = UHeld \<Longrightarrow> u = t" for u
    using held_by [OF inv] assms(2) locked_by_unique by blast
  ultimately show ?thesis by blast
qed

text \<open>
  C11. While a thread sleeps in the kernel on an unfair lock, a wakeup is due: the holder's
  unlock will take the slow path and wake a waiter, or a thread is about to wake one, or a woken
  thread is about to install a word that keeps the waiters bit.
\<close>
theorem unfair_lock_no_lost_wakeup:
  assumes "unfair_reachable c" "uf_pc c t = UAsleep"
  shows "(\<exists>u. uf_pc c u = UHeld \<and> fst (snd (dispatch_unfair_lock_unlock_had_failed_trylock u (uf_lock c)))
      \<and> dispatch_unfair_lock_unlock_slow u (uf_lock c) = Some True)
    \<or> (\<exists>u cur. uf_pc c u = UWake cur \<and> dispatch_unfair_lock_unlock_slow u cur = Some True)
    \<or> (\<exists>u next. uf_pc c u = USlow next \<and> dispatch_lock_has_waiters next)"
proof -
  note inv = unfair_reachable_inv [OF assms(1)]
  from inv_wake [OF inv assms(2)] consider "word_wake_due (uf_lock c)"
    | u where "pc_wake_due (uf_pc c u)" by (auto simp: unfair_wake_due_def)
  then show ?thesis
  proof cases
    case 1
    then have l: "dispatch_lock_is_locked (uf_lock c)" "\<not> bit (uf_lock c) 0"
      by (simp_all add: word_wake_due_def)
    from inv l obtain u where u: "valid_tid u" "dispatch_lock_is_locked_by (uf_lock c) u" "uf_pc c u = UHeld"
      by (cases rule: holder_cases) auto
    then have "uf_lock c \<noteq> u" using l by (auto simp: valid_tid_def)
    with u l show ?thesis
      by (intro disjI1 exI [of _ u]) (simp add: dispatch_unfair_lock_unlock_had_failed_trylock_def
          dispatch_unfair_lock_unlock_slow_def nowaiters_test)
  next
    case (2 u)
    show ?thesis
    proof (cases "uf_pc c u")
      case (USlow n)
      with inv_pc [OF inv, of u] 2 have "dispatch_lock_has_waiters n"
        using locked_byD by (auto simp: dispatch_lock_has_waiters_def nowaiters_test)
      with USlow show ?thesis by blast
    next
      case (UWake cur)
      with inv_pc [OF inv, of u] 2 show ?thesis
        by (intro disjI2 disjI1 exI [of _ u] exI [of _ cur])
          (simp add: dispatch_unfair_lock_unlock_slow_def nowaiters_test)
    qed (use 2 in simp_all)
  qed
qed

lemma sample_lock_run:
  defines "held \<equiv> uf_set unfair_init 0x103 0x103 UHeld"
  shows "unfair_reachable held"
    and "unfair_reachable (uf_set (uf_set (uf_set held 0x103 0x207 (USlow 0x207))
        0x102 0x207 (UWait 0x102)) 0x102 0x207 UAsleep)"
proof -
  have "unfair_step unfair_init held"
    unfolding held_def by (rule unfair_step.lock_fast) (simp add: unfair_init_def, code_simp, simp add: unfair_init_def dispatch_unfair_lock_lock_def)
  then show h: "unfair_reachable held" by (rule unfair_reachable.step [OF unfair_reachable.start])
  let ?c1 = "uf_set held (uf_lock held) 0x207 (USlow 0x207)"
  have "unfair_step held ?c1"
  proof (rule unfair_step.lock_contended)
    show "valid_tid 0x207" by code_simp
  qed (simp_all add: held_def unfair_init_def dispatch_unfair_lock_lock_def DLOCK_OWNER_NULL_def)
  with h have r1: "unfair_reachable ?c1" by (rule unfair_reachable.step)
  have s: "dispatch_unfair_lock_lock_slow 0x207 0x207 (uf_lock ?c1) = (LockWait 0x102, 0x102)"
    by (simp add: held_def dispatch_unfair_lock_lock_slow_def dispatch_lock_is_locked_def
        DLOCK_OWNER_MASK_def DLOCK_NOWAITERS_BIT_def dispatch_lock_is_locked_by_def)
  have "unfair_step ?c1 (uf_set ?c1 0x102 0x207 (UWait 0x102))"
    using unfair_step.lock_slow [OF _ s] by simp
  with r1 have r2: "unfair_reachable (uf_set ?c1 0x102 0x207 (UWait 0x102))" by (rule unfair_reachable.step)
  have "unfair_step (uf_set ?c1 0x102 0x207 (UWait 0x102))
      (uf_set (uf_set ?c1 0x102 0x207 (UWait 0x102)) 0x102 0x207 UAsleep)"
    using unfair_step.block [of "uf_set ?c1 0x102 0x207 (UWait 0x102)" "0x207" "0x102"] by simp
  with r2 have "unfair_reachable (uf_set (uf_set ?c1 0x102 0x207 (UWait 0x102)) 0x102 0x207 UAsleep)"
    by (rule unfair_reachable.step)
  then show "unfair_reachable (uf_set (uf_set (uf_set held 0x103 0x207 (USlow 0x207))
        0x102 0x207 (UWait 0x102)) 0x102 0x207 UAsleep)" by (simp add: held_def)
qed

theorem unfair_lock_mutual_exclusion_witness:
  "dispatch_lock_owner (uf_lock (uf_set unfair_init 0x103 0x103 UHeld)) = 0x103"
  using unfair_lock_mutual_exclusion [OF sample_lock_run(1), of "0x103"] by simp

theorem unfair_lock_no_lost_wakeup_witness:
  "\<exists>c :: unfair_config. uf_pc c 0x207 = UAsleep \<and>
    ((\<exists>u. uf_pc c u = UHeld \<and> fst (snd (dispatch_unfair_lock_unlock_had_failed_trylock u (uf_lock c)))
      \<and> dispatch_unfair_lock_unlock_slow u (uf_lock c) = Some True)
    \<or> (\<exists>u cur. uf_pc c u = UWake cur \<and> dispatch_unfair_lock_unlock_slow u cur = Some True)
    \<or> (\<exists>u next. uf_pc c u = USlow next \<and> dispatch_lock_has_waiters next))"
proof -
  let ?c = "uf_set (uf_set (uf_set (uf_set unfair_init 0x103 0x103 UHeld) 0x103 0x207 (USlow 0x207))
        0x102 0x207 (UWait 0x102)) 0x102 0x207 UAsleep"
  have a: "uf_pc ?c 0x207 = UAsleep" by simp
  show ?thesis by (rule exI, rule conjI [OF a unfair_lock_no_lost_wakeup [OF sample_lock_run(2) a]])
qed

end
