(* ===== verification/Dispatch_Once.thy ===== *)
theory Dispatch_Once
  imports Dispatch_Lock
begin

text \<open>
  \<open>dispatch_once_f\<close> of \<open>once.c\<close> with the gate of \<open>shims/lock.h\<close> and \<open>shims/lock.c\<close>
  (\<open>DISPATCH_GATE_USE_FOR_DISPATCH_ONCE\<close>). The predicate is a 64-bit word; the gate that waiters
  use is its low half. A step is one atomic operation or one kernel call; the kernel compares the
  word and blocks atomically, and a blocked waiter may also return for no reason. Shown: the
  function runs exactly once, nobody returns before it has returned, the code never crashes on a
  correct use, and no waiter is left asleep after the broadcast.
\<close>

section \<open>The gate\<close>

definition DLOCK_GATE_UNLOCKED :: dispatch_lock where "DLOCK_GATE_UNLOCKED = 0"
definition DLOCK_ONCE_UNLOCKED :: u64 where "DLOCK_ONCE_UNLOCKED = 0"
definition DLOCK_ONCE_DONE :: u64 where "DLOCK_ONCE_DONE = NOT 0"

definition dispatch_gate_tryenter :: "dispatch_lock_owner \<Rightarrow> dispatch_lock \<Rightarrow> dispatch_lock option" where
  "dispatch_gate_tryenter tid_self dgl_lock =
     (if dgl_lock = DLOCK_GATE_UNLOCKED then Some tid_self else None)"

text \<open>The new word, and whether the slow path must run on the old one.\<close>

definition dispatch_gate_broadcast :: "dispatch_lock_owner \<Rightarrow> dispatch_lock \<Rightarrow> dispatch_lock \<times> bool" where
  "dispatch_gate_broadcast tid_self tid_cur = (DLOCK_GATE_UNLOCKED, tid_cur \<noteq> tid_self)"

definition dispatch_once_gate_tryenter :: "dispatch_lock_owner \<Rightarrow> u64 \<Rightarrow> u64 option" where
  "dispatch_once_gate_tryenter tid_self dgo_once =
     (if dgo_once = DLOCK_ONCE_UNLOCKED then Some (ucast tid_self) else None)"

definition dispatch_once_gate_broadcast :: "dispatch_lock_owner \<Rightarrow> u64 \<Rightarrow> u64 \<times> bool" where
  "dispatch_once_gate_broadcast tid_self tid_cur = (DLOCK_ONCE_DONE, tid_cur \<noteq> ucast tid_self)"

datatype gate_wait_result = GateReturn | GateRecursive | GateWait dispatch_lock

text \<open>One round of the loop of \<open>_dispatch_gate_wait_slow\<close> up to the wait.\<close>

definition dispatch_gate_wait_slow ::
  "dispatch_lock_owner \<Rightarrow> dispatch_lock \<Rightarrow> dispatch_lock \<Rightarrow> gate_wait_result \<times> dispatch_lock" where
  "dispatch_gate_wait_slow tid_self value tid_old =
     (if tid_old = value then (GateReturn, tid_old)
      else let tid_new = tid_old AND NOT DLOCK_NOWAITERS_BIT
           in (if dispatch_lock_is_locked_by tid_old tid_self then GateRecursive
               else GateWait tid_new, tid_new))"

text \<open>\<open>None\<close> is the crash, otherwise every waiter is woken.\<close>

definition dispatch_gate_broadcast_slow :: "dispatch_lock_owner \<Rightarrow> dispatch_lock \<Rightarrow> unit option" where
  "dispatch_gate_broadcast_slow tid_self tid_cur =
     (if \<not> dispatch_lock_is_locked_by tid_cur tid_self then None else Some ())"

text \<open>The low half of the predicate, which the union overlays with the gate.\<close>

definition once_gate :: "u64 \<Rightarrow> dispatch_lock" where "once_gate dgo_once = ucast dgo_once"

definition once_with_gate :: "u64 \<Rightarrow> dispatch_lock \<Rightarrow> u64" where
  "once_with_gate dgo_once l = (dgo_once AND NOT (mask 32)) OR ucast l"

section \<open>Threads in \<open>dispatch_once_f\<close>\<close>

datatype once_pc = OIdle | OCallout | OBroadcast | OWake dispatch_lock | OLoop
  | OWait dispatch_lock | OAsleep | OReturned | OCrash

record once_config =
  oc_once :: u64
  oc_calls :: nat
  oc_completed :: bool
  oc_pc :: "dispatch_lock_owner \<Rightarrow> once_pc"

definition once_tid :: "dispatch_lock_owner \<Rightarrow> bool" where
  "once_tid t = (valid_tid t \<and> t \<noteq> ucast DLOCK_ONCE_DONE)"

inductive once_step :: "once_config \<Rightarrow> once_config \<Rightarrow> bool" where
  enter: "oc_pc c t = OIdle \<or> oc_pc c t = OReturned \<Longrightarrow> once_tid t \<Longrightarrow>
    dispatch_once_gate_tryenter t (oc_once c) = Some w \<Longrightarrow>
    once_step c (c\<lparr>oc_once := w, oc_calls := Suc (oc_calls c), oc_pc := (oc_pc c)(t := OCallout)\<rparr>)"
| enter_wait: "oc_pc c t = OIdle \<or> oc_pc c t = OReturned \<Longrightarrow> once_tid t \<Longrightarrow>
    dispatch_once_gate_tryenter t (oc_once c) = None \<Longrightarrow>
    once_step c (c\<lparr>oc_pc := (oc_pc c)(t := OLoop)\<rparr>)"
| callout_returns: "oc_pc c t = OCallout \<Longrightarrow>
    once_step c (c\<lparr>oc_completed := True, oc_pc := (oc_pc c)(t := OBroadcast)\<rparr>)"
| broadcast: "oc_pc c t = OBroadcast \<Longrightarrow>
    dispatch_once_gate_broadcast t (oc_once c) = (w, slow) \<Longrightarrow>
    once_step c (c\<lparr>oc_once := w,
      oc_pc := (oc_pc c)(t := if slow then OWake (ucast (oc_once c)) else OReturned)\<rparr>)"
| broadcast_slow: "oc_pc c t = OWake cur \<Longrightarrow> dispatch_gate_broadcast_slow t cur = Some () \<Longrightarrow>
    once_step c (c\<lparr>oc_pc :=
      (\<lambda>u. if u = t then OReturned else if oc_pc c u = OAsleep then OLoop else oc_pc c u)\<rparr>)"
| broadcast_crash: "oc_pc c t = OWake cur \<Longrightarrow> dispatch_gate_broadcast_slow t cur = None \<Longrightarrow>
    once_step c (c\<lparr>oc_pc := (oc_pc c)(t := OCrash)\<rparr>)"
| wait_round: "oc_pc c t = OLoop \<Longrightarrow>
    dispatch_gate_wait_slow t (ucast DLOCK_ONCE_DONE) (once_gate (oc_once c)) = (r, l) \<Longrightarrow>
    once_step c (c\<lparr>oc_once := once_with_gate (oc_once c) l, oc_pc := (oc_pc c)(t :=
      (case r of GateReturn \<Rightarrow> OReturned | GateRecursive \<Rightarrow> OCrash | GateWait v \<Rightarrow> OWait v))\<rparr>)"
| block: "oc_pc c t = OWait v \<Longrightarrow> once_gate (oc_once c) = v \<Longrightarrow>
    once_step c (c\<lparr>oc_pc := (oc_pc c)(t := OAsleep)\<rparr>)"
| return_early: "oc_pc c t = OWait v \<or> oc_pc c t = OAsleep \<Longrightarrow>
    once_step c (c\<lparr>oc_pc := (oc_pc c)(t := OLoop)\<rparr>)"

definition once_init :: once_config where
  "once_init = \<lparr>oc_once = 0, oc_calls = 0, oc_completed = False, oc_pc = (\<lambda>_. OIdle)\<rparr>"

inductive once_reachable :: "once_config \<Rightarrow> bool" where
  start: "once_reachable once_init"
| step: "once_reachable c \<Longrightarrow> once_step c c' \<Longrightarrow> once_reachable c'"

section \<open>The invariant\<close>

fun waiter_ok :: "dispatch_lock \<Rightarrow> once_pc \<Rightarrow> bool" where
  "waiter_ok l OIdle = True"
| "waiter_ok l OLoop = True"
| "waiter_ok l (OWait v) = (\<not> bit v 0)"
| "waiter_ok l OAsleep = (\<not> bit l 0)"
| "waiter_ok l _ = False"

fun done_ok :: "bool \<Rightarrow> dispatch_lock_owner \<Rightarrow> once_pc \<Rightarrow> bool" where
  "done_ok waking u OIdle = True"
| "done_ok waking u OReturned = True"
| "done_ok waking u OLoop = True"
| "done_ok waking u (OWait v) = (\<not> bit v 0)"
| "done_ok waking u OAsleep = waking"
| "done_ok waking u (OWake cur) = dispatch_lock_is_locked_by cur u"
| "done_ok waking u _ = False"

definition once_fresh :: "once_config \<Rightarrow> bool" where
  "once_fresh c = (oc_once c = 0 \<and> oc_calls c = 0 \<and> \<not> oc_completed c \<and> (\<forall>u. oc_pc c u = OIdle))"

definition once_running :: "once_config \<Rightarrow> dispatch_lock_owner \<Rightarrow> dispatch_lock \<Rightarrow> bool" where
  "once_running c t l = (once_tid t \<and> oc_once c = ucast l \<and> bit l 1 \<and>
     dispatch_lock_is_locked_by l t \<and> oc_calls c = 1 \<and>
     oc_pc c t = (if oc_completed c then OBroadcast else OCallout) \<and>
     (\<forall>u. u \<noteq> t \<longrightarrow> waiter_ok l (oc_pc c u)))"

definition once_waking :: "(dispatch_lock_owner \<Rightarrow> once_pc) \<Rightarrow> bool" where
  "once_waking pc = (\<exists>t cur. pc t = OWake cur)"

definition once_done :: "once_config \<Rightarrow> bool" where
  "once_done c = (oc_once c = DLOCK_ONCE_DONE \<and> oc_calls c = 1 \<and> oc_completed c \<and>
     (\<forall>u. done_ok (once_waking (oc_pc c)) u (oc_pc c u)))"

definition once_inv :: "once_config \<Rightarrow> bool" where
  "once_inv c = ((\<forall>u. oc_pc c u \<noteq> OIdle \<longrightarrow> once_tid u) \<and>
     (once_fresh c \<or> (\<exists>t l. once_running c t l) \<or> once_done c))"

lemma once_inv_cases [consumes 1, case_names fresh running finished]:
  assumes "once_inv c"
  obtains "once_fresh c" | t l where "once_running c t l" | "once_done c"
  using assms by (auto simp: once_inv_def)

lemma ucast_inj: "(ucast (a :: u32) :: u64) = ucast b \<longleftrightarrow> a = b"
  by (metis unat_ucast_up(1) unsigned_word_eqI)

lemma gate_ucast [simp]: "once_gate (ucast (l :: u32)) = l"
  by (rule bit_word_eqI) (auto simp: once_gate_def bit_simps)

lemma gate_done [simp]: "once_gate DLOCK_ONCE_DONE = ucast DLOCK_ONCE_DONE"
  by (simp add: once_gate_def)

lemma with_gate [simp]: "once_with_gate (ucast (l :: u32)) l' = ucast l'"
  by (rule bit_word_eqI) (auto simp: once_with_gate_def bit_simps dest: bit_u32_less)

lemma with_gate_same [simp]: "once_with_gate w (once_gate w) = w"
  by (rule bit_word_eqI) (auto simp: once_with_gate_def once_gate_def bit_simps)

lemma done_bits: "(ucast DLOCK_ONCE_DONE :: u32) = NOT 0"
  by (rule bit_word_eqI) (simp add: DLOCK_ONCE_DONE_def bit_simps)

lemma done_bit: "bit (ucast DLOCK_ONCE_DONE :: u32) n = (n < 32)"
  unfolding done_bits by (simp add: bit_simps)

lemma owner_word_eq:
  assumes "valid_tid t" "dispatch_lock_is_locked_by l t" "bit l 1"
  shows "l = t \<longleftrightarrow> bit l 0"
proof
  assume "bit l 0"
  with assms show "l = t"
    by (intro tid_eqI) (auto simp: valid_tid_def is_locked_by_iff is_locked_iff)
qed (use assms in \<open>auto simp: valid_tid_def\<close>)

lemma owner_not_done:
  assumes "once_tid t" "dispatch_lock_is_locked_by l t" "bit l 1"
  shows "l \<noteq> ucast DLOCK_ONCE_DONE"
proof
  assume l: "l = ucast DLOCK_ONCE_DONE"
  then have "bit l 0" by (simp add: done_bit)
  then have "l = t" using owner_word_eq assms by (auto simp: once_tid_def)
  with l assms show False by (simp add: once_tid_def)
qed

lemma locked_by_nonzero: "valid_tid t \<Longrightarrow> dispatch_lock_is_locked_by l t \<Longrightarrow> l \<noteq> 0"
  using locked_byD [of t l] by (auto simp: is_locked_iff)

section \<open>Every step keeps it\<close>

lemma tryenter_free: "dispatch_once_gate_tryenter t w = Some w' \<longleftrightarrow> w = 0 \<and> w' = ucast t"
  by (auto simp: dispatch_once_gate_tryenter_def DLOCK_ONCE_UNLOCKED_def)

lemma running_nonzero: "once_running c t l \<Longrightarrow> oc_once c \<noteq> 0"
  using locked_by_nonzero [of t l] ucast_inj [of l 0] by (auto simp: once_running_def once_tid_def)

lemma done_nonzero: "once_done c \<Longrightarrow> oc_once c \<noteq> 0"
  by (simp add: once_done_def DLOCK_ONCE_DONE_def)

lemma done_ok_mono: "done_ok b u p \<Longrightarrow> (b \<Longrightarrow> b') \<Longrightarrow> done_ok b' u p"
  by (cases p) auto

lemma enter_inv:
  assumes inv: "once_inv c" and pc: "oc_pc c t = OIdle \<or> oc_pc c t = OReturned" and t: "once_tid t"
    and w: "dispatch_once_gate_tryenter t (oc_once c) = Some w"
  shows "once_inv (c\<lparr>oc_once := w, oc_calls := Suc (oc_calls c), oc_pc := (oc_pc c)(t := OCallout)\<rparr>)"
  using inv
proof (cases rule: once_inv_cases)
  case fresh
  let ?c = "c\<lparr>oc_once := w, oc_calls := Suc (oc_calls c), oc_pc := (oc_pc c)(t := OCallout)\<rparr>"
  have "once_running ?c t t"
    using fresh t w by (auto simp: once_running_def once_fresh_def tryenter_free once_tid_def
        valid_tid_def is_locked_by_iff)
  moreover have "\<forall>u. oc_pc ?c u \<noteq> OIdle \<longrightarrow> once_tid u"
    using fresh t by (auto simp: once_fresh_def)
  ultimately show ?thesis unfolding once_inv_def by blast
qed (use w running_nonzero done_nonzero in \<open>auto simp: tryenter_free\<close>)

lemma waiter_step_inv:
  assumes inv: "once_inv c" and t: "once_tid t" and pc: "oc_pc c t \<in> {OIdle, OReturned, OLoop, OAsleep} \<union> range OWait"
    and run: "\<And>t' l. once_running c t' l \<Longrightarrow> t \<noteq> t' \<Longrightarrow> waiter_ok l p"
    and fin: "once_done c \<Longrightarrow> done_ok (once_waking (oc_pc c)) t p"
    and nofresh: "oc_once c \<noteq> 0"
  shows "once_inv (c\<lparr>oc_pc := (oc_pc c)(t := p)\<rparr>)"
  using inv
proof (cases rule: once_inv_cases)
  case fresh
  with nofresh show ?thesis by (simp add: once_fresh_def)
next
  case (running t' l)
  then have "t \<noteq> t'" using pc by (auto simp: once_running_def split: if_splits)
  then have "once_running (c\<lparr>oc_pc := (oc_pc c)(t := p)\<rparr>) t' l"
    using running run by (auto simp: once_running_def)
  then show ?thesis using inv t unfolding once_inv_def by auto
next
  case finished
  have "once_waking ((oc_pc c)(t := p))" if "once_waking (oc_pc c)"
  proof -
    from that obtain u cur where "oc_pc c u = OWake cur" by (auto simp: once_waking_def)
    with pc have "((oc_pc c)(t := p)) u = OWake cur" by auto
    then show ?thesis unfolding once_waking_def by blast
  qed
  then have "done_ok (once_waking ((oc_pc c)(t := p))) u (((oc_pc c)(t := p)) u)" for u
    using finished fin [OF finished] by (auto simp: once_done_def intro: done_ok_mono)
  then have "once_done (c\<lparr>oc_pc := (oc_pc c)(t := p)\<rparr>)"
    using finished by (simp add: once_done_def)
  then show ?thesis using inv t unfolding once_inv_def by auto
qed

lemma wait_round_inv:
  assumes inv: "once_inv c" and pc: "oc_pc c t = OLoop"
    and r: "dispatch_gate_wait_slow t (ucast DLOCK_ONCE_DONE) (once_gate (oc_once c)) = (r, l)"
  shows "once_inv (c\<lparr>oc_once := once_with_gate (oc_once c) l, oc_pc := (oc_pc c)(t :=
      (case r of GateReturn \<Rightarrow> OReturned | GateRecursive \<Rightarrow> OCrash | GateWait v \<Rightarrow> OWait v))\<rparr>)"
    (is "once_inv ?c")
proof -
  have t: "once_tid t" using inv pc by (auto simp: once_inv_def)
  show ?thesis using inv
  proof (cases rule: once_inv_cases)
    case fresh
    with pc show ?thesis by (simp add: once_fresh_def)
  next
    case (running t' l')
    then have own: "once_tid t'" "dispatch_lock_is_locked_by l' t'" "bit l' 1" "oc_once c = ucast l'" "t \<noteq> t'"
      using pc by (auto simp: once_running_def split: if_splits)
    let ?l = "l' AND NOT DLOCK_NOWAITERS_BIT"
    have "\<not> dispatch_lock_is_locked_by l' t"
      using own t locked_by_unique by (auto simp: once_tid_def)
    then have eq: "r = GateWait ?l" "l = ?l"
      using r owner_not_done [OF own(1-3)] own(4)
      by (auto simp: dispatch_gate_wait_slow_def Let_def)
    have "dispatch_lock_is_locked_by ?l t'"
      using own(2) bit_u32_less [of l'] by (auto simp: is_locked_by_iff bit_simps)
    moreover have "waiter_ok ?l p" if "waiter_ok l' p" for p
      using that by (cases p) (auto simp: bit_simps)
    ultimately have "once_running ?c t' ?l"
      using running own pc unfolding eq by (auto simp: once_running_def bit_simps)
    then show ?thesis using inv t unfolding once_inv_def by auto
  next
    case finished
    then have "r = GateReturn" "l = once_gate (oc_once c)"
      using r by (auto simp: dispatch_gate_wait_slow_def once_done_def)
    then have eq: "?c = c\<lparr>oc_pc := (oc_pc c)(t := OReturned)\<rparr>" by simp
    have "\<not> once_running c t' l'" for t' l'
      using finished owner_not_done [of t' l'] gate_done gate_ucast [of l']
      by (metis once_done_def once_running_def)
    then show ?thesis unfolding eq
      using pc t done_nonzero [OF finished] by (intro waiter_step_inv [OF inv]) auto
  qed
qed

lemma active_nonzero:
  assumes "once_inv c" "oc_pc c t \<noteq> OIdle"
  shows "oc_once c \<noteq> 0"
  using assms(1) by (cases rule: once_inv_cases)
    (use assms(2) running_nonzero done_nonzero in \<open>auto simp: once_fresh_def\<close>)

lemma active_tid: "once_inv c \<Longrightarrow> oc_pc c t \<noteq> OIdle \<Longrightarrow> once_tid t"
  by (simp add: once_inv_def)

lemma owner_pc:
  assumes "once_inv c" "oc_pc c t = OCallout \<or> oc_pc c t = OBroadcast"
  obtains l where "once_running c t l"
  using assms(1)
proof (cases rule: once_inv_cases)
  case fresh
  with assms(2) show ?thesis by (auto simp: once_fresh_def)
next
  case (running t' l)
  then have "t' = t" using assms(2) by (cases "t' = t") (auto simp: once_running_def)
  with running that show ?thesis by blast
next
  case finished
  then have "done_ok (once_waking (oc_pc c)) t (oc_pc c t)" by (simp add: once_done_def)
  with assms(2) show ?thesis by auto
qed

lemma waking_done:
  assumes "once_inv c" "oc_pc c t = OWake cur"
  shows "once_done c"
  using assms(1)
proof (cases rule: once_inv_cases)
  case fresh
  with assms(2) show ?thesis by (auto simp: once_fresh_def)
next
  case (running t' l)
  then show ?thesis using assms(2) by (cases "t' = t") (auto simp: once_running_def split: if_splits)
qed

lemma waiter_done_ok: "waiter_ok l p \<Longrightarrow> (\<not> bit l 0 \<Longrightarrow> b) \<Longrightarrow> done_ok b u p"
  by (cases p) auto

lemma broadcast_inv:
  assumes inv: "once_inv c" and pc: "oc_pc c t = OBroadcast"
    and b: "dispatch_once_gate_broadcast t (oc_once c) = (w, slow)"
  shows "once_inv (c\<lparr>oc_once := w,
      oc_pc := (oc_pc c)(t := if slow then OWake (ucast (oc_once c)) else OReturned)\<rparr>)" (is "once_inv ?c")
proof -
  obtain l where run: "once_running c t l" using owner_pc [OF inv, of t] pc by blast
  then have l: "once_tid t" "oc_once c = ucast l" "bit l 1" "dispatch_lock_is_locked_by l t" "oc_completed c"
    using pc by (auto simp: once_running_def split: if_splits)
  have w: "w = DLOCK_ONCE_DONE" "slow \<longleftrightarrow> \<not> bit l 0"
    using b owner_word_eq l ucast_inj [of l t]
    by (auto simp: dispatch_once_gate_broadcast_def once_tid_def)
  have cur: "ucast (oc_once c) = l"
    using gate_ucast [of l] by (simp add: once_gate_def l(2))
  have "once_waking (oc_pc ?c)" if "\<not> bit l 0"
    unfolding once_waking_def using that w by (intro exI [of _ t] exI [of _ l]) (simp add: cur)
  then have "done_ok (once_waking (oc_pc ?c)) u (oc_pc ?c u)" for u
    using run l(4) cur by (cases "u = t") (auto simp: once_running_def intro: waiter_done_ok)
  then have "once_done ?c" using run l w by (simp add: once_done_def once_running_def)
  then show ?thesis using inv l(1) unfolding once_inv_def by auto
qed

lemma broadcast_slow_inv:
  assumes inv: "once_inv c" and pc: "oc_pc c t = OWake cur"
  shows "once_inv (c\<lparr>oc_pc :=
      (\<lambda>u. if u = t then OReturned else if oc_pc c u = OAsleep then OLoop else oc_pc c u)\<rparr>)"
    (is "once_inv ?c")
proof -
  note d = waking_done [OF assms]
  have "done_ok (once_waking (oc_pc ?c)) u (oc_pc ?c u)" for u
  proof -
    have "done_ok (once_waking (oc_pc c)) u (oc_pc c u)" using d by (simp add: once_done_def)
    then show ?thesis by (cases "oc_pc c u") auto
  qed
  then have "once_done ?c" using d by (simp add: once_done_def)
  moreover have "once_tid u" if "oc_pc ?c u \<noteq> OIdle" for u
    using that inv pc by (auto simp: once_inv_def split: if_splits)
  ultimately show ?thesis unfolding once_inv_def by blast
qed

lemma once_step_inv:
  assumes step: "once_step c c'" and inv: "once_inv c"
  shows "once_inv c'"
  using step
proof cases
  case (enter t w)
  then show ?thesis using enter_inv [OF inv] by simp
next
  case (enter_wait t)
  then show ?thesis
    by (auto intro!: waiter_step_inv [OF inv] simp: dispatch_once_gate_tryenter_def DLOCK_ONCE_UNLOCKED_def
        split: if_splits)
next
  case (callout_returns t)
  then obtain l where run: "once_running c t l" using inv owner_pc by blast
  then have "once_running c' t l"
    using callout_returns by (auto simp: once_running_def split: if_splits)
  then show ?thesis using inv callout_returns unfolding once_inv_def by auto
next
  case (broadcast t w slow)
  then show ?thesis using broadcast_inv [OF inv] by simp
next
  case (broadcast_slow t cur)
  then show ?thesis using broadcast_slow_inv [OF inv] by simp
next
  case (broadcast_crash t cur)
  have "done_ok (once_waking (oc_pc c)) t (OWake cur)"
    using waking_done [OF inv broadcast_crash(2)] broadcast_crash(2) by (metis once_done_def)
  with broadcast_crash(3) show ?thesis by (simp add: dispatch_gate_broadcast_slow_def)
next
  case (wait_round t r l)
  then show ?thesis using wait_round_inv [OF inv] by simp
next
  case (block t v)
  have t: "once_tid t" "oc_once c \<noteq> 0" using active_tid [OF inv, of t] active_nonzero [OF inv, of t] block(2) by simp_all
  have "waiter_ok l OAsleep" if "once_running c t' l" "t \<noteq> t'" for t' l
  proof -
    have "waiter_ok l (OWait v)" "once_gate (oc_once c) = l"
      using that block(2) by (auto simp: once_running_def)
    then show ?thesis using block(3) by simp
  qed
  moreover have "\<not> once_done c"
  proof
    assume d: "once_done c"
    then have "done_ok (once_waking (oc_pc c)) t (OWait v)" "v = ucast DLOCK_ONCE_DONE"
      using block(2,3) by (auto simp: once_done_def) (metis done_ok.simps(4))
    then show False by (simp add: done_bit)
  qed
  ultimately show ?thesis unfolding block(1) using t block(2)
    by (intro waiter_step_inv [OF inv]) auto
next
  case (return_early t v)
  then have "once_tid t" "oc_once c \<noteq> 0" using active_tid [OF inv, of t] active_nonzero [OF inv, of t] by auto
  with return_early show ?thesis by (auto intro!: waiter_step_inv [OF inv])
qed


lemma once_init_inv: "once_inv once_init"
  by (simp add: once_inv_def once_init_def once_fresh_def)

lemma once_reachable_inv: "once_reachable c \<Longrightarrow> once_inv c"
  by (induction rule: once_reachable.induct) (auto intro: once_init_inv once_step_inv)

section \<open>Once means once\<close>

text \<open>
  C12. In every interleaving of callers, wakeups and spurious returns, the function of
  dispatch_once is called at most once, a caller that has returned did so after the call
  completed with the predicate at DONE, and no correct use crashes.
\<close>
theorem dispatch_once_runs_once:
  assumes "once_reachable c"
  shows "oc_calls c \<le> 1 \<and> oc_pc c t \<noteq> OCrash
    \<and> (oc_pc c t = OReturned \<longrightarrow> oc_calls c = 1 \<and> oc_completed c \<and> oc_once c = DLOCK_ONCE_DONE)"
  using once_reachable_inv [OF assms]
proof (cases rule: once_inv_cases)
  case fresh
  then show ?thesis by (simp add: once_fresh_def)
next
  case (running t' l)
  then have "oc_pc c t \<noteq> OCrash \<and> oc_pc c t \<noteq> OReturned"
    by (cases "t = t'") (auto simp: once_running_def)
  with running show ?thesis by (simp add: once_running_def)
next
  case finished
  then have "done_ok (once_waking (oc_pc c)) t (oc_pc c t)" by (simp add: once_done_def)
  then have "oc_pc c t \<noteq> OCrash" by auto
  with finished show ?thesis by (simp add: once_done_def)
qed

text \<open>
  C13. While a caller of dispatch_once sleeps on the gate, the thread that runs the function is
  still running it or about to broadcast, and its broadcast will see the cleared no-waiters bit
  and wake everybody.
\<close>
theorem dispatch_once_no_lost_wakeup:
  assumes "once_reachable c" "oc_pc c t = OAsleep"
  shows "(\<exists>u. (oc_pc c u = OCallout \<or> oc_pc c u = OBroadcast)
        \<and> snd (dispatch_once_gate_broadcast u (oc_once c)))
    \<or> (\<exists>u cur. oc_pc c u = OWake cur \<and> dispatch_gate_broadcast_slow u cur = Some ())"
  using once_reachable_inv [OF assms(1)]
proof (cases rule: once_inv_cases)
  case fresh
  with assms(2) show ?thesis by (simp add: once_fresh_def)
next
  case (running u l)
  have "waiter_ok l (oc_pc c t)"
    using running assms(2) by (cases "t = u") (auto simp: once_running_def split: if_splits)
  then have "l \<noteq> u"
    using running assms(2) by (auto simp: once_running_def once_tid_def valid_tid_def)
  then show ?thesis using running ucast_inj [of l u]
    by (intro disjI1 exI [of _ u]) (auto simp: once_running_def dispatch_once_gate_broadcast_def)
next
  case finished
  then have "done_ok (once_waking (oc_pc c)) t OAsleep" using assms(2) by (metis once_done_def)
  then obtain u cur where u: "oc_pc c u = OWake cur" by (auto simp: once_waking_def)
  then have "done_ok (once_waking (oc_pc c)) u (OWake cur)" using finished by (metis once_done_def)
  with u show ?thesis by (auto simp: dispatch_gate_broadcast_slow_def)
qed

lemma sample_once_tids: "once_tid 0x103" "once_tid 0x207"
  by code_simp+

lemma sample_once_run:
  obtains c where "once_reachable c" "oc_pc c 0x103 = OCallout" "oc_pc c 0x207 = OAsleep" "oc_once c = 0x102"
proof -
  let ?c1 = "once_init\<lparr>oc_once := 0x103, oc_calls := 1, oc_pc := (oc_pc once_init)(0x103 := OCallout)\<rparr>"
  have "once_step once_init ?c1"
    using once_step.enter [OF _ sample_once_tids(1), of once_init "0x103"]
    by (simp add: once_init_def dispatch_once_gate_tryenter_def DLOCK_ONCE_UNLOCKED_def)
  then have r1: "once_reachable ?c1" by (rule once_reachable.step [OF once_reachable.start])
  let ?c2 = "?c1\<lparr>oc_pc := (oc_pc ?c1)(0x207 := OLoop)\<rparr>"
  have "once_step ?c1 ?c2"
    using once_step.enter_wait [OF _ sample_once_tids(2), of ?c1]
    by (simp add: once_init_def dispatch_once_gate_tryenter_def DLOCK_ONCE_UNLOCKED_def)
  with r1 have r2: "once_reachable ?c2" by (rule once_reachable.step)
  let ?c3 = "?c2\<lparr>oc_once := 0x102, oc_pc := (oc_pc ?c2)(0x207 := OWait 0x102)\<rparr>"
  have w: "dispatch_gate_wait_slow 0x207 (ucast DLOCK_ONCE_DONE) (once_gate (oc_once ?c2)) = (GateWait 0x102, 0x102)"
    "once_with_gate (oc_once ?c2) 0x102 = 0x102"
    by code_simp+
  have "once_step ?c2 ?c3"
    using once_step.wait_round [OF _ w(1)] w(2) by simp
  with r2 have r3: "once_reachable ?c3" by (rule once_reachable.step)
  let ?c4 = "?c3\<lparr>oc_pc := (oc_pc ?c3)(0x207 := OAsleep)\<rparr>"
  have "once_step ?c3 ?c4"
    using once_step.block [of ?c3 "0x207" "0x102"] by (simp add: once_gate_def)
  with r3 have "once_reachable ?c4" by (rule once_reachable.step)
  then show ?thesis by (rule that) simp_all
qed

theorem dispatch_once_runs_once_witness:
  "\<exists>c :: once_config. oc_pc c 0x103 = OCallout \<and> oc_calls c \<le> 1 \<and> oc_pc c 0x207 \<noteq> OCrash"
proof -
  obtain c where c: "once_reachable c" "oc_pc c 0x103 = OCallout" by (rule sample_once_run)
  with dispatch_once_runs_once [OF c(1), of "0x207"] show ?thesis by blast
qed

theorem dispatch_once_no_lost_wakeup_witness:
  "\<exists>c :: once_config. oc_pc c 0x207 = OAsleep \<and>
    ((\<exists>u. (oc_pc c u = OCallout \<or> oc_pc c u = OBroadcast)
        \<and> snd (dispatch_once_gate_broadcast u (oc_once c)))
    \<or> (\<exists>u cur. oc_pc c u = OWake cur \<and> dispatch_gate_broadcast_slow u cur = Some ()))"
proof -
  obtain c where c: "once_reachable c" "oc_pc c 0x207 = OAsleep" by (rule sample_once_run)
  show ?thesis by (rule exI, rule conjI [OF c(2) dispatch_once_no_lost_wakeup [OF c]])
qed

end
