(* ===== verification/Thread_Event.thy ===== *)
theory Thread_Event
  imports Dispatch_Prelude
begin

text \<open>
  The one-shot thread event of \<open>shims/lock.h\<close> and \<open>shims/lock.c\<close> (\<open>HAVE_UL_COMPARE_AND_WAIT\<close>
  branch): one thread waits, one thread signals, in either order. The value is 1 when the signal
  came first, \<open>UINT32_MAX\<close> when the wait came first, and 0 before and after. Each step is one
  atomic operation or kernel call. Shown: the wait returns only after the signal, the code never
  takes the value for corrupt, a sleeping waiter is always going to be woken, and the event is
  back at 0 at the end, as \<open>_dispatch_thread_event_destroy\<close> asserts.
\<close>

section \<open>Operations\<close>

definition UINT32_MAX :: u32 where "UINT32_MAX = 0xffffffff"

definition dispatch_thread_event_init :: u32 where "dispatch_thread_event_init = 0"

text \<open>The new value, and whether the wait is over without the slow path.\<close>

definition dispatch_thread_event_wait :: "u32 \<Rightarrow> u32 \<times> bool" where
  "dispatch_thread_event_wait dte_value = (dte_value - 1, dte_value - 1 = 0)"

text \<open>The new value, and whether the waiter must be woken.\<close>

definition dispatch_thread_event_signal :: "u32 \<Rightarrow> u32 \<times> bool" where
  "dispatch_thread_event_signal dte_value = (dte_value + 1, dte_value \<noteq> 0)"

datatype event_round = EventReturn | EventCorrupt | EventWait u32

definition dispatch_thread_event_wait_slow :: "u32 \<Rightarrow> event_round" where
  "dispatch_thread_event_wait_slow value =
     (if value = 0 then EventReturn
      else if value \<noteq> UINT32_MAX then EventCorrupt else EventWait UINT32_MAX)"

definition dispatch_thread_event_destroy :: "u32 \<Rightarrow> bool" where
  "dispatch_thread_event_destroy dte_value = (dte_value = 0)"

section \<open>The two threads\<close>

datatype wait_pc = WStart | WLoop | WBlock u32 | WAsleep | WReturned | WCrash
datatype signal_pc = SStart | SWake | SReturned

record event_config =
  ev_value :: u32
  ev_wait :: wait_pc
  ev_signal :: signal_pc

inductive event_step :: "event_config \<Rightarrow> event_config \<Rightarrow> bool" where
  wait: "ev_wait c = WStart \<Longrightarrow> dispatch_thread_event_wait (ev_value c) = (v, fin) \<Longrightarrow>
    event_step c (c\<lparr>ev_value := v, ev_wait := (if fin then WReturned else WLoop)\<rparr>)"
| wait_round: "ev_wait c = WLoop \<Longrightarrow>
    event_step c (c\<lparr>ev_wait := (case dispatch_thread_event_wait_slow (ev_value c) of
      EventReturn \<Rightarrow> WReturned | EventCorrupt \<Rightarrow> WCrash | EventWait v \<Rightarrow> WBlock v)\<rparr>)"
| block: "ev_wait c = WBlock v \<Longrightarrow> ev_value c = v \<Longrightarrow> event_step c (c\<lparr>ev_wait := WAsleep\<rparr>)"
| return_early: "ev_wait c = WBlock v \<or> ev_wait c = WAsleep \<Longrightarrow> event_step c (c\<lparr>ev_wait := WLoop\<rparr>)"
| signal: "ev_signal c = SStart \<Longrightarrow> dispatch_thread_event_signal (ev_value c) = (v, wake) \<Longrightarrow>
    event_step c (c\<lparr>ev_value := v, ev_signal := (if wake then SWake else SReturned)\<rparr>)"
| wake: "ev_signal c = SWake \<Longrightarrow>
    event_step c (c\<lparr>ev_signal := SReturned,
      ev_wait := (if ev_wait c = WAsleep then WLoop else ev_wait c)\<rparr>)"

definition event_init :: event_config where
  "event_init = \<lparr>ev_value = dispatch_thread_event_init, ev_wait = WStart, ev_signal = SStart\<rparr>"

inductive event_reachable :: "event_config \<Rightarrow> bool" where
  start: "event_reachable event_init"
| step: "event_reachable c \<Longrightarrow> event_step c c' \<Longrightarrow> event_reachable c'"

text \<open>What the value is at each pair of program points.\<close>

fun event_inv_at :: "wait_pc \<Rightarrow> signal_pc \<Rightarrow> u32 \<Rightarrow> bool" where
  "event_inv_at WStart SStart v = (v = 0)"
| "event_inv_at WStart SReturned v = (v = 1)"
| "event_inv_at WStart SWake v = False"
| "event_inv_at WReturned SStart v = False"
| "event_inv_at WReturned s v = (v = 0)"
| "event_inv_at WCrash s v = False"
| "event_inv_at (WBlock x) SStart v = (v = UINT32_MAX \<and> x = UINT32_MAX)"
| "event_inv_at (WBlock x) s v = (v = 0 \<and> x = UINT32_MAX)"
| "event_inv_at WLoop SStart v = (v = UINT32_MAX)"
| "event_inv_at WLoop s v = (v = 0)"
| "event_inv_at WAsleep SStart v = (v = UINT32_MAX)"
| "event_inv_at WAsleep SWake v = (v = 0)"
| "event_inv_at WAsleep SReturned v = False"

definition event_inv :: "event_config \<Rightarrow> bool" where
  "event_inv c = event_inv_at (ev_wait c) (ev_signal c) (ev_value c)"

lemma event_step_inv: "event_step c c' \<Longrightarrow> event_inv c \<Longrightarrow> event_inv c'"
proof (induction rule: event_step.induct)
  case (wait c v fin)
  then show ?case
    by (cases "ev_signal c") (auto simp: event_inv_def dispatch_thread_event_wait_def UINT32_MAX_def)
next
  case (wait_round c)
  then show ?case
    by (cases "ev_signal c") (auto simp: event_inv_def dispatch_thread_event_wait_slow_def UINT32_MAX_def)
next
  case (block c v)
  then show ?case by (cases "ev_signal c") (auto simp: event_inv_def UINT32_MAX_def)
next
  case (return_early c v)
  then show ?case by (cases "ev_signal c") (auto simp: event_inv_def)
next
  case (signal c v wake)
  then show ?case
    by (cases "ev_wait c") (auto simp: event_inv_def dispatch_thread_event_signal_def UINT32_MAX_def)
next
  case (wake c)
  then show ?case by (cases "ev_wait c") (auto simp: event_inv_def)
qed

lemma event_reachable_inv: "event_reachable c \<Longrightarrow> event_inv c"
proof (induction rule: event_reachable.induct)
  case start
  show ?case by (simp add: event_inv_def event_init_def dispatch_thread_event_init_def)
next
  case (step c c')
  then show ?case by (blast intro: event_step_inv)
qed

text \<open>
  C14. A thread event used by one waiter and one signaller never crashes in any interleaving:
  the waiter returns only after the signal, it is not left asleep once the signaller has
  returned, and the value is back at its initial one so the destroy assertion holds.
\<close>
theorem thread_event_protocol:
  assumes "event_reachable c"
  shows "ev_wait c \<noteq> WCrash \<and> (ev_wait c = WReturned \<longrightarrow> ev_signal c \<noteq> SStart)
    \<and> (ev_wait c = WAsleep \<longrightarrow> ev_signal c \<noteq> SReturned)
    \<and> (ev_wait c = WReturned \<and> ev_signal c = SReturned \<longrightarrow> dispatch_thread_event_destroy (ev_value c))"
  using event_reachable_inv [OF assms]
  by (cases "ev_wait c"; cases "ev_signal c")
    (auto simp: event_inv_def dispatch_thread_event_destroy_def)

theorem thread_event_protocol_witness:
  "\<exists>c :: event_config. ev_wait c = WLoop \<and> ev_value c = UINT32_MAX \<and> ev_wait c \<noteq> WCrash"
proof -
  let ?c = "event_init\<lparr>ev_value := UINT32_MAX, ev_wait := WLoop\<rparr>"
  have "event_step event_init ?c"
    using event_step.wait [of event_init UINT32_MAX False]
    by (simp add: event_init_def dispatch_thread_event_init_def dispatch_thread_event_wait_def UINT32_MAX_def)
  then have "event_reachable ?c" by (rule event_reachable.step [OF event_reachable.start])
  from thread_event_protocol [OF this] show ?thesis by (intro exI [of _ ?c]) simp
qed

end
