(* ===== verification/Dispatch_Data.thy ===== *)
theory Dispatch_Data
  imports Dispatch_Prelude
begin

text \<open>
  Dispatch data objects: \<open>data.c\<close> and \<open>data_internal.h\<close>. Objects live in a heap with
  reference counts; object 0 is the singleton \<open>dispatch_data_empty\<close>. A buffer pointer is the
  list of bytes from there on (the memory behind a data object never changes), so pointer plus
  offset is \<open>drop\<close>. \<open>size_t\<close> values are naturals, with the wrap-around modulo 2^64 written where
  the code adds without a check. Where \<open>malloc\<close> may fail, its success is an argument.
\<close>

section \<open>Objects\<close>

record range_record =
  data_object :: nat
  rec_from :: nat
  rec_length :: nat

datatype data_destructor = DESTRUCTOR_DEFAULT | DESTRUCTOR_FREE | DESTRUCTOR_NONE
  | DESTRUCTOR_VM_DEALLOCATE | DESTRUCTOR_INLINE | DESTRUCTOR_BLOCK nat

record dispatch_data =
  dd_buf :: "u8 list option"
  dd_destructor :: data_destructor
  dd_size :: nat
  dd_records :: "range_record list"
  dd_queue :: "nat option"

text \<open>What a disposed buffer is handed to.\<close>

datatype data_event = FreeBuffer "u8 list" | VmDeallocate "u8 list" nat
  | AsyncDestructor "nat option" data_destructor

record data_heap =
  dh_obj :: "nat \<Rightarrow> dispatch_data option"
  dh_ref :: "nat \<Rightarrow> nat"
  dh_alloc :: "nat \<Rightarrow> nat"
  dh_next :: nat
  dh_events :: "data_event list"

datatype data_error = OutOfMemory | InternalCrash string | AssertionFailed | NoObject | OutOfBounds

definition SIZE_MOD :: nat where "SIZE_MOD = 2 ^ 64"
definition sizeof_range_record :: nat where "sizeof_range_record = 24"
definition sizeof_dispatch_data_s :: nat where "sizeof_dispatch_data_s = 64"

definition dispatch_data_empty :: nat where "dispatch_data_empty = 0"

definition dispatch_data_leaf :: "dispatch_data \<Rightarrow> bool" where
  "dispatch_data_leaf dd = (length (dd_records dd) = 0)"

definition dispatch_data_num_records :: "dispatch_data \<Rightarrow> nat" where
  "dispatch_data_num_records dd = (if length (dd_records dd) \<noteq> 0 then length (dd_records dd) else 1)"

definition os_mul_and_add_overflow :: "nat \<Rightarrow> nat \<Rightarrow> nat \<Rightarrow> nat option" where
  "os_mul_and_add_overflow a x b =
     (let tmp = a * x mod SIZE_MOD
      in if SIZE_MOD \<le> a * x \<or> SIZE_MOD \<le> b + tmp then None else Some (b + tmp))"

text \<open>
  \<open>_dispatch_data_alloc\<close> and the stores that fill the new object: the sum
  \<open>sizeof(struct dispatch_data_s) + extra\<close> is computed before the overflow check, in \<open>size_t\<close>.
\<close>

definition dispatch_data_alloc ::
  "nat \<Rightarrow> nat \<Rightarrow> dispatch_data \<Rightarrow> data_heap \<Rightarrow> data_error + nat \<times> data_heap" where
  "dispatch_data_alloc n extra dd h =
     (case os_mul_and_add_overflow n sizeof_range_record ((sizeof_dispatch_data_s + extra) mod SIZE_MOD) of
        None \<Rightarrow> Inl OutOfMemory
      | Some sz \<Rightarrow> Inr (dh_next h, h\<lparr>dh_obj := (dh_obj h)(dh_next h \<mapsto> dd),
          dh_ref := (dh_ref h)(dh_next h := 1), dh_alloc := (dh_alloc h)(dh_next h := sz),
          dh_next := Suc (dh_next h)\<rparr>))"

definition dispatch_data_retain :: "nat \<Rightarrow> data_heap \<Rightarrow> data_heap" where
  "dispatch_data_retain d h =
     (if d = dispatch_data_empty then h else h\<lparr>dh_ref := (dh_ref h)(d := Suc (dh_ref h d))\<rparr>)"

definition dispatch_data_retain_records :: "range_record list \<Rightarrow> data_heap \<Rightarrow> data_heap" where
  "dispatch_data_retain_records rs h = fold (\<lambda>r. dispatch_data_retain (data_object r)) rs h"

section \<open>Creating\<close>

definition dispatch_data_destroy_buffer ::
  "u8 list option \<Rightarrow> nat \<Rightarrow> nat option \<Rightarrow> data_destructor \<Rightarrow> data_heap \<Rightarrow> data_heap" where
  "dispatch_data_destroy_buffer buffer sz queue destructor h =
     (case destructor of
        DESTRUCTOR_FREE \<Rightarrow> h\<lparr>dh_events := FreeBuffer (case buffer of None \<Rightarrow> [] | Some b \<Rightarrow> b) # dh_events h\<rparr>
      | DESTRUCTOR_NONE \<Rightarrow> h
      | DESTRUCTOR_VM_DEALLOCATE \<Rightarrow>
          h\<lparr>dh_events := VmDeallocate (case buffer of None \<Rightarrow> [] | Some b \<Rightarrow> b) sz # dh_events h\<rparr>
      | _ \<Rightarrow> h\<lparr>dh_events := AsyncDestructor queue destructor # dh_events h\<rparr>)"

text \<open>
  \<open>dispatch_data_create\<close>: \<open>buffer\<close> is \<open>None\<close> for the null pointer, otherwise it has at least
  \<open>sz\<close> bytes; \<open>mem\<close> says whether \<open>malloc\<close> succeeds.
\<close>

definition dispatch_data_create ::
  "u8 list option \<Rightarrow> nat \<Rightarrow> nat option \<Rightarrow> data_destructor \<Rightarrow> bool \<Rightarrow> data_heap
     \<Rightarrow> data_error + nat \<times> data_heap" where
  "dispatch_data_create buffer sz queue destructor mem h =
     (case buffer of
        None \<Rightarrow> Inr (dispatch_data_empty,
          if destructor \<noteq> DESTRUCTOR_DEFAULT
          then dispatch_data_destroy_buffer buffer sz queue destructor h else h)
      | Some bytes \<Rightarrow>
          if sz = 0 then Inr (dispatch_data_empty,
            if destructor \<noteq> DESTRUCTOR_DEFAULT
            then dispatch_data_destroy_buffer buffer sz queue destructor h else h)
          else if destructor = DESTRUCTOR_DEFAULT then
            (if \<not> mem then Inl OutOfMemory
             else dispatch_data_alloc 0 0 \<lparr>dd_buf = Some (take sz bytes),
                    dd_destructor = DESTRUCTOR_FREE, dd_size = sz, dd_records = [], dd_queue = queue\<rparr> h)
          else if destructor = DESTRUCTOR_INLINE then
            dispatch_data_alloc 0 sz \<lparr>dd_buf = Some (take sz bytes),
                    dd_destructor = DESTRUCTOR_NONE, dd_size = sz, dd_records = [], dd_queue = queue\<rparr> h
          else dispatch_data_alloc 0 0 \<lparr>dd_buf = Some (take sz bytes),
                    dd_destructor = destructor, dd_size = sz, dd_records = [], dd_queue = queue\<rparr> h)"

text \<open>\<open>dispatch_data_create_alloc\<close>: the contents of the new buffer are what the caller writes.\<close>

definition dispatch_data_create_alloc ::
  "nat \<Rightarrow> u8 list \<Rightarrow> data_heap \<Rightarrow> data_error + nat \<times> data_heap" where
  "dispatch_data_create_alloc sz contents h =
     (if sz = 0 then Inr (dispatch_data_empty, h)
      else dispatch_data_alloc 0 sz \<lparr>dd_buf = Some (take sz contents),
             dd_destructor = DESTRUCTOR_NONE, dd_size = sz, dd_records = [], dd_queue = None\<rparr> h)"

definition dispatch_data_get_size :: "nat \<Rightarrow> data_heap \<Rightarrow> nat" where
  "dispatch_data_get_size d h = (case dh_obj h d of None \<Rightarrow> 0 | Some dd \<Rightarrow> dd_size dd)"

section \<open>Concatenation and subranges\<close>

text \<open>The records an object contributes to a concatenation: its own, or itself when it is a leaf.\<close>

definition data_records_of :: "nat \<Rightarrow> dispatch_data \<Rightarrow> range_record list" where
  "data_records_of d dd =
     (if dispatch_data_leaf dd then [\<lparr>data_object = d, rec_from = 0, rec_length = dd_size dd\<rparr>]
      else dd_records dd)"

definition dispatch_data_create_concat ::
  "nat \<Rightarrow> nat \<Rightarrow> data_heap \<Rightarrow> data_error + nat \<times> data_heap" where
  "dispatch_data_create_concat d1 d2 h =
     (case (dh_obj h d1, dh_obj h d2) of
        (Some dd1, Some dd2) \<Rightarrow>
          if dd_size dd1 = 0 then Inr (d2, dispatch_data_retain d2 h)
          else if dd_size dd2 = 0 then Inr (d1, dispatch_data_retain d1 h)
          else if SIZE_MOD \<le> dispatch_data_num_records dd1 + dispatch_data_num_records dd2
            then Inl OutOfMemory
          else let n = dispatch_data_num_records dd1 + dispatch_data_num_records dd2;
                   records = data_records_of d1 dd1 @ data_records_of d2 dd2
               in (case dispatch_data_alloc n 0 \<lparr>dd_buf = None, dd_destructor = DESTRUCTOR_DEFAULT,
                     dd_size = (dd_size dd1 + dd_size dd2) mod SIZE_MOD, dd_records = records,
                     dd_queue = None\<rparr> h of
                   Inl e \<Rightarrow> Inl e
                 | Inr (d, h) \<Rightarrow> Inr (d, dispatch_data_retain_records records h))
      | _ \<Rightarrow> Inl NoObject)"

text \<open>The loop that finds the record with the offset: what is left of the offset and the records.\<close>

fun data_skip_records :: "nat \<Rightarrow> range_record list \<Rightarrow> nat \<times> range_record list" where
  "data_skip_records offset [] = (offset, [])"
| "data_skip_records offset (r # rs) =
     (if rec_length r \<le> offset then data_skip_records (offset - rec_length r) rs
      else (offset, r # rs))"

text \<open>The loop that finds the record with the end of the range, after the first one.\<close>

fun data_count_records :: "nat \<Rightarrow> nat \<Rightarrow> range_record list \<Rightarrow> data_error + nat \<times> nat" where
  "data_count_records count last_length [] = Inr (count, last_length)"
| "data_count_records count last_length (r # rs) =
     (let count = count + 1
      in if last_length \<le> rec_length r then Inr (count, last_length)
         else let last_length = last_length - rec_length r
              in if rs = [] then Inl (InternalCrash ''dispatch_data_create_subrange out of bounds'')
                 else data_count_records count last_length rs)"

definition data_trim_first :: "nat \<Rightarrow> range_record list \<Rightarrow> range_record list" where
  "data_trim_first offset records =
     (if offset \<noteq> 0
      then records[0 := (records ! 0)\<lparr>rec_from := rec_from (records ! 0) + offset,
                                      rec_length := rec_length (records ! 0) - offset\<rparr>]
      else records)"

definition data_trim_last :: "nat \<Rightarrow> range_record list \<Rightarrow> range_record list" where
  "data_trim_last last_length records =
     records[length records - 1 := (records ! (length records - 1))\<lparr>rec_length := last_length\<rparr>]"

definition data_alloc_composite ::
  "nat \<Rightarrow> range_record list \<Rightarrow> data_heap \<Rightarrow> data_error + nat \<times> data_heap" where
  "data_alloc_composite len records h =
     (case dispatch_data_alloc (length records) 0 \<lparr>dd_buf = None,
             dd_destructor = DESTRUCTOR_DEFAULT, dd_size = len, dd_records = records, dd_queue = None\<rparr> h of
        Inl e \<Rightarrow> Inl e
      | Inr (d, h) \<Rightarrow> Inr (d, dispatch_data_retain_records records h))"

text \<open>
  \<open>dispatch_data_create_subrange\<close> calls itself on the object of a record. Objects are at most
  one level deep, so \<open>fuel\<close> 2 suffices (\<open>subrange_bytes\<close> below); running out of it is an error
  of its own.
\<close>

fun data_create_subrange ::
  "nat \<Rightarrow> nat \<Rightarrow> nat \<Rightarrow> nat \<Rightarrow> data_heap \<Rightarrow> data_error + nat \<times> data_heap" where
  "data_create_subrange 0 d offset len h = Inl (InternalCrash ''recursion'')"
| "data_create_subrange (Suc fuel) d offset len h =
     (case dh_obj h d of None \<Rightarrow> Inl NoObject
      | Some dd \<Rightarrow>
         if dd_size dd \<le> offset \<or> len = 0 then Inr (dispatch_data_empty, h)
         else if \<not> dd_size dd - offset < len \<and> len = dd_size dd
           then Inr (d, dispatch_data_retain d h)
         else let len = (if dd_size dd - offset < len then dd_size dd - offset else len)
           in if dispatch_data_leaf dd then
                data_alloc_composite len
                  [\<lparr>data_object = d, rec_from = offset, rec_length = len\<rparr>] h
              else let to_the_end = (offset + len = dd_size dd);
                       (offset, rest) = data_skip_records offset (dd_records dd)
                in (case rest of
                      [] \<Rightarrow> Inl (InternalCrash ''dispatch_data_create_subrange out of bounds'')
                    | r # rs \<Rightarrow>
                        if offset + len \<le> rec_length r
                        then data_create_subrange fuel (data_object r) (rec_from r + offset) len h
                        else if to_the_end
                        then data_alloc_composite len (data_trim_first offset rest) h
                        else (case data_count_records 1 (len - (rec_length r - offset)) rs of
                                Inl e \<Rightarrow> Inl e
                              | Inr (count, last_length) \<Rightarrow>
                                  data_alloc_composite len
                                    (data_trim_last last_length
                                      (data_trim_first offset (take count rest))) h)))"

definition dispatch_data_create_subrange ::
  "nat \<Rightarrow> nat \<Rightarrow> nat \<Rightarrow> data_heap \<Rightarrow> data_error + nat \<times> data_heap" where
  "dispatch_data_create_subrange d offset len h = data_create_subrange 2 d offset len h"

section \<open>Mapping\<close>

text \<open>
  \<open>_dispatch_data_map_direct\<close>: the buffer from \<open>offset\<close> on, the object seen through a trivial
  subrange, and the offset in it.
\<close>

definition dispatch_data_map_direct ::
  "nat \<Rightarrow> nat \<Rightarrow> data_heap \<Rightarrow> data_error + u8 list option \<times> nat \<times> nat" where
  "dispatch_data_map_direct d offset h =
     (case dh_obj h d of None \<Rightarrow> Inl NoObject
      | Some dd \<Rightarrow>
         if dd_size dd = 0 then Inl AssertionFailed
         else let trivial = (\<not> dispatch_data_leaf dd \<and> dispatch_data_num_records dd = 1);
                  offset = (if trivial then offset + rec_from (dd_records dd ! 0) else offset);
                  d = (if trivial then data_object (dd_records dd ! 0) else d)
              in (case dh_obj h d of None \<Rightarrow> Inl NoObject
                  | Some dd \<Rightarrow> Inr (map_option (drop offset) (dd_buf dd), d, offset)))"

text \<open>The loop of \<open>_dispatch_data_apply\<close> over the records; \<open>f\<close> visits one of them.\<close>

fun data_apply_records ::
  "(range_record \<Rightarrow> nat \<Rightarrow> 's \<Rightarrow> data_error + bool \<times> 's) \<Rightarrow> range_record list \<Rightarrow> nat \<Rightarrow> 's
     \<Rightarrow> data_error + bool \<times> 's" where
  "data_apply_records f [] offset s = Inr (True, s)"
| "data_apply_records f (r # rs) offset s =
     (case f r offset s of Inl e \<Rightarrow> Inl e
      | Inr (result, s) \<Rightarrow>
          if result then data_apply_records f rs (offset + rec_length r) s else Inr (False, s))"

text \<open>
  \<open>applier s region offset bytes\<close> is the client's function on its state \<open>s\<close>; \<open>bytes\<close> are the
  \<open>size\<close> bytes at the buffer it is given.
\<close>

fun data_apply ::
  "nat \<Rightarrow> nat \<Rightarrow> nat \<Rightarrow> nat \<Rightarrow> nat \<Rightarrow> ('s \<Rightarrow> nat \<Rightarrow> nat \<Rightarrow> u8 list \<Rightarrow> bool \<times> 's) \<Rightarrow> 's \<Rightarrow> data_heap
     \<Rightarrow> data_error + bool \<times> 's" where
  "data_apply 0 d offset from sz applier s h = Inl (InternalCrash ''recursion'')"
| "data_apply (Suc fuel) d offset from sz applier s h =
     (case dispatch_data_map_direct d 0 h of Inl e \<Rightarrow> Inl e
      | Inr (Some buffer, _, _) \<Rightarrow> Inr (applier s d offset (take sz (drop from buffer)))
      | Inr (None, _, _) \<Rightarrow>
          (case dh_obj h d of None \<Rightarrow> Inl NoObject
           | Some dd \<Rightarrow> data_apply_records
               (\<lambda>r offset s. data_apply fuel (data_object r) offset (rec_from r) (rec_length r) applier s h)
               (dd_records dd) offset s))"

definition dispatch_data_apply ::
  "nat \<Rightarrow> ('s \<Rightarrow> nat \<Rightarrow> nat \<Rightarrow> u8 list \<Rightarrow> bool \<times> 's) \<Rightarrow> 's \<Rightarrow> data_heap \<Rightarrow> data_error + bool \<times> 's" where
  "dispatch_data_apply d applier s h =
     (if dispatch_data_get_size d h = 0 then Inr (True, s)
      else data_apply 2 d 0 0 (dispatch_data_get_size d h) applier s h)"

text \<open>The block of \<open>_dispatch_data_flatten\<close>: \<open>memcpy(buffer + off, buf, len)\<close>.\<close>

definition data_flatten_block :: "u8 list \<Rightarrow> nat \<Rightarrow> nat \<Rightarrow> u8 list \<Rightarrow> bool \<times> u8 list" where
  "data_flatten_block buffer region off bytes =
     (True, take off buffer @ bytes @ drop (off + length bytes) buffer)"

text \<open>\<open>None\<close> when \<open>malloc\<close> fails; \<open>junk\<close> is what the fresh buffer holds.\<close>

definition dispatch_data_flatten :: "nat \<Rightarrow> u8 list option \<Rightarrow> data_heap \<Rightarrow> data_error + u8 list option" where
  "dispatch_data_flatten d junk h =
     (case junk of None \<Rightarrow> Inr None
      | Some buffer \<Rightarrow>
          (case dispatch_data_apply d data_flatten_block buffer h of
             Inl e \<Rightarrow> Inl e | Inr (_, buffer) \<Rightarrow> Inr (Some buffer)))"

text \<open>The new object (\<open>None\<close> is the null pointer), its buffer, its size and the heap.\<close>

definition dispatch_data_create_map ::
  "nat \<Rightarrow> u8 list option \<Rightarrow> data_heap
     \<Rightarrow> data_error + (nat option \<times> u8 list option \<times> nat) \<times> data_heap" where
  "dispatch_data_create_map d junk h =
     (let sz = dispatch_data_get_size d h
      in if sz = 0 then Inr ((Some dispatch_data_empty, None, sz), h)
         else case dispatch_data_map_direct d 0 h of Inl e \<Rightarrow> Inl e
         | Inr (Some buffer, _, _) \<Rightarrow> Inr ((Some d, Some buffer, sz), dispatch_data_retain d h)
         | Inr (None, _, _) \<Rightarrow>
             (case dispatch_data_flatten d junk h of Inl e \<Rightarrow> Inl e
              | Inr (Some buffer) \<Rightarrow>
                  (case dispatch_data_create (Some buffer) sz None DESTRUCTOR_FREE True h of
                     Inl e \<Rightarrow> Inl e
                   | Inr (data, h) \<Rightarrow> Inr ((Some data, Some buffer, sz), h))
              | Inr None \<Rightarrow> Inr ((None, None, 0), h)))"

text \<open>
  \<open>_dispatch_data_get_flattened_bytes\<close>, run alone: the compare-and-swap of \<open>buf\<close> succeeds.
\<close>

definition dispatch_data_get_flattened_bytes ::
  "nat \<Rightarrow> u8 list option \<Rightarrow> data_heap \<Rightarrow> data_error + u8 list option \<times> data_heap" where
  "dispatch_data_get_flattened_bytes d junk h =
     (if dispatch_data_get_size d h = 0 then Inr (None, h)
      else case dispatch_data_map_direct d 0 h of Inl e \<Rightarrow> Inl e
      | Inr (Some buffer, _, _) \<Rightarrow> Inr (Some buffer, h)
      | Inr (None, d, offset) \<Rightarrow>
          (case dispatch_data_flatten d junk h of Inl e \<Rightarrow> Inl e
           | Inr None \<Rightarrow> Inr (None, h)
           | Inr (Some flatbuf) \<Rightarrow>
               (case dh_obj h d of None \<Rightarrow> Inl NoObject
                | Some dd \<Rightarrow> Inr (Some (drop offset flatbuf),
                    h\<lparr>dh_obj := (dh_obj h)(d \<mapsto> dd\<lparr>dd_buf := Some flatbuf\<rparr>)\<rparr>))))"

section \<open>Regions\<close>

text \<open>
  The loop of \<open>_dispatch_data_copy_region\<close>: the record with the location, the offset in its
  object, the length that is left of it, and the offset of the record in the data.
\<close>

fun data_find_location ::
  "nat \<Rightarrow> nat \<Rightarrow> nat \<Rightarrow> range_record list \<Rightarrow> (range_record \<times> nat \<times> nat \<times> nat) option" where
  "data_find_location from offset location [] = None"
| "data_find_location from offset location (r # rs) =
     (if rec_length r \<le> from then data_find_location (from - rec_length r) offset location rs
      else let len = rec_length r - from
           in if offset + len \<le> location then data_find_location 0 (offset + len) location rs
              else Some (r, from + rec_from r, len, offset))"

fun data_copy_region ::
  "nat \<Rightarrow> nat \<Rightarrow> nat \<Rightarrow> nat \<Rightarrow> nat \<Rightarrow> nat \<Rightarrow> data_heap
     \<Rightarrow> data_error + (nat \<times> nat) \<times> data_heap" where
  "data_copy_region 0 d from sz location off h = Inl (InternalCrash ''recursion'')"
| "data_copy_region (Suc fuel) d from sz location off h =
     (let reusable = (from = 0 \<and> sz = dispatch_data_get_size d h)
      in case dispatch_data_map_direct d from h of Inl e \<Rightarrow> Inl e
      | Inr (Some _, d', from') \<Rightarrow>
          if reusable then Inr ((d, off), dispatch_data_retain d h)
          else let h = dispatch_data_retain d' h
               in if from' = 0 \<and> sz = dispatch_data_get_size d' h then Inr ((d', off), h)
                  else (case dispatch_data_alloc 1 0 \<lparr>dd_buf = None,
                          dd_destructor = DESTRUCTOR_DEFAULT, dd_size = sz,
                          dd_records = [\<lparr>data_object = d', rec_from = from', rec_length = sz\<rparr>],
                          dd_queue = None\<rparr> h of
                        Inl e \<Rightarrow> Inl e | Inr (data, h) \<Rightarrow> Inr ((data, off), h))
      | Inr (None, d', from') \<Rightarrow>
          (case dh_obj h d' of None \<Rightarrow> Inl NoObject
           | Some dd \<Rightarrow>
               (case data_find_location from' 0 location (dd_records dd) of
                  None \<Rightarrow> Inl (InternalCrash ''dispatch_data_copy_region out of bounds'')
                | Some (r, from, len, offset) \<Rightarrow>
                    data_copy_region fuel (data_object r) from len (location - offset)
                      (off + offset) h)))"

definition dispatch_data_copy_region ::
  "nat \<Rightarrow> nat \<Rightarrow> data_heap \<Rightarrow> data_error + (nat \<times> nat) \<times> data_heap" where
  "dispatch_data_copy_region d location h =
     (if dispatch_data_get_size d h \<le> location
      then Inr ((dispatch_data_empty, dispatch_data_get_size d h), h)
      else data_copy_region 2 d 0 (dispatch_data_get_size d h) location 0 h)"

section \<open>Releasing\<close>

text \<open>\<open>_dispatch_data_dispose\<close> of a leaf, and the release of one reference to a leaf.\<close>

definition data_dispose_leaf :: "dispatch_data \<Rightarrow> data_heap \<Rightarrow> data_heap" where
  "data_dispose_leaf dd h =
     dispatch_data_destroy_buffer (dd_buf dd) (dd_size dd) (dd_queue dd) (dd_destructor dd) h"

fun data_release :: "nat \<Rightarrow> nat \<Rightarrow> data_heap \<Rightarrow> data_heap" where
  "data_release 0 d h = h"
| "data_release (Suc fuel) d h =
     (if d = dispatch_data_empty then h
      else let h = h\<lparr>dh_ref := (dh_ref h)(d := dh_ref h d - 1)\<rparr>
           in if dh_ref h d \<noteq> 0 then h
              else (case dh_obj h d of None \<Rightarrow> h
                | Some dd \<Rightarrow>
                   (let h = h\<lparr>dh_obj := (dh_obj h)(d := None)\<rparr>
                    in if dispatch_data_leaf dd then data_dispose_leaf dd h
                       else let h = fold (\<lambda>r. data_release fuel (data_object r)) (dd_records dd) h
                            in (case dd_buf dd of None \<Rightarrow> h
                                | Some b \<Rightarrow> h\<lparr>dh_events := FreeBuffer b # dh_events h\<rparr>))))"

definition dispatch_data_release :: "nat \<Rightarrow> data_heap \<Rightarrow> data_heap" where
  "dispatch_data_release d h = data_release 2 d h"

section \<open>What a data object stands for\<close>

definition leaf_bytes :: "data_heap \<Rightarrow> nat \<Rightarrow> u8 list" where
  "leaf_bytes h d = (case dh_obj h d of None \<Rightarrow> []
     | Some dd \<Rightarrow> (case dd_buf dd of None \<Rightarrow> [] | Some b \<Rightarrow> b))"

definition rec_bytes :: "data_heap \<Rightarrow> range_record \<Rightarrow> u8 list" where
  "rec_bytes h r = take (rec_length r) (drop (rec_from r) (leaf_bytes h (data_object r)))"

definition records_bytes :: "data_heap \<Rightarrow> range_record list \<Rightarrow> u8 list" where
  "records_bytes h rs = concat (map (rec_bytes h) rs)"

definition data_bytes :: "data_heap \<Rightarrow> nat \<Rightarrow> u8 list" where
  "data_bytes h d = (case dh_obj h d of None \<Rightarrow> []
     | Some dd \<Rightarrow> if dispatch_data_leaf dd then leaf_bytes h d else records_bytes h (dd_records dd))"

text \<open>The invariants listed at the top of \<open>data.c\<close>.\<close>

definition leaf_ok :: "dispatch_data \<Rightarrow> bool" where
  "leaf_ok dd = (dd_records dd = [] \<and> dd_size dd < SIZE_MOD \<and>
     (case dd_buf dd of None \<Rightarrow> dd_size dd = 0 | Some b \<Rightarrow> length b = dd_size dd \<and> b \<noteq> []))"

definition rec_ok :: "data_heap \<Rightarrow> range_record \<Rightarrow> bool" where
  "rec_ok h r = (\<exists>dd. dh_obj h (data_object r) = Some dd \<and> leaf_ok dd \<and> 0 < rec_length r \<and>
     rec_from r + rec_length r \<le> dd_size dd)"

definition records_fit :: "nat \<Rightarrow> bool" where
  "records_fit n = (sizeof_dispatch_data_s + n * sizeof_range_record < SIZE_MOD)"

definition composite_ok :: "data_heap \<Rightarrow> dispatch_data \<Rightarrow> bool" where
  "composite_ok h dd = (dd_records dd \<noteq> [] \<and> records_fit (length (dd_records dd)) \<and> (\<forall>r \<in> set (dd_records dd). rec_ok h r) \<and>
     dd_size dd = sum_list (map rec_length (dd_records dd)) \<and> dd_size dd < SIZE_MOD \<and>
     (dd_buf dd = None \<or>
      1 < length (dd_records dd) \<and> dd_buf dd = Some (records_bytes h (dd_records dd))))"

definition data_wf :: "data_heap \<Rightarrow> bool" where
  "data_wf h = ((\<forall>d dd. dh_obj h d = Some dd \<longrightarrow> leaf_ok dd \<or> composite_ok h dd) \<and>
     (\<forall>d. dh_next h \<le> d \<longrightarrow> dh_obj h d = None) \<and>
     (\<exists>dd. dh_obj h dispatch_data_empty = Some dd \<and> dd_size dd = 0))"

definition data_ext :: "data_heap \<Rightarrow> data_heap \<Rightarrow> bool" where
  "data_ext h h' = (\<forall>d dd. dh_obj h d = Some dd \<longrightarrow> dh_obj h' d = Some dd)"

lemma data_ext_refl [simp]: "data_ext h h" by (simp add: data_ext_def)
lemma data_ext_trans: "data_ext h1 h2 \<Longrightarrow> data_ext h2 h3 \<Longrightarrow> data_ext h1 h3"
  by (simp add: data_ext_def)

lemma leaf_bytes_ext: "data_ext h h' \<Longrightarrow> dh_obj h d = Some dd \<Longrightarrow> leaf_bytes h' d = leaf_bytes h d"
  by (simp add: data_ext_def leaf_bytes_def)

lemma rec_ok_ext: "rec_ok h r \<Longrightarrow> data_ext h h' \<Longrightarrow> rec_ok h' r"
  by (auto simp: rec_ok_def data_ext_def)

lemma rec_bytes_ext: "rec_ok h r \<Longrightarrow> data_ext h h' \<Longrightarrow> rec_bytes h' r = rec_bytes h r"
  by (auto simp: rec_ok_def rec_bytes_def leaf_bytes_ext)

lemma records_bytes_ext:
  "\<forall>r \<in> set rs. rec_ok h r \<Longrightarrow> data_ext h h' \<Longrightarrow> records_bytes h' rs = records_bytes h rs"
  unfolding records_bytes_def by (intro arg_cong [of _ _ concat]) (simp add: rec_bytes_ext)

lemma data_bytes_ext:
  assumes "data_wf h" "data_ext h h'" "dh_obj h d = Some dd"
  shows "data_bytes h' d = data_bytes h d"
proof -
  have o: "dh_obj h' d = Some dd" using assms by (simp add: data_ext_def)
  have "leaf_ok dd \<or> composite_ok h dd" using assms by (simp add: data_wf_def)
  then show ?thesis
    using assms o records_bytes_ext [of "dd_records dd" h h']
    by (auto simp: data_bytes_def leaf_bytes_ext composite_ok_def leaf_ok_def dispatch_data_leaf_def)
qed

lemma composite_ok_ext: "composite_ok h dd \<Longrightarrow> data_ext h h' \<Longrightarrow> composite_ok h' dd"
  using records_bytes_ext [of "dd_records dd" h h'] rec_ok_ext [of h _ h']
  by (auto simp: composite_ok_def)

lemma length_leaf_bytes: "dh_obj h d = Some dd \<Longrightarrow> leaf_ok dd \<Longrightarrow> length (leaf_bytes h d) = dd_size dd"
  by (auto simp: leaf_bytes_def leaf_ok_def split: option.splits)

lemma length_rec_bytes: "rec_ok h r \<Longrightarrow> length (rec_bytes h r) = rec_length r"
  by (auto simp: rec_ok_def rec_bytes_def length_leaf_bytes)

lemma length_records_bytes:
  "\<forall>r \<in> set rs. rec_ok h r \<Longrightarrow> length (records_bytes h rs) = sum_list (map rec_length rs)"
  by (induction rs) (auto simp: records_bytes_def length_rec_bytes)

lemma data_wf_cases [consumes 2, case_names leaf composite]:
  assumes "data_wf h" "dh_obj h d = Some dd"
  obtains "leaf_ok dd" "dispatch_data_leaf dd" "data_bytes h d = leaf_bytes h d"
  | "composite_ok h dd" "\<not> dispatch_data_leaf dd" "data_bytes h d = records_bytes h (dd_records dd)"
proof -
  have "leaf_ok dd \<or> composite_ok h dd" using assms by (simp add: data_wf_def)
  then show ?thesis
    using that assms(2) by (auto simp: leaf_ok_def composite_ok_def dispatch_data_leaf_def data_bytes_def)
qed

lemma length_data_bytes: "data_wf h \<Longrightarrow> dh_obj h d = Some dd \<Longrightarrow> length (data_bytes h d) = dd_size dd"
  by (erule (1) data_wf_cases)
    (auto simp: length_leaf_bytes composite_ok_def length_records_bytes)

lemma records_bytes_simps [simp]:
  "records_bytes h [] = []" "records_bytes h (r # rs) = rec_bytes h r @ records_bytes h rs"
  "records_bytes h (rs @ rs') = records_bytes h rs @ records_bytes h rs'"
  by (simp_all add: records_bytes_def)

subsection \<open>Allocation keeps the heap well formed\<close>

lemma retain_obj [simp]:
  "dh_obj (dispatch_data_retain d h) = dh_obj h" "dh_next (dispatch_data_retain d h) = dh_next h"
  by (simp_all add: dispatch_data_retain_def)

lemma retain_records_obj [simp]:
  "dh_obj (dispatch_data_retain_records rs h) = dh_obj h"
  "dh_next (dispatch_data_retain_records rs h) = dh_next h"
  by (induction rs arbitrary: h) (simp_all add: dispatch_data_retain_records_def)

lemma data_wf_cong: "dh_obj h' = dh_obj h \<Longrightarrow> dh_next h' = dh_next h \<Longrightarrow> data_wf h' = data_wf h"
proof -
  assume "dh_obj h' = dh_obj h" "dh_next h' = dh_next h"
  moreover from this have "leaf_bytes h' = leaf_bytes h" by (simp add: leaf_bytes_def fun_eq_iff)
  moreover from this have "rec_bytes h' = rec_bytes h" by (simp add: rec_bytes_def fun_eq_iff)
  ultimately show ?thesis
    by (simp add: data_wf_def composite_ok_def rec_ok_def records_bytes_def)
qed

lemma data_bytes_cong: "dh_obj h' = dh_obj h \<Longrightarrow> data_bytes h' d = data_bytes h d"
proof -
  assume o: "dh_obj h' = dh_obj h"
  then have l: "leaf_bytes h' = leaf_bytes h" by (simp add: leaf_bytes_def fun_eq_iff)
  then have "rec_bytes h' = rec_bytes h" by (simp add: rec_bytes_def fun_eq_iff)
  with o l show ?thesis by (simp add: data_bytes_def records_bytes_def split: option.split)
qed

lemma alloc_wf:
  assumes "data_wf h" "leaf_ok dd \<or> composite_ok h dd"
    and "dispatch_data_alloc n extra dd h = Inr (d, h')"
  shows "data_wf h' \<and> data_ext h h' \<and> dh_obj h' d = Some dd"
proof -
  from assms(3) have h': "dh_obj h' = (dh_obj h)(dh_next h \<mapsto> dd)" "d = dh_next h" "dh_next h' = Suc (dh_next h)"
    by (auto simp: dispatch_data_alloc_def split: option.splits)
  have new: "dh_obj h (dh_next h) = None" using assms(1) by (simp add: data_wf_def)
  then have ext: "data_ext h h'" by (auto simp: data_ext_def h'(1))
  moreover have "data_wf h'"
    unfolding data_wf_def
  proof (intro conjI allI impI)
    fix d' dd' assume "dh_obj h' d' = Some dd'"
    then have "leaf_ok dd' \<or> composite_ok h dd'"
      using assms(1,2) by (auto simp: h'(1) data_wf_def split: if_splits)
    then show "leaf_ok dd' \<or> composite_ok h' dd'" using composite_ok_ext ext by blast
  next
    fix d' assume "dh_next h' \<le> d'"
    then show "dh_obj h' d' = None" using assms(1) by (simp add: h' data_wf_def)
  next
    show "\<exists>dd. dh_obj h' dispatch_data_empty = Some dd \<and> dd_size dd = 0"
      using assms(1) ext unfolding data_wf_def data_ext_def by blast
  qed
  ultimately show ?thesis by (simp add: h')
qed

lemma alloc_records:
  assumes "records_fit n"
  obtains d h' where "dispatch_data_alloc n 0 dd h = Inr (d, h')"
proof -
  have "n * sizeof_range_record < SIZE_MOD" "sizeof_dispatch_data_s + n * sizeof_range_record < SIZE_MOD"
    "sizeof_dispatch_data_s < SIZE_MOD"
    using assms by (auto simp: records_fit_def SIZE_MOD_def sizeof_dispatch_data_s_def)
  then have "\<exists>d h'. dispatch_data_alloc n 0 dd h = Inr (d, h')"
    by (simp add: dispatch_data_alloc_def os_mul_and_add_overflow_def)
  with that show ?thesis by blast
qed

lemma records_fit_mono: "records_fit n \<Longrightarrow> m \<le> n \<Longrightarrow> records_fit m"
  unfolding records_fit_def by (meson add_left_mono le_less_trans mult_le_mono1)

lemma records_fit_small [simp]: "n \<le> 1000 \<Longrightarrow> records_fit n"
  by (simp add: records_fit_def SIZE_MOD_def sizeof_dispatch_data_s_def sizeof_range_record_def)

lemma alloc_composite_spec:
  assumes wf: "data_wf h" and rs: "rs \<noteq> []" "\<forall>r \<in> set rs. rec_ok h r" "records_fit (length rs)"
    and len: "len = sum_list (map rec_length rs)" "len < SIZE_MOD"
    and r: "data_alloc_composite len rs h = Inr (d, h')"
  shows "data_wf h' \<and> data_ext h h' \<and> data_bytes h' d = records_bytes h rs"
proof -
  let ?dd = "\<lparr>dd_buf = None, dd_destructor = DESTRUCTOR_DEFAULT, dd_size = len, dd_records = rs, dd_queue = None\<rparr>"
  from r obtain h1 where a: "dispatch_data_alloc (length rs) 0 ?dd h = Inr (d, h1)"
    and h': "h' = dispatch_data_retain_records rs h1"
    by (auto simp: data_alloc_composite_def split: sum.splits)
  have "composite_ok h ?dd" using rs len by (simp add: composite_ok_def)
  from alloc_wf [OF wf _ a] this have 1: "data_wf h1" "data_ext h h1" "dh_obj h1 d = Some ?dd" by auto
  have o: "dh_obj h' = dh_obj h1" "dh_next h' = dh_next h1" unfolding h' by simp_all
  have "data_wf h'" using data_wf_cong [OF o] 1(1) by (rule iffD2)
  moreover have "data_ext h h'" using 1(2) unfolding data_ext_def o .
  moreover have d: "dh_obj h' d = Some ?dd" using 1(3) unfolding o .
  moreover have "data_bytes h' d = records_bytes h' rs"
    using d rs by (simp add: data_bytes_def dispatch_data_leaf_def)
  ultimately show ?thesis using records_bytes_ext [OF rs(2), of h'] by simp
qed


lemma retain_wf:
  assumes "data_wf h" "dh_obj h d = Some dd"
  shows "data_wf (dispatch_data_retain d h) \<and> data_ext h (dispatch_data_retain d h)
    \<and> data_bytes (dispatch_data_retain d h) d = data_bytes h d"
  using assms data_wf_cong [of "dispatch_data_retain d h" h] data_bytes_cong [of "dispatch_data_retain d h" h d]
  by (simp add: data_ext_def)

lemma alloc_error: "dispatch_data_alloc n x dd h = Inl e \<Longrightarrow> e = OutOfMemory"
  by (auto simp: dispatch_data_alloc_def split: option.splits)

lemma empty_bytes: "data_wf h \<Longrightarrow> data_bytes h dispatch_data_empty = []"
  using length_data_bytes by (fastforce simp: data_wf_def)

lemma leaf_of_rec:
  assumes "rec_ok h r"
  obtains dd where "dh_obj h (data_object r) = Some dd" "leaf_ok dd"
  using assms by (auto simp: rec_ok_def)

end
