(* ===== verification/Data_Refs.thy ===== *)
theory Data_Refs
  imports Dispatch_Data
begin

text \<open>
  Reference counts of data objects: \<open>_dispatch_data_dispose\<close> and the retains and releases of
  \<open>data.c\<close>. The invariant says that the count of a live object is the number of records that
  point to it plus the references of its clients; every operation preserves it and moves exactly
  the client references that its contract says, so nothing is used after it was freed and nothing
  is leaked.
\<close>

section \<open>Counting references\<close>

definition record_refs :: "range_record list \<Rightarrow> nat \<Rightarrow> nat" where
  "record_refs rs d = count_list (map data_object rs) d"

definition object_refs :: "dispatch_data option \<Rightarrow> nat \<Rightarrow> nat" where
  "object_refs x d = (case x of None \<Rightarrow> 0 | Some dd \<Rightarrow> record_refs (dd_records dd) d)"

definition heap_refs :: "data_heap \<Rightarrow> nat \<Rightarrow> nat" where
  "heap_refs h d = (\<Sum>i < dh_next h. object_refs (dh_obj h i) d)"

text \<open>
  The reference counts are those of the records of the live objects plus the references \<open>ext\<close>
  held by clients; nothing is live without a reference and nothing dead is referenced.
\<close>

definition ref_ok :: "data_heap \<Rightarrow> (nat \<Rightarrow> nat) \<Rightarrow> nat \<Rightarrow> bool" where
  "ref_ok h ext d = (if dh_obj h d = None then ext d = 0 \<and> heap_refs h d = 0
     else 0 < dh_ref h d \<and> dh_ref h d = ext d + heap_refs h d)"

definition data_refs :: "data_heap \<Rightarrow> (nat \<Rightarrow> nat) \<Rightarrow> bool" where
  "data_refs h ext = (\<forall>d. d \<noteq> dispatch_data_empty \<longrightarrow> ref_ok h ext d)"

definition data_inv :: "data_heap \<Rightarrow> (nat \<Rightarrow> nat) \<Rightarrow> bool" where
  "data_inv h ext = (data_wf h \<and> data_refs h ext)"

lemma object_refs_simps [simp]:
  "object_refs None d = 0" "object_refs (Some dd) d = record_refs (dd_records dd) d"
  by (simp_all add: object_refs_def)

lemma record_refs_simps [simp]:
  "record_refs [] d = 0"
  "record_refs (r # rs) d = (if data_object r = d then 1 else 0) + record_refs rs d"
  by (simp_all add: record_refs_def)

lemma record_refs_pos: "r \<in> set rs \<Longrightarrow> 0 < record_refs rs (data_object r)"
  by (induction rs) auto

lemma heap_refs_update:
  assumes "d < dh_next h"
  shows "heap_refs (h\<lparr>dh_obj := (dh_obj h)(d := x)\<rparr>) i + object_refs (dh_obj h d) i = heap_refs h i + object_refs x i"
proof -
  have split: "(\<Sum>j < dh_next h. g j) = g d + (\<Sum>j \<in> {..<dh_next h} - {d}. g j)" for g :: "nat \<Rightarrow> nat"
    using assms by (simp add: sum.remove)
  have "(\<Sum>j \<in> {..<dh_next h} - {d}. object_refs (((dh_obj h)(d := x)) j) i)
      = (\<Sum>j \<in> {..<dh_next h} - {d}. object_refs (dh_obj h j) i)"
    by (intro sum.cong) auto
  then show ?thesis
    using split [of "\<lambda>j. object_refs (((dh_obj h)(d := x)) j) i"] split [of "\<lambda>j. object_refs (dh_obj h j) i"]
    by (simp add: heap_refs_def)
qed

lemma heap_refs_remove:
  assumes "d < dh_next h"
  shows "heap_refs h i = heap_refs (h\<lparr>dh_obj := (dh_obj h)(d := None)\<rparr>) i + object_refs (dh_obj h d) i"
  using heap_refs_update [OF assms, of None i] by simp

lemma heap_refs_cong: "dh_obj h' = dh_obj h \<Longrightarrow> dh_next h' = dh_next h \<Longrightarrow> heap_refs h' = heap_refs h"
  by (simp add: heap_refs_def fun_eq_iff)

lemma heap_refs_pos:
  assumes "d < dh_next h" "dh_obj h d = Some dd" "r \<in> set (dd_records dd)"
  shows "0 < heap_refs h (data_object r)"
  using heap_refs_remove [OF assms(1), of "data_object r"] record_refs_pos [OF assms(3)] assms(2) by simp

lemma obj_less_next: "data_wf h \<Longrightarrow> dh_obj h d = Some dd \<Longrightarrow> d < dh_next h"
  unfolding data_wf_def by (metis not_le option.distinct(1))

subsection \<open>Dropping references\<close>

text \<open>An object that disappears leaves the rest of a well-formed heap well formed.\<close>

lemma remove_wf:
  assumes wf: "data_wf h" and d: "d \<noteq> dispatch_data_empty" and refs: "heap_refs h d = 0"
  shows "data_wf (h\<lparr>dh_obj := (dh_obj h)(d := None)\<rparr>)"
    and "\<And>i. i \<noteq> d \<Longrightarrow> data_bytes (h\<lparr>dh_obj := (dh_obj h)(d := None)\<rparr>) i = data_bytes h i"
proof -
  let ?h = "h\<lparr>dh_obj := (dh_obj h)(d := None)\<rparr>"
  have ne: "data_object r \<noteq> d" if "dh_obj h i = Some x" "r \<in> set (dd_records x)" for i x r
    using heap_refs_pos [OF obj_less_next [OF wf that(1)] that] refs by auto
  have rok: "rec_ok ?h r = rec_ok h r" and rb: "rec_bytes ?h r = rec_bytes h r" if "data_object r \<noteq> d" for r
    using that by (simp_all add: rec_ok_def rec_bytes_def leaf_bytes_def)
  have rsb: "records_bytes ?h rs = records_bytes h rs" if "\<forall>r \<in> set rs. data_object r \<noteq> d" for rs
    using that rb by (induction rs) simp_all
  have "leaf_ok x \<or> composite_ok ?h x" if "dh_obj ?h i = Some x" for i x
  proof -
    have i: "dh_obj h i = Some x" using that by (auto split: if_splits)
    then have "leaf_ok x \<or> composite_ok h x" using wf by (simp add: data_wf_def)
    then show ?thesis using ne [OF i] rok rsb [of "dd_records x"] by (auto simp: composite_ok_def)
  qed
  then show "data_wf ?h" using wf d by (auto simp: data_wf_def)
  fix i assume i: "i \<noteq> d"
  show "data_bytes ?h i = data_bytes h i"
  proof (cases "dh_obj h i")
    case (Some x)
    then show ?thesis using i ne [OF Some] rsb [of "dd_records x"]
      by (auto simp: data_bytes_def leaf_bytes_def)
  qed (simp add: data_bytes_def i)
qed

lemma data_inv_ref: "data_inv h ext \<Longrightarrow> d \<noteq> dispatch_data_empty \<Longrightarrow> ref_ok h ext d"
  by (simp add: data_inv_def data_refs_def)

lemma data_invD:
  assumes "data_inv h ext" "d \<noteq> dispatch_data_empty" "dh_obj h d = Some dd"
  shows "dh_ref h d = ext d + heap_refs h d" "0 < dh_ref h d" "d < dh_next h"
  using data_inv_ref [OF assms(1,2)] assms obj_less_next [of h d dd]
  by (auto simp: data_inv_def ref_ok_def)

lemma data_inv_live:
  assumes "data_inv h ext" "0 < ext d" "d \<noteq> dispatch_data_empty"
  shows "dh_obj h d \<noteq> None"
  using data_inv_ref [OF assms(1,3)] assms(2) by (auto simp: ref_ok_def split: if_splits)

lemma data_inv_cong:
  assumes "data_inv h ext" "dh_obj h' = dh_obj h" "dh_next h' = dh_next h" "dh_ref h' = dh_ref h"
  shows "data_inv h' ext"
  using assms(1) unfolding data_inv_def data_refs_def ref_ok_def assms(2,4) heap_refs_cong [OF assms(2,3)]
    data_wf_cong [OF assms(2,3)] .

lemma data_invI:
  "data_wf h \<Longrightarrow> (\<And>i. i \<noteq> dispatch_data_empty \<Longrightarrow> ref_ok h ext i) \<Longrightarrow> data_inv h ext"
  by (simp add: data_inv_def data_refs_def)

lemma drop_ref_inv:
  assumes inv: "data_inv h ext" and o: "dh_obj h d = Some dd" "d \<noteq> dispatch_data_empty"
    and ext: "0 < ext d" "dh_ref h d \<noteq> 1"
  shows "data_inv (h\<lparr>dh_ref := (dh_ref h)(d := dh_ref h d - 1)\<rparr>) (ext(d := ext d - 1))"
proof -
  let ?h = "h\<lparr>dh_ref := (dh_ref h)(d := dh_ref h d - 1)\<rparr>"
  have refs: "heap_refs ?h = heap_refs h" by (rule heap_refs_cong) simp_all
  have "data_wf ?h" using inv data_wf_cong [of ?h h] by (simp add: data_inv_def)
  moreover have "ref_ok ?h (ext(d := ext d - 1)) i" if "i \<noteq> dispatch_data_empty" for i
    using data_inv_ref [OF inv that] data_invD [OF inv o(2,1)] o ext
    unfolding ref_ok_def refs by auto
  ultimately show ?thesis by (rule data_invI)
qed

lemma drop_last_inv:
  assumes inv: "data_inv h ext" and o: "dh_obj h d = Some dd" and ext: "0 < ext d" and one: "dh_ref h d = 1"
    and d: "d \<noteq> dispatch_data_empty"
  shows "data_inv (h\<lparr>dh_ref := (dh_ref h)(d := 0), dh_obj := (dh_obj h)(d := None)\<rparr>)
    (\<lambda>i. (ext(d := 0)) i + record_refs (dd_records dd) i)"
proof -
  let ?h1 = "h\<lparr>dh_obj := (dh_obj h)(d := None)\<rparr>"
  let ?h = "h\<lparr>dh_ref := (dh_ref h)(d := 0), dh_obj := (dh_obj h)(d := None)\<rparr>"
  have r: "ext d = 1" "heap_refs h d = 0" using data_invD [OF inv d o] one ext by auto
  have wf: "data_wf h" using inv by (simp add: data_inv_def)
  have less: "d < dh_next h" using data_invD(3) [OF inv d o] .
  have "data_wf ?h" using remove_wf(1) [OF wf d r(2)] data_wf_cong [of ?h ?h1] by simp
  moreover have refs: "heap_refs h i = heap_refs ?h i + record_refs (dd_records dd) i" for i
    using heap_refs_remove [OF less, of i] o heap_refs_cong [of ?h ?h1] by simp
  moreover have "ref_ok ?h (\<lambda>i. (ext(d := 0)) i + record_refs (dd_records dd) i) i"
    if i: "i \<noteq> dispatch_data_empty" for i
  proof -
    have "record_refs (dd_records dd) d = 0" "heap_refs ?h d = 0" using refs [of d] r by simp_all
    with data_inv_ref [OF inv i] refs [of i] show ?thesis by (auto simp: ref_ok_def)
  qed
  ultimately show ?thesis by (intro data_invI)
qed

lemma destroy_buffer_obj [simp]:
  "dh_obj (dispatch_data_destroy_buffer b n q ds h) = dh_obj h"
  "dh_next (dispatch_data_destroy_buffer b n q ds h) = dh_next h"
  "dh_ref (dispatch_data_destroy_buffer b n q ds h) = dh_ref h"
  by (simp_all add: dispatch_data_destroy_buffer_def split: data_destructor.splits)

lemma release_leaf:
  assumes inv: "data_inv h ext" and ext: "0 < ext d" and d: "d \<noteq> dispatch_data_empty"
    and o: "dh_obj h d = Some dd" "leaf_ok dd"
  shows "data_inv (data_release (Suc fuel) d h) (ext(d := ext d - 1))
    \<and> (\<forall>i. i \<noteq> d \<longrightarrow> dh_obj (data_release (Suc fuel) d h) i = dh_obj h i)
    \<and> data_ext (data_release (Suc fuel) d h) h"
proof (cases "dh_ref h d = 1")
  case False
  then have "dh_ref h d - 1 \<noteq> 0" using data_invD(2) [OF inv d o(1)] by simp
  then show ?thesis using drop_ref_inv [OF inv o(1) d ext False] d
    by (simp add: data_ext_def)
next
  case True
  let ?h = "h\<lparr>dh_ref := (dh_ref h)(d := 0), dh_obj := (dh_obj h)(d := None)\<rparr>"
  have rs: "dd_records dd = []" using o(2) by (simp add: leaf_ok_def)
  have "ext d = 1" using data_invD(1) [OF inv d o(1)] True ext by simp
  then have e: "(\<lambda>i. (ext(d := 0)) i + record_refs (dd_records dd) i) = ext(d := ext d - 1)"
    using rs by (simp add: fun_eq_iff)
  have r: "data_release (Suc fuel) d h = data_dispose_leaf dd ?h"
    using True d o rs by (simp add: dispatch_data_leaf_def)
  have "data_inv ?h (ext(d := ext d - 1))" using drop_last_inv [OF inv o(1) ext True d] unfolding e .
  then have "data_inv (data_dispose_leaf dd ?h) (ext(d := ext d - 1))"
    by (rule data_inv_cong) (simp_all add: data_dispose_leaf_def)
  then show ?thesis unfolding r by (auto simp: data_dispose_leaf_def data_ext_def)
qed


declare data_release.simps(2) [simp del]

lemma rec_not_empty: "data_wf h \<Longrightarrow> rec_ok h r \<Longrightarrow> data_object r \<noteq> dispatch_data_empty"
  by (auto simp: data_wf_def rec_ok_def)

lemma release_records:
  assumes "data_inv h (\<lambda>i. ext i + record_refs rs i)" "\<forall>r \<in> set rs. rec_ok h r"
  shows "data_inv (fold (\<lambda>r. data_release (Suc fuel) (data_object r)) rs h) ext
    \<and> data_ext (fold (\<lambda>r. data_release (Suc fuel) (data_object r)) rs h) h"
  using assms
proof (induction rs arbitrary: h)
  case (Cons r rs)
  let ?e = "\<lambda>i. ext i + record_refs (r # rs) i" and ?d = "data_object r"
  let ?h = "data_release (Suc fuel) ?d h"
  have wf: "data_wf h" using Cons.prems(1) by (simp add: data_inv_def)
  have r: "rec_ok h r" using Cons.prems(2) by simp
  obtain ld where ld: "dh_obj h ?d = Some ld" "leaf_ok ld" using r by (rule leaf_of_rec)
  have "0 < ?e ?d" by simp
  from release_leaf [OF Cons.prems(1) this rec_not_empty [OF wf r] ld]
  have rel: "data_inv ?h (?e(?d := ?e ?d - 1))" "data_ext ?h h" by simp_all
  have e: "?e(?d := ?e ?d - 1) = (\<lambda>i. ext i + record_refs rs i)" by (simp add: fun_eq_iff)
  have "rec_ok ?h r'" if r': "r' \<in> set rs" for r'
  proof -
    have ok: "rec_ok h r'" using Cons.prems(2) r' by simp
    have "0 < ext (data_object r') + record_refs rs (data_object r')" using record_refs_pos [OF r'] by simp
    then have "dh_obj ?h (data_object r') \<noteq> None"
      using data_inv_live [OF rel(1) _ rec_not_empty [OF wf ok]] unfolding e by simp
    then show ?thesis using rel(2) ok by (auto simp: rec_ok_def data_ext_def)
  qed
  then have "data_inv (fold (\<lambda>r. data_release (Suc fuel) (data_object r)) rs ?h) ext
      \<and> data_ext (fold (\<lambda>r. data_release (Suc fuel) (data_object r)) rs ?h) ?h"
    using Cons.IH [of ?h] rel(1) unfolding e by simp
  then show ?case using rel(2) data_ext_trans by fastforce
qed simp

lemma release_ok:
  assumes inv: "data_inv h ext" and ext: "0 < ext d" and d: "d \<noteq> dispatch_data_empty"
  shows "data_inv (dispatch_data_release d h) (ext(d := ext d - 1)) \<and> data_ext (dispatch_data_release d h) h"
proof -
  have wf: "data_wf h" using inv by (simp add: data_inv_def)
  obtain dd where o: "dh_obj h d = Some dd" using data_inv_live [OF inv ext d] by auto
  from wf o show ?thesis
  proof (cases rule: data_wf_cases)
    case leaf
    then show ?thesis using release_leaf [OF inv ext d o, of 1]
      by (simp add: dispatch_data_release_def numeral_2_eq_2)
  next
    case composite
    show ?thesis
    proof (cases "dh_ref h d = 1")
      case False
      then have "dh_ref h d - 1 \<noteq> 0" using data_invD(2) [OF inv d o] by simp
      then show ?thesis using drop_ref_inv [OF inv o d ext False] d
        by (simp add: dispatch_data_release_def numeral_2_eq_2 data_ext_def data_release.simps(2))
    next
      case True
      let ?h = "h\<lparr>dh_ref := (dh_ref h)(d := 0), dh_obj := (dh_obj h)(d := None)\<rparr>"
      let ?f = "fold (\<lambda>r. data_release (Suc 0) (data_object r)) (dd_records dd) ?h"
      have one: "ext d = 1" "heap_refs h d = 0" using data_invD(1) [OF inv d o] True ext by simp_all
      note di = drop_last_inv [OF inv o ext True d]
      have ne: "data_object r \<noteq> d" if "r \<in> set (dd_records dd)" for r
        using heap_refs_pos [OF data_invD(3) [OF inv d o] o that] one by auto
      have rok: "\<forall>r \<in> set (dd_records dd). rec_ok ?h r"
        using composite(1) ne by (auto simp: composite_ok_def rec_ok_def)
      have fin: "data_inv ?f (ext(d := ext d - 1)) \<and> data_ext ?f ?h"
        using release_records [of ?h "ext(d := 0)" "dd_records dd" 0] di rok one by simp
      have h: "data_ext ?h h" by (auto simp: data_ext_def)
      have r: "dispatch_data_release d h = (case dd_buf dd of None \<Rightarrow> ?f
          | Some b \<Rightarrow> ?f\<lparr>dh_events := FreeBuffer b # dh_events ?f\<rparr>)"
        using True d o composite(2)
        by (simp add: dispatch_data_release_def numeral_2_eq_2 Let_def data_release.simps(2) [where fuel = "Suc 0"])
      have "data_inv (dispatch_data_release d h) (ext(d := ext d - 1))"
        by (rule data_inv_cong [of ?f]) (use fin in \<open>simp_all add: r split: option.split\<close>)
      moreover have "data_ext (dispatch_data_release d h) ?f"
        by (simp add: r data_ext_def split: option.split)
      ultimately show ?thesis using fin h by (blast intro: data_ext_trans)
    qed
  qed
qed

section \<open>Acquiring references\<close>

definition ref_add :: "(nat \<Rightarrow> nat) \<Rightarrow> nat \<Rightarrow> nat \<Rightarrow> nat" where
  "ref_add ext d = (if d = dispatch_data_empty then ext else ext(d := Suc (ext d)))"

definition ref_drop :: "(nat \<Rightarrow> nat) \<Rightarrow> nat \<Rightarrow> nat \<Rightarrow> nat" where
  "ref_drop ext d = (if d = dispatch_data_empty then ext else ext(d := ext d - 1))"

lemma ref_drop_add [simp]: "ref_drop (ref_add ext d) d = ext"
  by (simp add: ref_drop_def ref_add_def)

lemma ref_drop_add_other: "d \<noteq> d' \<Longrightarrow> ref_drop (ref_add ext d) d' = ref_add (ref_drop ext d') d"
  by (simp add: ref_drop_def ref_add_def fun_upd_twist)

lemma drop_reference_inv:
  assumes "data_inv h ext" "d = dispatch_data_empty \<or> 0 < ext d"
  shows "data_inv (dispatch_data_release d h) (ref_drop ext d) \<and> data_ext (dispatch_data_release d h) h"
proof (cases "d = dispatch_data_empty")
  case True
  then have "dispatch_data_release d h = h"
    by (simp add: dispatch_data_release_def numeral_2_eq_2 data_release.simps(2))
  then show ?thesis using assms(1) True by (simp add: ref_drop_def)
next
  case False
  then show ?thesis using release_ok [OF assms(1) _ False] assms(2) by (simp add: ref_drop_def)
qed

lemma retain_reference_inv:
  assumes inv: "data_inv h ext" and o: "dh_obj h d = Some dd"
  shows "data_inv (dispatch_data_retain d h) (ref_add ext d)"
proof (cases "d = dispatch_data_empty")
  case True
  then show ?thesis using inv by (simp add: dispatch_data_retain_def ref_add_def)
next
  case False
  have refs: "heap_refs (dispatch_data_retain d h) = heap_refs h" by (rule heap_refs_cong) simp_all
  have "data_wf (dispatch_data_retain d h)" using inv o retain_wf by (simp add: data_inv_def)
  moreover have "ref_ok (dispatch_data_retain d h) (ref_add ext d) i" if "i \<noteq> dispatch_data_empty" for i
    using data_inv_ref [OF inv that] o False
    unfolding ref_ok_def refs retain_obj by (auto simp: ref_add_def dispatch_data_retain_def split: if_splits)
  ultimately show ?thesis by (rule data_invI)
qed

lemma retain_records_ref:
  "i \<noteq> dispatch_data_empty \<Longrightarrow>
    dh_ref (dispatch_data_retain_records rs h) i = dh_ref h i + record_refs rs i"
  by (induction rs arbitrary: h) (auto simp: dispatch_data_retain_records_def dispatch_data_retain_def)

lemma dead_refs:
  assumes "data_inv h ext" "dh_obj h d = None"
  shows "d \<noteq> dispatch_data_empty" "ext d = 0" "heap_refs h d = 0"
proof -
  show d: "d \<noteq> dispatch_data_empty" using assms by (auto simp: data_inv_def data_wf_def)
  show "ext d = 0" "heap_refs h d = 0" using data_inv_ref [OF assms(1) d] assms(2) by (simp_all add: ref_ok_def)
qed

text \<open>A new object holds one reference to the object of each of its records.\<close>

lemma new_object_inv:
  assumes inv: "data_inv h ext" and wf: "data_wf h'" and d: "d = dh_next h"
    and h': "dh_obj h' = (dh_obj h)(d \<mapsto> dd)" "dh_next h' = Suc d" "dh_ref h' d = 1"
    and refs: "\<And>i. i \<noteq> d \<Longrightarrow> i \<noteq> dispatch_data_empty \<Longrightarrow> dh_ref h' i = dh_ref h i + record_refs (dd_records dd) i"
    and rs: "\<forall>r \<in> set (dd_records dd). dh_obj h (data_object r) \<noteq> None"
  shows "data_inv h' (ref_add ext d)"
proof -
  have new: "dh_obj h d = None" using inv d by (simp add: data_inv_def data_wf_def)
  note dead = dead_refs [OF inv new]
  have hr: "heap_refs h' i = heap_refs h i + record_refs (dd_records dd) i" for i
    by (simp add: heap_refs_def h' d)
  have z: "record_refs (dd_records dd) i = 0" if "dh_obj h i = None" for i
    using rs that by (auto simp: record_refs_def count_list_0_iff)
  have "ref_ok h' (ref_add ext d) i" if i: "i \<noteq> dispatch_data_empty" for i
  proof (cases "i = d")
    case True
    then show ?thesis using dead h' hr [of d] z [OF new] by (simp add: ref_ok_def ref_add_def)
  next
    case False
    with data_inv_ref [OF inv i] hr [of i] refs [OF False i] z [of i] dead(1) show ?thesis
      by (auto simp: ref_ok_def h'(1) ref_add_def split: if_splits)
  qed
  then show ?thesis using wf by (intro data_invI)
qed

lemma alloc_fields:
  assumes "dispatch_data_alloc n x dd h = Inr (d, h')"
  shows "d = dh_next h" "dh_obj h' = (dh_obj h)(d \<mapsto> dd)" "dh_next h' = Suc d" "dh_ref h' = (dh_ref h)(d := 1)"
  using assms by (auto simp: dispatch_data_alloc_def split: option.splits)

lemma alloc_leaf_inv:
  assumes inv: "data_inv h ext" and dd: "leaf_ok dd" and a: "dispatch_data_alloc n x dd h = Inr (d, h')"
  shows "data_inv h' (ref_add ext d) \<and> data_ext h h' \<and> dh_obj h' d = Some dd"
proof -
  have wf: "data_wf h" using inv by (simp add: data_inv_def)
  have 1: "data_wf h'" "data_ext h h'" "dh_obj h' d = Some dd" using alloc_wf [OF wf _ a] dd by auto
  note f = alloc_fields [OF a]
  have rs: "dd_records dd = []" using dd by (simp add: leaf_ok_def)
  have "data_inv h' (ref_add ext d)"
    by (rule new_object_inv [OF inv 1(1) f(1,2,3)]) (simp_all add: f rs)
  with 1 show ?thesis by simp
qed

lemma alloc_composite_inv:
  assumes inv: "data_inv h ext" and dd: "composite_ok h dd"
    and a: "dispatch_data_alloc n x dd h = Inr (d, h1)"
  shows "data_inv (dispatch_data_retain_records (dd_records dd) h1) (ref_add ext d)"
proof -
  let ?h = "dispatch_data_retain_records (dd_records dd) h1"
  have wf: "data_wf h" using inv by (simp add: data_inv_def)
  have "data_wf h1" using alloc_wf [OF wf _ a] dd by auto
  then have 1: "data_wf ?h" using data_wf_cong [of ?h h1] by simp
  note f = alloc_fields [OF a]
  have new: "dh_obj h d = None" using wf f(1) by (simp add: data_wf_def)
  have live: "\<forall>r \<in> set (dd_records dd). dh_obj h (data_object r) \<noteq> None"
    using dd by (auto simp: composite_ok_def rec_ok_def)
  then have z: "record_refs (dd_records dd) d = 0"
    using new by (auto simp: record_refs_def count_list_0_iff)
  show ?thesis
    by (rule new_object_inv [OF inv 1 f(1)]) (use f live z dead_refs(1) [OF inv new] in \<open>auto simp: retain_records_ref\<close>)
qed

end
