(* ===== verification/Data_Source.thy ===== *)
theory Data_Source
  imports Dispatch_Prelude
begin

text \<open>
  The interface between data objects and the code that reads them: a traversal calls a function
  on consecutive regions until it answers false, and a slice copies bytes out of the middle. The
  clients (the transforms) are verified against these laws; \<open>Data_Ops\<close> and \<open>Transform\<close> prove them
  for \<open>dispatch_data_apply\<close> and \<open>_dispatch_data_subrange_map\<close>.
\<close>

text \<open>Regions are triples of the object, the offset in the data and the bytes.\<close>

fun run_applier :: "('s \<Rightarrow> nat \<Rightarrow> nat \<Rightarrow> u8 list \<Rightarrow> bool \<times> 's) \<Rightarrow> 's \<Rightarrow> (nat \<times> nat \<times> u8 list) list \<Rightarrow> bool \<times> 's" where
  "run_applier f s [] = (True, s)"
| "run_applier f s ((d, off, bytes) # rest) =
     (case f s d off bytes of (result, s) \<Rightarrow> if result then run_applier f s rest else (False, s))"

fun regions_contiguous :: "nat \<Rightarrow> (nat \<times> nat \<times> u8 list) list \<Rightarrow> bool" where
  "regions_contiguous off [] = True"
| "regions_contiguous off ((d, off', bytes) # rest) =
     (off' = off \<and> bytes \<noteq> [] \<and> regions_contiguous (off + length bytes) rest)"

fun regions_bytes :: "(nat \<times> nat \<times> u8 list) list \<Rightarrow> u8 list" where
  "regions_bytes [] = []"
| "regions_bytes ((d, off, bytes) # rest) = bytes @ regions_bytes rest"

lemma run_applier_invariant:
  assumes "regions_contiguous (length xs) rs" "P xs s"
    and step: "\<And>xs s d bytes ys. whole = xs @ bytes @ ys \<Longrightarrow> (d, length xs, bytes) \<in> set rs \<Longrightarrow> bytes \<noteq> [] \<Longrightarrow> P xs s \<Longrightarrow>
      (if fst (f s d (length xs) bytes) then P (xs @ bytes) (snd (f s d (length xs) bytes))
       else Q (snd (f s d (length xs) bytes)))"
    and whole: "whole = xs @ regions_bytes rs"
  shows "if fst (run_applier f s rs) then P whole (snd (run_applier f s rs)) else Q (snd (run_applier f s rs))"
  using assms
proof (induction rs arbitrary: xs s)
  case (Cons r rs)
  obtain d bytes where r: "r = (d, length xs, bytes)" and ne: "bytes \<noteq> []"
    and rs: "regions_contiguous (length (xs @ bytes)) rs"
    using Cons.prems(1) by (cases r) auto
  obtain b s' where f: "f s d (length xs) bytes = (b, s')" by fastforce
  have "if b then P (xs @ bytes) s' else Q s'"
    using Cons.prems(3) [of xs bytes "regions_bytes rs" d s] Cons.prems(2,4) f ne by (simp add: r split: if_splits)
  moreover have "b \<Longrightarrow> P (xs @ bytes) s' \<Longrightarrow> if fst (run_applier f s' rs) then P whole (snd (run_applier f s' rs))
      else Q (snd (run_applier f s' rs))"
    by (rule Cons.IH [of "xs @ bytes"]) (use rs Cons.prems(4) r in \<open>simp_all add: Cons.prems(3)\<close>)
  ultimately show ?case by (simp add: r f split: if_splits)
qed simp

locale data_source =
  fixes traverse :: "'d \<Rightarrow> ('s \<Rightarrow> nat \<Rightarrow> nat \<Rightarrow> u8 list \<Rightarrow> bool \<times> 's) \<Rightarrow> 's \<Rightarrow> 'e + bool \<times> 's"
    and regions :: "'d \<Rightarrow> (nat \<times> nat \<times> u8 list) list"
    and contents :: "'d \<Rightarrow> u8 list"
    and valid :: "'d \<Rightarrow> bool"
  assumes traverse_regions: "valid d \<Longrightarrow> traverse d f s = Inr (run_applier f s (regions d))"
    and regions_contents: "valid d \<Longrightarrow> regions_bytes (regions d) = contents d"
    and regions_order: "valid d \<Longrightarrow> regions_contiguous 0 (regions d)"
begin

text \<open>
  The rule for a traversal: \<open>P xs s\<close> relates the bytes visited so far to the state, \<open>Q\<close> holds
  of the state when the function gives up.
\<close>

lemma traverse_invariant:
  assumes "valid d" "P [] s"
    and "\<And>xs s region bytes ys. contents d = xs @ bytes @ ys \<Longrightarrow> (region, length xs, bytes) \<in> set (regions d) \<Longrightarrow>
      bytes \<noteq> [] \<Longrightarrow> P xs s \<Longrightarrow>
      (if fst (f s region (length xs) bytes) then P (xs @ bytes) (snd (f s region (length xs) bytes))
       else Q (snd (f s region (length xs) bytes)))"
  obtains s' where "traverse d f s = Inr (True, s')" "P (contents d) s'"
  | s' where "traverse d f s = Inr (False, s')" "Q s'"
proof -
  have "if fst (run_applier f s (regions d)) then P (contents d) (snd (run_applier f s (regions d)))
    else Q (snd (run_applier f s (regions d)))"
    by (rule run_applier_invariant [where xs = "[]"])
      (use assms regions_order [OF assms(1)] regions_contents [OF assms(1)] in simp_all)
  then show ?thesis
    using that traverse_regions [OF assms(1), of f s] by (cases "run_applier f s (regions d)") (auto split: if_splits)
qed

text \<open>A function that never gives up is run on all the bytes.\<close>

lemma traverse_total:
  assumes "valid d" "P [] s"
    and "\<And>xs s region bytes ys. contents d = xs @ bytes @ ys \<Longrightarrow> (region, length xs, bytes) \<in> set (regions d) \<Longrightarrow>
      bytes \<noteq> [] \<Longrightarrow> P xs s \<Longrightarrow> \<exists>s'. f s region (length xs) bytes = (True, s') \<and> P (xs @ bytes) s'"
  obtains s' where "traverse d f s = Inr (True, s')" "P (contents d) s'"
proof (rule traverse_invariant [OF assms(1), of P s f "\<lambda>_. False"])
  show "P [] s" by fact
  show "if fst (f s region (length xs) bytes) then P (xs @ bytes) (snd (f s region (length xs) bytes)) else False"
    if "contents d = xs @ bytes @ ys" "(region, length xs, bytes) \<in> set (regions d)" "bytes \<noteq> []" "P xs s"
    for xs s region bytes ys
    using assms(3) [OF that] by auto
qed (use that in auto)

end

locale data_slices = data_source traverse regions contents valid
  for traverse :: "'d \<Rightarrow> ('s \<Rightarrow> nat \<Rightarrow> nat \<Rightarrow> u8 list \<Rightarrow> bool \<times> 's) \<Rightarrow> 's \<Rightarrow> 'e + bool \<times> 's"
    and regions :: "'d \<Rightarrow> (nat \<times> nat \<times> u8 list) list"
    and contents :: "'d \<Rightarrow> u8 list"
    and valid :: "'d \<Rightarrow> bool" +
  fixes slice :: "'d \<Rightarrow> nat \<Rightarrow> nat \<Rightarrow> u8 list option"
  assumes slice_contents: "valid d \<Longrightarrow> 0 < n \<Longrightarrow> off + n \<le> length (contents d) \<Longrightarrow>
      slice d off n = Some (take n (drop off (contents d)))"
    and slice_outside: "valid d \<Longrightarrow> 0 < n \<Longrightarrow> length (contents d) < off + n \<Longrightarrow> slice d off n = None"
begin

text \<open>The byte before a region.\<close>

lemma slice_before:
  assumes "valid d" "contents d = xs @ bytes" "xs \<noteq> []"
  shows "slice d (length xs - 1) 1 = Some [last xs]"
proof -
  obtain ys y where xs: "xs = ys @ [y]" using assms(3) by (metis append_butlast_last_id)
  then show ?thesis using slice_contents [OF assms(1), of 1 "length ys"] assms(2) by simp
qed

end

end
