(* ===== verification/Data_Ops.thy ===== *)
theory Data_Ops
  imports Data_Refs Data_Source
begin

text \<open>
  What the operations of \<open>data.c\<close> do to the contents of data objects and to the references:
  concatenation, subranges, traversal, copying a region, mapping and flattening. Each lemma says
  which bytes the result holds, that older objects keep theirs, and that the caller gets exactly
  one new reference.
\<close>

section \<open>Results\<close>

definition data_result_ok ::
  "data_heap \<Rightarrow> (nat \<Rightarrow> nat) \<Rightarrow> u8 list \<Rightarrow> data_error + nat \<times> data_heap \<Rightarrow> bool" where
  "data_result_ok h ext bytes r = (case r of
     Inl e \<Rightarrow> False
   | Inr (d, h') \<Rightarrow> data_inv h' (ref_add ext d) \<and> data_ext h h' \<and> dh_obj h' d \<noteq> None
       \<and> data_bytes h' d = bytes)"

lemma inv_wf: "data_inv h ext \<Longrightarrow> data_wf h"
  by (simp add: data_inv_def)

lemma data_result_okI:
  "data_inv h' (ref_add ext d) \<Longrightarrow> data_ext h h' \<Longrightarrow> dh_obj h' d \<noteq> None \<Longrightarrow> data_bytes h' d = bytes \<Longrightarrow>
    data_result_ok h ext bytes (Inr (d, h'))"
  by (simp add: data_result_ok_def)

lemma retain_ok:
  assumes "data_inv h ext" "dh_obj h d = Some dd"
  shows "data_result_ok h ext (data_bytes h d) (Inr (d, dispatch_data_retain d h))"
  using retain_reference_inv [OF assms] retain_wf [OF inv_wf [OF assms(1)] assms(2)] assms(2)
  by (intro data_result_okI) simp_all

lemma empty_ok: "data_inv h ext \<Longrightarrow> data_result_ok h ext [] (Inr (dispatch_data_empty, h))"
  using empty_bytes [of h] by (auto simp: data_result_ok_def ref_add_def data_inv_def data_wf_def)

lemma alloc_leaf_ok:
  assumes inv: "data_inv h ext" and dd: "leaf_ok dd" and a: "dispatch_data_alloc n x dd h = Inr (d, h')"
  shows "data_result_ok h ext (case dd_buf dd of None \<Rightarrow> [] | Some b \<Rightarrow> b) (Inr (d, h'))"
  using alloc_leaf_inv [OF inv dd a] dd
  by (intro data_result_okI) (simp_all add: data_bytes_def leaf_bytes_def leaf_ok_def dispatch_data_leaf_def)

lemma alloc_composite_ok:
  assumes inv: "data_inv h ext" and rs: "rs \<noteq> []" "\<forall>r \<in> set rs. rec_ok h r" "records_fit (length rs)"
    and len: "len = sum_list (map rec_length rs)" "len < SIZE_MOD"
  shows "data_result_ok h ext (records_bytes h rs) (data_alloc_composite len rs h)"
proof -
  let ?dd = "\<lparr>dd_buf = None, dd_destructor = DESTRUCTOR_DEFAULT, dd_size = len, dd_records = rs, dd_queue = None\<rparr>"
  obtain d h1 where a: "dispatch_data_alloc (length rs) 0 ?dd h = Inr (d, h1)"
    using rs(3) by (rule alloc_records)
  let ?h = "dispatch_data_retain_records rs h1"
  have r: "data_alloc_composite len rs h = Inr (d, ?h)" using a by (simp add: data_alloc_composite_def)
  have c: "composite_ok h ?dd" using rs len by (simp add: composite_ok_def)
  note s = alloc_composite_spec [OF inv_wf [OF inv] rs len r]
  have "dh_obj ?h d = Some ?dd" using alloc_fields(1,2) [OF a] by simp
  moreover have "data_inv ?h (ref_add ext d)" using alloc_composite_inv [OF inv c a] by simp
  ultimately show ?thesis using s r by (simp add: data_result_ok_def)
qed

section \<open>Concatenation\<close>

lemma records_of_ok:
  assumes "data_wf h" "dh_obj h d = Some dd" "dd_size dd \<noteq> 0"
  shows "data_records_of d dd \<noteq> []" "\<forall>r \<in> set (data_records_of d dd). rec_ok h r"
    "sum_list (map rec_length (data_records_of d dd)) = dd_size dd"
    "records_bytes h (data_records_of d dd) = data_bytes h d"
    "length (data_records_of d dd) = dispatch_data_num_records dd"
proof -
  from assms(1,2) have "data_records_of d dd \<noteq> [] \<and> (\<forall>r \<in> set (data_records_of d dd). rec_ok h r)
    \<and> sum_list (map rec_length (data_records_of d dd)) = dd_size dd
    \<and> records_bytes h (data_records_of d dd) = data_bytes h d
    \<and> length (data_records_of d dd) = dispatch_data_num_records dd"
  proof (cases rule: data_wf_cases)
    case leaf
    then have "length (leaf_bytes h d) = dd_size dd" using assms(2) by (simp add: length_leaf_bytes)
    with leaf assms show ?thesis
      by (auto simp: data_records_of_def rec_ok_def rec_bytes_def dispatch_data_num_records_def
          dispatch_data_leaf_def)
  next
    case composite
    then show ?thesis
      by (auto simp: data_records_of_def composite_ok_def dispatch_data_num_records_def
          dispatch_data_leaf_def)
  qed
  then show "data_records_of d dd \<noteq> []" "\<forall>r \<in> set (data_records_of d dd). rec_ok h r"
    "sum_list (map rec_length (data_records_of d dd)) = dd_size dd"
    "records_bytes h (data_records_of d dd) = data_bytes h d"
    "length (data_records_of d dd) = dispatch_data_num_records dd" by auto
qed

lemma concat_ok:
  assumes inv: "data_inv h ext" and o: "dh_obj h d1 = Some dd1" "dh_obj h d2 = Some dd2"
    and sz: "dd_size dd1 + dd_size dd2 < SIZE_MOD"
    and fit: "records_fit (dispatch_data_num_records dd1 + dispatch_data_num_records dd2)"
  shows "data_result_ok h ext (data_bytes h d1 @ data_bytes h d2) (dispatch_data_create_concat d1 d2 h)"
proof -
  note wf = inv_wf [OF inv]
  show ?thesis
  proof (cases "dd_size dd1 = 0 \<or> dd_size dd2 = 0")
    case True
    with length_data_bytes [OF wf o(1)] length_data_bytes [OF wf o(2)] o
      retain_ok [OF inv o(1)] retain_ok [OF inv o(2)]
    show ?thesis by (auto simp: dispatch_data_create_concat_def)
  next
    case False
    note r1 = records_of_ok [OF wf o(1)] and r2 = records_of_ok [OF wf o(2)]
    let ?rs = "data_records_of d1 dd1 @ data_records_of d2 dd2"
    have "data_result_ok h ext (records_bytes h ?rs) (data_alloc_composite (dd_size dd1 + dd_size dd2) ?rs h)"
      using r1 r2 False sz fit by (intro alloc_composite_ok [OF inv]) (auto simp: ball_Un)
    moreover have "\<not> SIZE_MOD \<le> dispatch_data_num_records dd1 + dispatch_data_num_records dd2"
      using fit by (auto simp: records_fit_def sizeof_range_record_def)
    then have "dispatch_data_create_concat d1 d2 h = data_alloc_composite (dd_size dd1 + dd_size dd2) ?rs h"
      using False o sz r1(5) r2(5)
      by (simp add: dispatch_data_create_concat_def data_alloc_composite_def Let_def)
    moreover have "records_bytes h ?rs = data_bytes h d1 @ data_bytes h d2" using r1(4) r2(4) False by simp
    ultimately show ?thesis by simp
  qed
qed

text \<open>
  C26. The concatenation of two data objects holds the bytes of the first followed by those of
  the second, keeps the heap one level deep and its reference counts exact, gives the caller one
  new reference and leaves older objects as they were, provided the sum of the sizes fits a
  size_t, which the code does not check.
\<close>
theorem concat_appends:
  assumes "data_inv h ext" "dh_obj h d1 = Some dd1" "dh_obj h d2 = Some dd2"
    and "dd_size dd1 + dd_size dd2 < SIZE_MOD"
    and "records_fit (dispatch_data_num_records dd1 + dispatch_data_num_records dd2)"
  shows "\<exists>d h'. dispatch_data_create_concat d1 d2 h = Inr (d, h') \<and> data_inv h' (ref_add ext d)
    \<and> data_ext h h' \<and> data_bytes h' d = data_bytes h d1 @ data_bytes h d2"
  using concat_ok [OF assms] by (auto simp: data_result_ok_def split: sum.splits)

section \<open>Subranges\<close>

lemma skip_records_spec:
  "data_skip_records off rs = (off', rest) \<Longrightarrow> \<forall>r \<in> set rs. rec_ok h r \<Longrightarrow>
    (\<forall>r \<in> set rest. rec_ok h r) \<and> length rest \<le> length rs
    \<and> drop off (records_bytes h rs) = drop off' (records_bytes h rest)
    \<and> (off < sum_list (map rec_length rs) \<longrightarrow> rest \<noteq> [])
    \<and> (rest \<noteq> [] \<longrightarrow> off' < rec_length (hd rest))
    \<and> sum_list (map rec_length rs) - off = sum_list (map rec_length rest) - off'"
proof (induction off rs rule: data_skip_records.induct)
  case (2 off r rs)
  have len: "length (rec_bytes h r) = rec_length r" using 2 by (simp add: length_rec_bytes)
  show ?case
  proof (cases "rec_length r \<le> off")
    case True
    then have "(\<forall>r \<in> set rest. rec_ok h r) \<and> length rest \<le> length rs
      \<and> drop (off - rec_length r) (records_bytes h rs) = drop off' (records_bytes h rest)
      \<and> (off - rec_length r < sum_list (map rec_length rs) \<longrightarrow> rest \<noteq> [])
      \<and> (rest \<noteq> [] \<longrightarrow> off' < rec_length (hd rest))
      \<and> sum_list (map rec_length rs) - (off - rec_length r) = sum_list (map rec_length rest) - off'"
      using 2 by simp
    with True len show ?thesis by auto
  next
    case False
    with 2 show ?thesis by auto
  qed
qed auto

lemma count_records_spec:
  assumes "0 < m" "m \<le> sum_list (map rec_length rs)" "\<forall>r \<in> set rs. rec_ok h r"
  shows "\<exists>k. k \<noteq> 0 \<and> k \<le> length rs \<and> (\<exists>m'. data_count_records count m rs = Inr (count + k, m') \<and>
    0 < m' \<and> m' \<le> rec_length (rs ! (k - 1)) \<and>
    m = sum_list (map rec_length (take (k - 1) rs)) + m')"
  using assms
proof (induction count m rs rule: data_count_records.induct)
  case (2 count m r rs)
  show ?case
  proof (cases "m \<le> rec_length r")
    case True
    with 2 show ?thesis by (intro exI [of _ 1]) auto
  next
    case False
    then have "0 < m - rec_length r" "m - rec_length r \<le> sum_list (map rec_length rs)"
      using 2 by auto
    moreover from this have "rs \<noteq> []" by auto
    ultimately have "\<exists>k. k \<noteq> 0 \<and> k \<le> length rs \<and>
      (\<exists>m'. data_count_records (count + 1) (m - rec_length r) rs = Inr (count + 1 + k, m') \<and>
        0 < m' \<and> m' \<le> rec_length (rs ! (k - 1)) \<and>
        m - rec_length r = sum_list (map rec_length (take (k - 1) rs)) + m')"
      using 2 False by simp
    then obtain k m' where k: "k \<noteq> 0" "k \<le> length rs"
      "data_count_records (count + 1) (m - rec_length r) rs = Inr (count + 1 + k, m')"
      "0 < m'" "m' \<le> rec_length (rs ! (k - 1))"
      "m - rec_length r = sum_list (map rec_length (take (k - 1) rs)) + m'"
      by blast
    then show ?thesis using False \<open>rs \<noteq> []\<close>
      by (intro exI [of _ "Suc k"]) (auto simp: Let_def take_Cons' nth_Cons')
  qed
qed simp

lemma trim_first_Cons:
  assumes "off < rec_length r"
  shows "data_trim_first off (r # rs)
    = r\<lparr>rec_from := rec_from r + off, rec_length := rec_length r - off\<rparr> # rs"
  using assms by (cases r) (simp add: data_trim_first_def)

lemma trim_last_snoc: "data_trim_last m (xs @ [x]) = xs @ [x\<lparr>rec_length := m\<rparr>]"
  by (simp add: data_trim_last_def nth_append list_update_append)

lemma rec_drop:
  assumes "rec_ok h r" "off < rec_length r"
  defines "r' \<equiv> r\<lparr>rec_from := rec_from r + off, rec_length := rec_length r - off\<rparr>"
  shows "rec_ok h r'" "rec_bytes h r' = drop off (rec_bytes h r)"
  using assms by (auto simp: rec_ok_def rec_bytes_def drop_take add.commute)

lemma rec_take:
  assumes "rec_ok h r" "0 < m" "m \<le> rec_length r"
  shows "rec_ok h (r\<lparr>rec_length := m\<rparr>)" "rec_bytes h (r\<lparr>rec_length := m\<rparr>) = take m (rec_bytes h r)"
  using assms by (auto simp: rec_ok_def rec_bytes_def min_def)

lemma leaf_subrange:
  assumes inv: "data_inv h ext" and o: "dh_obj h d = Some dd" and l: "leaf_ok dd"
  shows "data_result_ok h ext (take len (drop off (leaf_bytes h d))) (data_create_subrange (Suc fuel) d off len h)"
proof -
  have lb: "length (leaf_bytes h d) = dd_size dd" "data_bytes h d = leaf_bytes h d"
    using o l by (auto simp: length_leaf_bytes data_bytes_def leaf_ok_def dispatch_data_leaf_def)
  consider "dd_size dd \<le> off \<or> len = 0" | "\<not> (dd_size dd \<le> off \<or> len = 0)" "len \<le> dd_size dd - off" "len = dd_size dd"
    | "\<not> (dd_size dd \<le> off \<or> len = 0)" "\<not> (len \<le> dd_size dd - off \<and> len = dd_size dd)" by blast
  then show ?thesis
  proof cases
    case 1
    then show ?thesis using o lb empty_ok [OF inv] by auto
  next
    case 2
    then have "off = 0" using lb by auto
    then show ?thesis using 2 o lb retain_ok [OF inv o] by simp
  next
    case 3
    let ?len = "if dd_size dd - off < len then dd_size dd - off else len"
    let ?r = "\<lparr>data_object = d, rec_from = off, rec_length = ?len\<rparr>"
    have r: "rec_ok h ?r" using 3(1) o l by (auto simp: rec_ok_def)
    have "?len < SIZE_MOD" using l 3(1) by (auto simp: leaf_ok_def)
    from alloc_composite_ok [OF inv _ _ _ _ this, of "[?r]"] r
    have "data_result_ok h ext (rec_bytes h ?r) (data_alloc_composite ?len [?r] h)" by simp
    moreover have "rec_bytes h ?r = take len (drop off (leaf_bytes h d))"
      using lb by (simp add: rec_bytes_def)
    moreover have "data_create_subrange (Suc fuel) d off len h = data_alloc_composite ?len [?r] h"
      using 3 o l by (auto simp: leaf_ok_def dispatch_data_leaf_def Let_def)
    ultimately show ?thesis by simp
  qed
qed


lemma sum_list_nth: "k \<noteq> 0 \<Longrightarrow> k \<le> length xs \<Longrightarrow> take k xs = take (k - 1) xs @ [xs ! (k - 1)]"
  by (cases k) (simp_all add: take_Suc_conv_app_nth)

text \<open>The composite case of \<open>dispatch_data_create_subrange\<close> once the first record is found.\<close>

lemma middle_subrange:
  assumes inv: "data_inv h ext" and rs: "\<forall>x \<in> set (r # rs). rec_ok h x" and off: "off < rec_length r"
    and fit: "records_fit (length (r # rs))"
    and len: "rec_length r < off + len" "len < SIZE_MOD"
      "off + len \<le> sum_list (map rec_length (r # rs))"
    and c: "data_count_records 1 (len - (rec_length r - off)) rs = Inr (count, m)"
  shows "data_result_ok h ext (take len (drop off (records_bytes h (r # rs))))
    (data_alloc_composite len (data_trim_last m (data_trim_first off (take count (r # rs)))) h)"
proof -
  let ?m = "len - (rec_length r - off)"
  have "0 < ?m" "?m \<le> sum_list (map rec_length rs)" using off len by auto
  from count_records_spec [OF this, of h 1] rs c obtain k where
    k: "k \<noteq> 0" "k \<le> length rs" "count = 1 + k" "0 < m" "m \<le> rec_length (rs ! (k - 1))"
      "?m = sum_list (map rec_length (take (k - 1) rs)) + m"
    by auto
  let ?x = "rs ! (k - 1)" and ?mid = "take (k - 1) rs"
  let ?r = "r\<lparr>rec_from := rec_from r + off, rec_length := rec_length r - off\<rparr>"
  have take: "take k rs = ?mid @ [?x]" using k by (intro sum_list_nth)
  have recs: "data_trim_last m (data_trim_first off (take count (r # rs)))
      = ?r # ?mid @ [?x\<lparr>rec_length := m\<rparr>]"
    using k(3) trim_first_Cons [OF off] trim_last_snoc [of m "?r # ?mid" ?x] by (simp add: take)
  have x: "rec_ok h ?x" using rs k by (simp add: nth_mem)
  note rx = rec_take [OF x k(4,5)]
  have ok: "\<forall>y \<in> set (?r # ?mid @ [?x\<lparr>rec_length := m\<rparr>]). rec_ok h y"
    using rs rec_drop(1) [of h r off] off rx(1) by (auto dest: in_set_takeD)
  have sum: "len = sum_list (map rec_length (?r # ?mid @ [?x\<lparr>rec_length := m\<rparr>]))"
    using k(6) off len by simp
  have "rs = ?mid @ ?x # drop k rs"
    using take append_take_drop_id [of k rs] by simp
  then have bytes: "records_bytes h rs = records_bytes h ?mid @ rec_bytes h ?x @ records_bytes h (drop k rs)"
    by (metis records_bytes_simps(2,3))
  have lm: "length (records_bytes h ?mid) = sum_list (map rec_length ?mid)"
    using rs by (intro length_records_bytes) (auto dest: in_set_takeD)
  have lr: "length (rec_bytes h r) = rec_length r" "length (rec_bytes h ?x) = rec_length ?x"
    using rs x by (simp_all add: length_rec_bytes)
  have "take len (drop off (records_bytes h (r # rs)))
      = drop off (rec_bytes h r) @ take ?m (records_bytes h rs)"
    using off len lr by simp
  also have "take ?m (records_bytes h rs) = records_bytes h ?mid @ take m (rec_bytes h ?x)"
    using k lm lr by (simp add: bytes)
  finally have "take len (drop off (records_bytes h (r # rs)))
      = records_bytes h (?r # ?mid @ [?x\<lparr>rec_length := m\<rparr>])"
    using rs off rx(2) rec_drop(2) [of h r off] by simp
  moreover have "records_fit (length (?r # ?mid @ [?x\<lparr>rec_length := m\<rparr>]))"
    by (rule records_fit_mono [OF fit]) (use k in simp)
  ultimately show ?thesis unfolding recs using alloc_composite_ok [OF inv _ ok _ sum len(2)] by simp
qed

declare data_create_subrange.simps(2) [simp del]

lemma take_drop_append: "m + n \<le> length xs \<Longrightarrow> take n (drop m (xs @ ys)) = take n (drop m xs)"
  by simp

lemma composite_subrange:
  assumes inv: "data_inv h ext" and o: "dh_obj h d = Some dd" and c: "composite_ok h dd"
    and off: "off < dd_size dd" and arg: "arg \<noteq> 0" "\<not> (\<not> dd_size dd - off < arg \<and> arg = dd_size dd)"
  shows "data_result_ok h ext (take arg (drop off (records_bytes h (dd_records dd))))
    (data_create_subrange (Suc (Suc fuel)) d off arg h)"
proof -
  define len where "len = (if dd_size dd - off < arg then dd_size dd - off else arg)"
  have len: "0 < len" "len \<le> dd_size dd - off" using off arg by (auto simp: len_def)
  let ?rs = "dd_records dd"
  have rs: "\<forall>r \<in> set ?rs. rec_ok h r" and tot: "dd_size dd = sum_list (map rec_length ?rs)"
    and lt: "dd_size dd < SIZE_MOD" and nl: "\<not> dispatch_data_leaf dd"
    using c by (auto simp: composite_ok_def dispatch_data_leaf_def)
  obtain off' rest where skip: "data_skip_records off ?rs = (off', rest)" by (cases "data_skip_records off ?rs")
  note sk = skip_records_spec [OF skip rs]
  then obtain r rs' where rest: "rest = r # rs'" "off' < rec_length r"
    using off tot by (cases rest) auto
  have "records_fit (length ?rs)" using c by (simp add: composite_ok_def)
  then have fit: "records_fit (length (r # rs'))"
    using sk [THEN conjunct2, THEN conjunct1] unfolding rest(1) by (rule records_fit_mono)
  have rok: "\<forall>x \<in> set (r # rs'). rec_ok h x" "sum_list (map rec_length (r # rs')) - off' = dd_size dd - off"
    "drop off (records_bytes h ?rs) = drop off' (records_bytes h (r # rs'))"
    using sk rest tot by auto
  have r: "rec_ok h r" using rok(1) by simp
  have "length (records_bytes h ?rs) = dd_size dd" using length_records_bytes [OF rs] tot by simp
  then have cut: "take arg (drop off (records_bytes h ?rs)) = take len (drop off (records_bytes h ?rs))"
    by (simp add: len_def)
  have step: "data_create_subrange (Suc (Suc fuel)) d off arg h =
    (if off' + len \<le> rec_length r then data_create_subrange (Suc fuel) (data_object r) (rec_from r + off') len h
     else if off + len = dd_size dd then data_alloc_composite len (data_trim_first off' (r # rs')) h
     else case data_count_records 1 (len - (rec_length r - off')) rs' of Inl e \<Rightarrow> Inl e
        | Inr (count, m) \<Rightarrow> data_alloc_composite len (data_trim_last m (data_trim_first off' (take count (r # rs')))) h)"
  proof -
    have "\<not> (dd_size dd \<le> off \<or> arg = 0)" using off arg by simp
    then show ?thesis
      by (subst data_create_subrange.simps(2)) (simp only: o option.case if_not_P [OF arg(2)]
          if_not_P len_def [symmetric] Let_def nl if_False skip prod.case list.case rest(1))
  qed
  have goal: "data_result_ok h ext (take arg (drop off (records_bytes h ?rs))) R"
    if "data_result_ok h ext bs R" "bs = take len (drop off' (records_bytes h (r # rs')))" for bs R
    by (subst cut, subst rok(3)) (use that in simp)
  consider (single) "off' + len \<le> rec_length r"
    | (tail) "\<not> off' + len \<le> rec_length r" "off + len = dd_size dd"
    | (middle) "\<not> off' + len \<le> rec_length r" "off + len \<noteq> dd_size dd" by blast
  then show ?thesis
  proof cases
    case single
    obtain ld where ld: "dh_obj h (data_object r) = Some ld" "leaf_ok ld" using r by (rule leaf_of_rec)
    have "take len (drop (rec_from r + off') (leaf_bytes h (data_object r)))
        = take len (drop off' (records_bytes h (r # rs')))"
      using single length_rec_bytes [OF r]
      by (simp add: take_drop_append) (simp add: rec_bytes_def drop_take add.commute min_absorb1)
    from goal [OF leaf_subrange [OF inv ld] this] single show ?thesis by (simp only: step if_True)
  next
    case tail
    let ?r = "r\<lparr>rec_from := rec_from r + off', rec_length := rec_length r - off'\<rparr>"
    have sum: "len = sum_list (map rec_length (?r # rs'))" using tail(2) rok(2) rest(2) len(2) by simp
    have bytes: "records_bytes h (?r # rs') = take len (drop off' (records_bytes h (r # rs')))"
      using rec_drop(2) [OF r rest(2)] length_rec_bytes [OF r] rest(2) rok(1) sum
        length_records_bytes [of rs' h] by simp
    have "\<forall>x \<in> set (?r # rs'). rec_ok h x" using rec_drop(1) [OF r rest(2)] rok(1) by simp
    moreover have "len < SIZE_MOD" using len lt by simp
    ultimately have "data_result_ok h ext (records_bytes h (?r # rs')) (data_alloc_composite len (?r # rs') h)"
      using sum fit by (intro alloc_composite_ok [OF inv]) simp_all
    from goal [OF this bytes] show ?thesis
      by (simp only: step if_not_P [OF tail(1)] if_P [OF tail(2)] trim_first_Cons [OF rest(2)])
  next
    case middle
    have m: "rec_length r < off' + len" "len < SIZE_MOD" "off' + len \<le> sum_list (map rec_length (r # rs'))"
      using middle(1) len lt rok(2) off by auto
    have "0 < len - (rec_length r - off')" "len - (rec_length r - off') \<le> sum_list (map rec_length rs')"
      using m rest(2) by auto
    from count_records_spec [OF this, of h 1] rok(1) obtain count l where
      c: "data_count_records 1 (len - (rec_length r - off')) rs' = Inr (count, l)" by auto
    from goal [OF middle_subrange [OF inv rok(1) rest(2) fit m c] refl] show ?thesis
      by (simp only: step if_not_P [OF middle(1)] if_not_P [OF middle(2)] c sum.case prod.case)
  qed
qed

lemma subrange_ok:
  assumes inv: "data_inv h ext" and o: "dh_obj h d = Some dd"
  shows "data_result_ok h ext (take len (drop off (data_bytes h d))) (dispatch_data_create_subrange d off len h)"
proof -
  have "data_result_ok h ext (take len (drop off (data_bytes h d))) (data_create_subrange 2 d off len h)"
    using inv_wf [OF inv] o
  proof (cases rule: data_wf_cases)
    case leaf
    then show ?thesis using leaf_subrange [OF inv o leaf(1)] by (simp add: numeral_2_eq_2)
  next
    case composite
    have lb: "length (data_bytes h d) = dd_size dd" using inv_wf [OF inv] o by (rule length_data_bytes)
    consider "dd_size dd \<le> off \<or> len = 0" | "\<not> dd_size dd - off < len \<and> len = dd_size dd" "off < dd_size dd" "len \<noteq> 0"
      | "off < dd_size dd" "len \<noteq> 0" "\<not> (\<not> dd_size dd - off < len \<and> len = dd_size dd)" by linarith
    then show ?thesis
    proof cases
      case 1
      then have "data_create_subrange 2 d off len h = Inr (dispatch_data_empty, h)"
        and "take len (drop off (data_bytes h d)) = []"
        using o lb by (auto simp: data_create_subrange.simps(2) numeral_2_eq_2)
      then show ?thesis using empty_ok [OF inv] by (simp only:)
    next
      case 2
      then have "off = 0" by linarith
      with 2 have "data_create_subrange 2 d off len h = Inr (d, dispatch_data_retain d h)"
        and "take len (drop off (data_bytes h d)) = data_bytes h d"
        using o lb by (auto simp: data_create_subrange.simps(2) numeral_2_eq_2)
      then show ?thesis using retain_ok [OF inv o] by (simp only:)
    next
      case 3
      then show ?thesis using composite_subrange [OF inv o composite(1) 3] composite(3)
        by (simp add: numeral_2_eq_2)
    qed
  qed
  then show ?thesis by (simp add: dispatch_data_create_subrange_def)
qed

text \<open>
  C25. On a well-formed heap a subrange of a data object, however fragmented, is a data object
  with the bytes take len (drop offset bytes), clipped at the end like the code; the heap and
  its reference counts stay consistent, the caller gets one new reference, older objects keep
  their contents, the recursion depth 2 is enough and the only possible failure is running out
  of memory.
\<close>
theorem subrange_takes_and_drops:
  assumes "data_inv h ext" "dh_obj h d = Some dd"
  shows "\<exists>d' h'. dispatch_data_create_subrange d off len h = Inr (d', h') \<and> data_inv h' (ref_add ext d')
    \<and> data_ext h h' \<and> data_bytes h' d' = take len (drop off (data_bytes h d))"
  using subrange_ok [OF assms, of len off] by (auto simp: data_result_ok_def split: sum.splits)

section \<open>Mapping and applying\<close>

lemma map_direct_cases:
  assumes wf: "data_wf h" and o: "dh_obj h d = Some dd" and sz: "dd_size dd \<noteq> 0"
  obtains (leaf) "leaf_ok dd"
      "dispatch_data_map_direct d off h = Inr (Some (drop off (data_bytes h d)), d, off)"
  | (trivial) r where "dd_records dd = [r]" "rec_ok h r" "data_bytes h d = rec_bytes h r"
      "dd_size dd = rec_length r"
      "dispatch_data_map_direct d off h = Inr (Some (drop (off + rec_from r) (leaf_bytes h (data_object r))),
         data_object r, off + rec_from r)"
  | (flat) "composite_ok h dd" "1 < length (dd_records dd)"
      "dispatch_data_map_direct d off h = Inr (Some (drop off (data_bytes h d)), d, off)"
  | (spread) "composite_ok h dd" "1 < length (dd_records dd)"
      "dispatch_data_map_direct d off h = Inr (None, d, off)"
  using wf o
proof (cases rule: data_wf_cases)
  case leaf
  then obtain b where b: "dd_buf dd = Some b" using sz by (auto simp: leaf_ok_def split: option.splits)
  then have "data_bytes h d = b" using leaf(3) o by (simp add: leaf_bytes_def)
  with that(1) leaf b o sz show ?thesis by (simp add: dispatch_data_map_direct_def)
next
  case composite
  show ?thesis
  proof (cases "length (dd_records dd) = 1")
    case True
    then obtain r where r: "dd_records dd = [r]" by (cases "dd_records dd") auto
    then have rok: "rec_ok h r" "dd_size dd = rec_length r" using composite by (simp_all add: composite_ok_def)
    obtain ld where ld: "dh_obj h (data_object r) = Some ld" "leaf_ok ld" using rok(1) by (rule leaf_of_rec)
    have "dd_size ld \<noteq> 0" using ld rok by (auto simp: rec_ok_def)
    then obtain b where b: "dd_buf ld = Some b" using ld(2) by (auto simp: leaf_ok_def split: option.splits)
    have "leaf_bytes h (data_object r) = b" using ld b by (simp add: leaf_bytes_def)
    then have "dispatch_data_map_direct d off h = Inr (Some (drop (off + rec_from r) (leaf_bytes h (data_object r))),
         data_object r, off + rec_from r)"
      using o ld b r sz composite(2)
      by (simp add: dispatch_data_map_direct_def dispatch_data_num_records_def Let_def)
    with that(2) r rok composite(3) show ?thesis by simp
  next
    case False
    then have l: "1 < length (dd_records dd)" using composite by (cases "dd_records dd") (auto simp: composite_ok_def)
    then have m: "dispatch_data_map_direct d off h = Inr (map_option (drop off) (dd_buf dd), d, off)"
      using o sz False by (auto simp: dispatch_data_map_direct_def dispatch_data_num_records_def Let_def)
    show ?thesis
    proof (cases "dd_buf dd")
      case None
      with m that(4) composite(1) l show ?thesis by simp
    next
      case (Some b)
      then have "b = data_bytes h d" using composite by (auto simp: composite_ok_def)
      with Some m that(3) composite(1) l show ?thesis by simp
    qed
  qed
qed

fun record_regions :: "data_heap \<Rightarrow> nat \<Rightarrow> range_record list \<Rightarrow> (nat \<times> nat \<times> u8 list) list" where
  "record_regions h off [] = []"
| "record_regions h off (r # rs) =
     (data_object r, off, rec_bytes h r) # record_regions h (off + rec_length r) rs"

text \<open>The regions a data object is traversed in: the object, the offset in the data, the bytes.\<close>

definition data_regions :: "data_heap \<Rightarrow> nat \<Rightarrow> (nat \<times> nat \<times> u8 list) list" where
  "data_regions h d = (case dispatch_data_map_direct d 0 h of
     Inl e \<Rightarrow> []
   | Inr (Some _, _, _) \<Rightarrow> [(d, 0, data_bytes h d)]
   | Inr (None, _, _) \<Rightarrow> (case dh_obj h d of None \<Rightarrow> [] | Some dd \<Rightarrow> record_regions h 0 (dd_records dd)))"

lemma record_regions_bytes:
  "regions_bytes (record_regions h off rs) = records_bytes h rs"
  by (induction rs arbitrary: off) simp_all

lemma record_regions_contiguous:
  "\<forall>r \<in> set rs. rec_ok h r \<Longrightarrow> regions_contiguous off (record_regions h off rs)"
proof (induction rs arbitrary: off)
  case (Cons r rs)
  then have "length (rec_bytes h r) = rec_length r" "0 < rec_length r"
    by (simp add: length_rec_bytes) (use Cons in \<open>auto simp: rec_ok_def\<close>)
  with Cons show ?case by auto
qed simp

lemma data_apply_leaf:
  assumes "data_wf h" "rec_ok h r"
  shows "data_apply (Suc fuel) (data_object r) off (rec_from r) (rec_length r) f s h
    = Inr (f s (data_object r) off (rec_bytes h r))"
proof -
  obtain ld where ld: "dh_obj h (data_object r) = Some ld" "leaf_ok ld" using assms(2) by (rule leaf_of_rec)
  have sz: "dd_size ld \<noteq> 0" using ld assms(2) by (auto simp: rec_ok_def)
  have "data_bytes h (data_object r) = leaf_bytes h (data_object r)"
    using ld by (simp add: data_bytes_def leaf_ok_def dispatch_data_leaf_def)
  then have "dispatch_data_map_direct (data_object r) 0 h
      = Inr (Some (leaf_bytes h (data_object r)), data_object r, 0)"
    using map_direct_cases [OF assms(1) ld(1) sz, where off = 0] ld(2)
    by (cases rule: map_direct_cases [OF assms(1) ld(1) sz, where off = 0])
      (auto simp: leaf_ok_def composite_ok_def)
  then show ?thesis by (simp add: rec_bytes_def)
qed

declare data_apply.simps(2) [simp del]

lemma apply_records_run:
  assumes "\<forall>r \<in> set rs. \<forall>off s. g r off s = Inr (f s (data_object r) off (rec_bytes h r))"
  shows "data_apply_records g rs off s = Inr (run_applier f s (record_regions h off rs))"
  using assms
proof (induction rs arbitrary: off s)
  case (Cons r rs)
  then show ?case by (cases "f s (data_object r) off (rec_bytes h r)") simp
qed simp

lemma apply_ok:
  assumes wf: "data_wf h" and o: "dh_obj h d = Some dd"
  shows "dispatch_data_apply d f s h = Inr (run_applier f s (data_regions h d))
    \<and> regions_bytes (data_regions h d) = data_bytes h d
    \<and> regions_contiguous 0 (data_regions h d)"
proof (cases "dd_size dd = 0")
  case True
  then have "data_bytes h d = []" using length_data_bytes [OF wf o] by simp
  with True o show ?thesis
    by (simp add: dispatch_data_apply_def dispatch_data_get_size_def data_regions_def
        dispatch_data_map_direct_def)
next
  case False
  have lb: "length (data_bytes h d) = dd_size dd" using wf o by (rule length_data_bytes)
  then have ne: "data_bytes h d \<noteq> []" using False by auto
  have app: "dispatch_data_apply d f s h = data_apply 2 d 0 0 (dd_size dd) f s h"
    using False o by (simp add: dispatch_data_apply_def dispatch_data_get_size_def)
  from wf o False show ?thesis
  proof (cases rule: map_direct_cases [where off = 0])
    case (trivial r)
    have "take (rec_length r) (drop (rec_from r) (leaf_bytes h (data_object r))) = data_bytes h d"
      using trivial(3) by (simp add: rec_bytes_def)
    then show ?thesis using trivial ne app
      by (simp add: numeral_2_eq_2 data_apply.simps data_regions_def split: prod.split)
  next
    case spread
    have "dispatch_data_apply d f s h = data_apply_records (\<lambda>r offset s. data_apply (Suc 0) (data_object r) offset
        (rec_from r) (rec_length r) f s h) (dd_records dd) 0 s"
      using app spread(3) o by (simp add: numeral_2_eq_2 data_apply.simps(2))
    also have "\<dots> = Inr (run_applier f s (record_regions h 0 (dd_records dd)))"
      using data_apply_leaf [OF wf, where fuel = 0 and f = f] spread(1)
      by (intro apply_records_run) (simp add: composite_ok_def)
    finally have run: "dispatch_data_apply d f s h = Inr (run_applier f s (record_regions h 0 (dd_records dd)))" .
    have "data_bytes h d = records_bytes h (dd_records dd)"
      using o spread(2) by (auto simp: data_bytes_def dispatch_data_leaf_def)
    then show ?thesis
      using run spread o record_regions_bytes [of h 0 "dd_records dd"] record_regions_contiguous [of "dd_records dd" h 0]
      by (simp add: data_regions_def composite_ok_def)
  qed (use lb ne app in \<open>simp_all add: numeral_2_eq_2 data_apply.simps data_regions_def split: prod.split\<close>)
qed

theorem apply_visits_the_regions:
  assumes "data_wf h" "dh_obj h d = Some dd"
  shows "dispatch_data_apply d f s h = Inr (run_applier f s (data_regions h d))
    \<and> regions_bytes (data_regions h d) = data_bytes h d
    \<and> regions_contiguous 0 (data_regions h d)"
  using assms by (rule apply_ok)

section \<open>Regions at a location\<close>

lemma find_location_spec:
  assumes "\<forall>r \<in> set rs. rec_ok h r" "offset \<le> location" "location < offset + sum_list (map rec_length rs)"
  shows "\<exists>r o'. data_find_location 0 offset location rs = Some (r, rec_from r, rec_length r, o')
    \<and> r \<in> set rs \<and> (data_object r, o', rec_bytes h r) \<in> set (record_regions h offset rs)
    \<and> o' \<le> location \<and> location < o' + rec_length r"
  using assms
proof (induction rs arbitrary: offset)
  case (Cons r rs)
  have pos: "0 < rec_length r" using Cons.prems(1) by (auto simp: rec_ok_def)
  show ?case
  proof (cases "offset + rec_length r \<le> location")
    case True
    with Cons.IH [of "offset + rec_length r"] Cons.prems pos show ?thesis by auto
  next
    case False
    with Cons.prems pos show ?thesis by auto
  qed
qed simp

lemma map_direct_leaf:
  assumes "data_wf h" "rec_ok h r" "dh_obj h (data_object r) = Some ld"
  shows "dispatch_data_map_direct (data_object r) off h
    = Inr (Some (drop off (leaf_bytes h (data_object r))), data_object r, off)"
proof -
  have ld: "leaf_ok ld" "dd_size ld \<noteq> 0" using assms(2,3) by (auto simp: rec_ok_def)
  have "data_bytes h (data_object r) = leaf_bytes h (data_object r)"
    using assms(3) ld(1) by (simp add: data_bytes_def leaf_ok_def dispatch_data_leaf_def)
  then show ?thesis using ld(1)
    by (cases rule: map_direct_cases [OF assms(1,3) ld(2), where off = off])
      (auto simp: leaf_ok_def composite_ok_def)
qed

definition copy_region_ok ::
  "data_heap \<Rightarrow> (nat \<Rightarrow> nat) \<Rightarrow> u8 list \<Rightarrow> nat \<Rightarrow> data_error + (nat \<times> nat) \<times> data_heap \<Rightarrow> bool" where
  "copy_region_ok h ext bytes off r = (case r of Inl e \<Rightarrow> False
     | Inr ((d', off'), h') \<Rightarrow> data_inv h' (ref_add ext d') \<and> data_ext h h' \<and> off' = off \<and> data_bytes h' d' = bytes)"

lemma copy_leaf_region:
  assumes inv: "data_inv h ext" and r: "rec_ok h r"
  shows "copy_region_ok h ext (rec_bytes h r) off
    (data_copy_region (Suc fuel) (data_object r) (rec_from r) (rec_length r) location off h)"
proof -
  note wf = inv_wf [OF inv]
  obtain ld where ld: "dh_obj h (data_object r) = Some ld" "leaf_ok ld" using r by (rule leaf_of_rec)
  have bytes: "data_bytes h (data_object r) = leaf_bytes h (data_object r)"
    "length (leaf_bytes h (data_object r)) = dd_size ld"
    using ld length_leaf_bytes by (simp_all add: data_bytes_def leaf_ok_def dispatch_data_leaf_def)
  let ?h = "dispatch_data_retain (data_object r) h"
  note rt = retain_wf [OF wf ld(1)] and ri = retain_reference_inv [OF inv ld(1)]
  show ?thesis
  proof (cases "rec_from r = 0 \<and> rec_length r = dd_size ld")
    case True
    then have "rec_bytes h r = data_bytes ?h (data_object r)" using bytes rt by (simp add: rec_bytes_def)
    with True show ?thesis
      using map_direct_leaf [OF wf r ld(1), of "rec_from r"] ld(1) rt ri
      by (simp add: copy_region_ok_def dispatch_data_get_size_def)
  next
    case False
    let ?dd = "\<lparr>dd_buf = None, dd_destructor = DESTRUCTOR_DEFAULT, dd_size = rec_length r, dd_records = [r], dd_queue = None\<rparr>"
    have eta: "\<lparr>data_object = data_object r, rec_from = rec_from r, rec_length = rec_length r\<rparr> = r" by simp
    obtain d h' where a: "dispatch_data_alloc 1 0 ?dd ?h = Inr (d, h')"
      by (simp add: dispatch_data_alloc_def os_mul_and_add_overflow_def SIZE_MOD_def sizeof_range_record_def
          sizeof_dispatch_data_s_def)
    have ext: "data_ext h ?h" using rt by simp
    have r': "rec_ok ?h r" using rec_ok_ext [OF r ext] .
    have "rec_length r < SIZE_MOD" using r by (auto simp: rec_ok_def leaf_ok_def)
    then have "composite_ok ?h ?dd" using r' by (simp add: composite_ok_def)
    from alloc_wf [OF _ _ a] this rt have 1: "data_wf h'" "data_ext ?h h'" "dh_obj h' d = Some ?dd" by auto
    have "data_bytes h' d = rec_bytes h' r"
      using 1(3) by (simp add: data_bytes_def dispatch_data_leaf_def)
    then have b: "data_bytes h' d = rec_bytes h r"
      using rec_bytes_ext [OF r, of h'] data_ext_trans [OF ext 1(2)] by simp
    have ref: "data_inv h' (ref_add ext d)"
    proof (rule new_object_inv [OF inv 1(1), where dd = ?dd])
      have "dh_obj h d = None" using wf alloc_fields(1) [OF a] by (simp add: data_wf_def)
      then show "dh_ref h' i = dh_ref h i + record_refs (dd_records ?dd) i"
        if "i \<noteq> d" "i \<noteq> dispatch_data_empty" for i
        using that alloc_fields(4) [OF a] rec_not_empty [OF wf r] by (auto simp: dispatch_data_retain_def)
    qed (use alloc_fields [OF a] ld(1) in simp_all)
    have "data_copy_region (Suc fuel) (data_object r) (rec_from r) (rec_length r) location off h = Inr ((d, off), h')"
      using False map_direct_leaf [OF wf r ld(1), of "rec_from r"] ld(1) a
      by (auto simp: dispatch_data_get_size_def Let_def eta simp del: One_nat_def)
    then show ?thesis using 1 b ref data_ext_trans [OF ext 1(2)] by (simp add: copy_region_ok_def)
  qed
qed

declare data_copy_region.simps(2) [simp del]

theorem copy_region_contains_location:
  assumes inv: "data_inv h ext" and o: "dh_obj h d = Some dd" and loc: "location < dd_size dd"
  shows "case dispatch_data_copy_region d location h of
      Inl e \<Rightarrow> False
    | Inr ((d', off), h') \<Rightarrow> data_inv h' (ref_add ext d') \<and> data_ext h h' \<and> off \<le> location \<and>
        location < off + length (data_bytes h' d') \<and>
        (\<exists>region. (region, off, data_bytes h' d') \<in> set (data_regions h d))"
proof -
  note wf = inv_wf [OF inv]
  have sz: "dd_size dd \<noteq> 0" using loc by simp
  have lb: "length (data_bytes h d) = dd_size dd" using wf o by (rule length_data_bytes)
  have top: "dispatch_data_copy_region d location h = data_copy_region (Suc (Suc 0)) d 0 (dd_size dd) location 0 h"
    using o loc by (simp add: dispatch_data_copy_region_def dispatch_data_get_size_def numeral_2_eq_2)
  have whole: ?thesis
    if "dispatch_data_map_direct d 0 h = Inr (Some b, d', from')" for b d' from'
  proof -
    have "dispatch_data_copy_region d location h = Inr ((d, 0), dispatch_data_retain d h)"
      using that o top by (simp add: data_copy_region.simps(2) dispatch_data_get_size_def)
    moreover have "data_regions h d = [(d, 0, data_bytes h d)]" using that by (simp add: data_regions_def)
    ultimately show ?thesis using retain_wf [OF wf o] retain_reference_inv [OF inv o] lb loc by simp
  qed
  from wf o sz show ?thesis
  proof (cases rule: map_direct_cases [where off = 0])
    case spread
    let ?rs = "dd_records dd"
    have rs: "\<forall>r \<in> set ?rs. rec_ok h r" "location < 0 + sum_list (map rec_length ?rs)"
      using spread(1) loc by (simp_all add: composite_ok_def)
    from find_location_spec [OF rs(1) _ rs(2)] obtain r off where
      f: "data_find_location 0 0 location ?rs = Some (r, rec_from r, rec_length r, off)" "r \<in> set ?rs"
        "(data_object r, off, rec_bytes h r) \<in> set (record_regions h 0 ?rs)"
        "off \<le> location" "location < off + rec_length r"
      by auto
    have r: "rec_ok h r" using rs f(2) by simp
    have "dispatch_data_copy_region d location h
        = data_copy_region (Suc 0) (data_object r) (rec_from r) (rec_length r) (location - off) off h"
      using top spread(3) o f(1) by (simp add: data_copy_region.simps(2) Let_def)
    then have "copy_region_ok h ext (rec_bytes h r) off (dispatch_data_copy_region d location h)"
      using copy_leaf_region [OF inv r, of off 0 "location - off"] by simp
    moreover have "data_regions h d = record_regions h 0 ?rs"
      using spread(3) o by (simp add: data_regions_def)
    ultimately show ?thesis using f length_rec_bytes [OF r]
      by (auto simp: copy_region_ok_def split: sum.splits)
  qed (use whole in blast)+
qed

section \<open>Flattening\<close>

lemma run_flatten:
  assumes "regions_contiguous off rs" "off + length (regions_bytes rs) \<le> length buffer"
  shows "run_applier data_flatten_block buffer rs
    = (True, take off buffer @ regions_bytes rs @ drop (off + length (regions_bytes rs)) buffer)"
  using assms
proof (induction rs arbitrary: off buffer)
  case (Cons r rs)
  obtain d bytes where r: "r = (d, off, bytes)" using Cons.prems(1) by (cases r) auto
  let ?b = "take off buffer @ bytes @ drop (off + length bytes) buffer"
  let ?c = "regions_bytes rs"
  have len: "off + length bytes + length ?c \<le> length buffer" using Cons.prems(2) by (simp add: r comp_def)
  have "length ?b = length buffer" using len by simp
  then have "run_applier data_flatten_block ?b rs = (True, take (off + length bytes) ?b @ ?c
      @ drop (off + length bytes + length ?c) ?b)"
    using Cons.prems len by (intro Cons.IH) (simp_all add: r)
  moreover have "take (off + length bytes) ?b = take off buffer @ bytes" using len by simp
  moreover have "drop (off + length bytes + length ?c) ?b = drop (off + length bytes + length ?c) buffer"
    using len by (simp add: algebra_simps)
  moreover have "run_applier data_flatten_block buffer (r # rs) = run_applier data_flatten_block ?b rs"
    using data_flatten_block_def [of buffer d off bytes] by (simp add: r)
  ultimately have "run_applier data_flatten_block buffer (r # rs) = (True, (take off buffer @ bytes) @ ?c
      @ drop (off + length bytes + length ?c) buffer)" by (simp only:)
  then show ?case by (simp add: r comp_def add.assoc)
qed simp

lemma flatten_bytes:
  assumes "data_wf h" "dh_obj h d = Some dd" "length buffer = dd_size dd"
  shows "dispatch_data_flatten d (Some buffer) h = Inr (Some (data_bytes h d))"
proof -
  note a = apply_ok [OF assms(1,2), where f = data_flatten_block and s = buffer]
  have "length (data_bytes h d) = length buffer" using assms by (simp add: length_data_bytes)
  with a run_flatten [of 0 "data_regions h d" buffer] show ?thesis
    by (simp add: dispatch_data_flatten_def)
qed

lemma create_map_ok:
  assumes inv: "data_inv h ext" and o: "dh_obj h d = Some dd" and junk: "length buffer = dd_size dd"
  shows "case dispatch_data_create_map d (Some buffer) h of
      Inl e \<Rightarrow> False
    | Inr ((obj, ptr, sz), h') \<Rightarrow> \<exists>d'. obj = Some d' \<and> data_inv h' (ref_add ext d') \<and> data_ext h h' \<and>
        data_bytes h' d' = data_bytes h d \<and> sz = length (data_bytes h d) \<and>
        (case ptr of None \<Rightarrow> sz = 0 | Some b \<Rightarrow> take sz b = data_bytes h d)"
proof (cases "dd_size dd = 0")
  case True
  then have "data_bytes h d = []" using length_data_bytes [OF inv_wf [OF inv] o] by simp
  then show ?thesis using True o inv empty_bytes [OF inv_wf [OF inv]]
    by (simp add: dispatch_data_create_map_def dispatch_data_get_size_def ref_add_def)
next
  case False
  note wf = inv_wf [OF inv]
  have lb: "length (data_bytes h d) = dd_size dd" using wf o by (rule length_data_bytes)
  have whole: ?thesis
    if "dispatch_data_map_direct d 0 h = Inr (Some b, d', from')" "take (dd_size dd) b = data_bytes h d" for b d' from'
    using that o False lb retain_wf [OF wf o] retain_reference_inv [OF inv o]
    by (simp add: dispatch_data_create_map_def dispatch_data_get_size_def)
  from wf o False show ?thesis
  proof (cases rule: map_direct_cases [where off = 0])
    case spread
    let ?b = "data_bytes h d"
    let ?dd = "\<lparr>dd_buf = Some ?b, dd_destructor = DESTRUCTOR_FREE, dd_size = dd_size dd, dd_records = [], dd_queue = None\<rparr>"
    have "leaf_ok ?dd" using lb False spread(1)
      by (cases "data_bytes h d") (simp_all add: leaf_ok_def composite_ok_def)
    moreover obtain d' h' where a: "dispatch_data_alloc 0 0 ?dd h = Inr (d', h')"
      by (simp add: dispatch_data_alloc_def os_mul_and_add_overflow_def SIZE_MOD_def sizeof_range_record_def
          sizeof_dispatch_data_s_def)
    ultimately have 1: "data_inv h' (ref_add ext d')" "data_ext h h'" "dh_obj h' d' = Some ?dd"
      using alloc_leaf_inv [OF inv _ a] by auto
    then have "data_bytes h' d' = ?b" by (simp add: data_bytes_def dispatch_data_leaf_def leaf_bytes_def)
    moreover have "dispatch_data_create_map d (Some buffer) h = Inr ((Some d', Some ?b, dd_size dd), h')"
      using spread(3) o False a lb flatten_bytes [OF wf o junk]
      by (simp add: dispatch_data_create_map_def dispatch_data_get_size_def dispatch_data_create_def)
    ultimately show ?thesis using 1 lb by simp
  next
    case (trivial r)
    then show ?thesis by (intro whole [OF trivial(5)]) (simp add: rec_bytes_def)
  qed (use whole lb in \<open>simp_all\<close>)
qed

theorem create_map_is_contiguous:
  assumes "data_inv h ext" and "dh_obj h d = Some dd" and "length buffer = dd_size dd"
  shows "case dispatch_data_create_map d (Some buffer) h of
      Inl e \<Rightarrow> False
    | Inr ((obj, ptr, sz), h') \<Rightarrow> \<exists>d'. obj = Some d' \<and> data_inv h' (ref_add ext d') \<and> data_ext h h' \<and>
        data_bytes h' d' = data_bytes h d \<and> sz = length (data_bytes h d) \<and>
        (case ptr of None \<Rightarrow> sz = 0 | Some b \<Rightarrow> take sz b = data_bytes h d)"
  using assms by (rule create_map_ok)

lemma set_buf_wf:
  assumes wf: "data_wf h" and o: "dh_obj h d = Some dd" and c: "composite_ok h dd" "1 < length (dd_records dd)"
  defines "h' \<equiv> h\<lparr>dh_obj := (dh_obj h)(d \<mapsto> dd\<lparr>dd_buf := Some (data_bytes h d)\<rparr>)\<rparr>"
  shows "data_wf h'" "\<And>d'. data_bytes h' d' = data_bytes h d'"
proof -
  have nl: "\<not> leaf_ok dd" using c(2) by (auto simp: leaf_ok_def)
  have b: "data_bytes h d = records_bytes h (dd_records dd)"
    using o c(2) by (auto simp: data_bytes_def dispatch_data_leaf_def)
  have lf: "leaf_ok x \<Longrightarrow> dh_obj h i = Some x \<Longrightarrow> dh_obj h' i = Some x" for i x
    using nl o by (auto simp: h'_def)
  then have rok: "rec_ok h r \<Longrightarrow> rec_ok h' r" for r by (auto simp: rec_ok_def)
  have lb: "leaf_bytes h' i = leaf_bytes h i" if "leaf_ok x" "dh_obj h i = Some x" for i x
    using lf [OF that] that by (simp add: leaf_bytes_def)
  then have rb: "rec_ok h r \<Longrightarrow> rec_bytes h' r = rec_bytes h r" for r by (auto simp: rec_ok_def rec_bytes_def)
  then have rsb: "records_bytes h' rs = records_bytes h rs" if "\<forall>r \<in> set rs. rec_ok h r" for rs
    using that by (induction rs) simp_all
  have cok: "composite_ok h' x" if "composite_ok h x" for x
    using that rok rsb [of "dd_records x"] by (auto simp: composite_ok_def)
  have cd: "composite_ok h' (dd\<lparr>dd_buf := Some (data_bytes h d)\<rparr>)"
    using c rok rsb [of "dd_records dd"] b by (auto simp: composite_ok_def)
  show "data_wf h'"
    unfolding data_wf_def
  proof (intro conjI allI impI)
    fix i x assume "dh_obj h' i = Some x"
    then show "leaf_ok x \<or> composite_ok h' x"
      using wf cd cok by (auto simp: h'_def data_wf_def split: if_splits)
  next
    fix i assume "dh_next h' \<le> i"
    then have "dh_obj h i = None" using wf by (simp add: h'_def data_wf_def)
    then show "dh_obj h' i = None" using o by (auto simp: h'_def)
  next
    have "dd_size dd \<noteq> 0" using c length_rec_bytes by (cases "dd_records dd") (auto simp: composite_ok_def rec_ok_def)
    then have "d \<noteq> dispatch_data_empty" using wf o by (auto simp: data_wf_def)
    then show "\<exists>x. dh_obj h' dispatch_data_empty = Some x \<and> dd_size x = 0"
      using wf by (simp add: h'_def data_wf_def)
  qed
  fix d'
  show "data_bytes h' d' = data_bytes h d'"
  proof (cases "dh_obj h d'")
    case None
    then show ?thesis using o by (auto simp: data_bytes_def h'_def)
  next
    case (Some x)
    from wf Some show ?thesis
    proof (cases rule: data_wf_cases)
      case leaf
      then show ?thesis using lf [OF leaf(1) Some] lb [OF leaf(1) Some] by (simp add: data_bytes_def)
    next
      case composite
      have "\<exists>y. dh_obj h' d' = Some y \<and> dd_records y = dd_records x" using Some o by (auto simp: h'_def)
      then show ?thesis using composite rsb [of "dd_records x"]
        by (auto simp: data_bytes_def dispatch_data_leaf_def composite_ok_def)
    qed
  qed
qed

lemma set_buf_inv:
  assumes inv: "data_inv h ext" and o: "dh_obj h d = Some dd" and c: "composite_ok h dd" "1 < length (dd_records dd)"
  shows "data_inv (h\<lparr>dh_obj := (dh_obj h)(d \<mapsto> dd\<lparr>dd_buf := Some (data_bytes h d)\<rparr>)\<rparr>) ext"
proof (rule data_invI)
  let ?h = "h\<lparr>dh_obj := (dh_obj h)(d \<mapsto> dd\<lparr>dd_buf := Some (data_bytes h d)\<rparr>)\<rparr>"
  show "data_wf ?h" by (rule set_buf_wf(1) [OF inv_wf [OF inv] o c])
  fix i assume i: "i \<noteq> dispatch_data_empty"
  have "heap_refs ?h i = heap_refs h i"
    using heap_refs_update [OF obj_less_next [OF inv_wf [OF inv] o], of "Some (dd\<lparr>dd_buf := Some (data_bytes h d)\<rparr>)" i] o
    by simp
  then show "ref_ok ?h ext i" using data_inv_ref [OF inv i] o by (auto simp: ref_ok_def)
qed

theorem flattened_bytes_are_the_data:
  assumes inv: "data_inv h ext" and o: "dh_obj h d = Some dd" and nz: "dd_size dd \<noteq> 0" and junk: "length buffer = dd_size dd"
  shows "\<exists>b h'. dispatch_data_get_flattened_bytes d (Some buffer) h = Inr (Some b, h')
    \<and> take (dd_size dd) b = data_bytes h d \<and> data_inv h' ext \<and> (\<forall>d'. data_bytes h' d' = data_bytes h d')
    \<and> dispatch_data_get_flattened_bytes d None h' = Inr (Some b, h')"
proof -
  note wf = inv_wf [OF inv]
  have lb: "length (data_bytes h d) = dd_size dd" using wf o by (rule length_data_bytes)
  have whole: ?thesis
    if "dispatch_data_map_direct d 0 h = Inr (Some b, d', from')" "take (dd_size dd) b = data_bytes h d" for b d' from'
    using that o nz inv by (simp add: dispatch_data_get_flattened_bytes_def dispatch_data_get_size_def)
  from wf o nz show ?thesis
  proof (cases rule: map_direct_cases [where off = 0])
    case spread
    let ?h = "h\<lparr>dh_obj := (dh_obj h)(d \<mapsto> dd\<lparr>dd_buf := Some (data_bytes h d)\<rparr>)\<rparr>"
    note w = set_buf_inv [OF inv o spread(1,2)] set_buf_wf(2) [OF wf o spread(1,2)]
    have 1: "dispatch_data_get_flattened_bytes d (Some buffer) h = Inr (Some (data_bytes h d), ?h)"
      using spread(3) o nz flatten_bytes [OF wf o junk]
      by (simp add: dispatch_data_get_flattened_bytes_def dispatch_data_get_size_def)
    have "dispatch_data_map_direct d 0 ?h = Inr (Some (data_bytes h d), d, 0)"
      using spread(2) nz by (simp add: dispatch_data_map_direct_def dispatch_data_num_records_def dispatch_data_leaf_def Let_def)
    then have "dispatch_data_get_flattened_bytes d None ?h = Inr (Some (data_bytes h d), ?h)"
      using nz by (simp add: dispatch_data_get_flattened_bytes_def dispatch_data_get_size_def)
    with 1 w lb show ?thesis by auto
  next
    case (trivial r)
    then show ?thesis by (intro whole [OF trivial(5)]) (simp add: rec_bytes_def)
  qed (use whole lb in \<open>simp_all\<close>)
qed

section \<open>The size of an inline buffer\<close>

theorem create_alloc_room:
  assumes "0 < sz" "sz < SIZE_MOD"
  shows "\<exists>d h'. dispatch_data_create_alloc sz contents h = Inr (d, h') \<and> data_ext (h\<lparr>dh_obj := (dh_obj h)(d := None)\<rparr>) h'
    \<and> (sizeof_dispatch_data_s + sz \<le> dh_alloc h' d \<longleftrightarrow> sz < SIZE_MOD - sizeof_dispatch_data_s)"
proof -
  have sz: "\<not> SIZE_MOD \<le> (sizeof_dispatch_data_s + sz) mod SIZE_MOD" by (simp add: SIZE_MOD_def not_le)
  have m: "sizeof_dispatch_data_s + sz \<le> (sizeof_dispatch_data_s + sz) mod SIZE_MOD
      \<longleftrightarrow> sz < SIZE_MOD - sizeof_dispatch_data_s"
    using assms by (auto simp: SIZE_MOD_def sizeof_dispatch_data_s_def mod_if)
  show ?thesis
    using assms sz m
    by (auto simp: dispatch_data_create_alloc_def dispatch_data_alloc_def os_mul_and_add_overflow_def Let_def data_ext_def)
qed

section \<open>A sample heap\<close>

definition sample_empty :: dispatch_data where
  "sample_empty = \<lparr>dd_buf = None, dd_destructor = DESTRUCTOR_NONE, dd_size = 0, dd_records = [], dd_queue = None\<rparr>"

definition sample_leaf :: "u8 list \<Rightarrow> dispatch_data" where
  "sample_leaf b = \<lparr>dd_buf = Some b, dd_destructor = DESTRUCTOR_FREE, dd_size = length b, dd_records = [], dd_queue = None\<rparr>"

definition sample_heap :: data_heap where
  "sample_heap = \<lparr>dh_obj = [0 \<mapsto> sample_empty, 2 \<mapsto> sample_leaf [1, 2, 3, 4], 3 \<mapsto> sample_leaf [5, 6],
     4 \<mapsto> \<lparr>dd_buf = None, dd_destructor = DESTRUCTOR_DEFAULT, dd_size = 4,
       dd_records = [\<lparr>data_object = 2, rec_from = 2, rec_length = 2\<rparr>, \<lparr>data_object = 3, rec_from = 0, rec_length = 2\<rparr>],
       dd_queue = None\<rparr>],
     dh_ref = (\<lambda>d. if d = 4 then 1 else 2), dh_alloc = (\<lambda>_. 64), dh_next = 5, dh_events = []\<rparr>"

lemma sample_leaf_ok: "b \<noteq> [] \<Longrightarrow> length b < SIZE_MOD \<Longrightarrow> leaf_ok (sample_leaf b)"
  by (simp add: leaf_ok_def sample_leaf_def)

lemma sample_heap_wf: "data_wf sample_heap"
  by (auto simp: data_wf_def sample_heap_def leaf_ok_def composite_ok_def rec_ok_def sample_empty_def
      sample_leaf_def dispatch_data_empty_def SIZE_MOD_def split: if_splits)

text \<open>Its clients hold one reference to each of the three objects.\<close>

definition sample_refs :: "nat \<Rightarrow> nat" where
  "sample_refs d = (if d \<in> {2, 3, 4} then 1 else 0)"

lemma sample_heap_inv: "data_inv sample_heap sample_refs"
proof (rule data_invI [OF sample_heap_wf])
  fix i assume "i \<noteq> dispatch_data_empty"
  then show "ref_ok sample_heap sample_refs i"
    by (simp add: dispatch_data_empty_def ref_ok_def sample_heap_def sample_refs_def heap_refs_def sample_leaf_def sample_empty_def
        numeral_eq_Suc lessThan_Suc)
qed

lemma sample_heap_obj:
  "dh_obj sample_heap 2 = Some (sample_leaf [1, 2, 3, 4])" "dh_obj sample_heap 3 = Some (sample_leaf [5, 6])"
  "dh_obj sample_heap 4 = Some \<lparr>dd_buf = None, dd_destructor = DESTRUCTOR_DEFAULT, dd_size = 4,
       dd_records = [\<lparr>data_object = 2, rec_from = 2, rec_length = 2\<rparr>, \<lparr>data_object = 3, rec_from = 0, rec_length = 2\<rparr>],
       dd_queue = None\<rparr>"
  by (simp_all add: sample_heap_def)

lemma sample_heap_bytes:
  "data_bytes sample_heap 3 = [5, 6]" "data_bytes sample_heap 4 = [3, 4, 5, 6]"
  by (simp_all add: data_bytes_def sample_heap_obj dispatch_data_leaf_def leaf_bytes_def rec_bytes_def sample_leaf_def)

theorem create_alloc_room_witness:
  "\<exists>d h'. dispatch_data_create_alloc (2 ^ 64 - 1) [] sample_heap = Inr (d, h')
     \<and> \<not> sizeof_dispatch_data_s + (2 ^ 64 - 1) \<le> dh_alloc h' d"
proof -
  have "(0::nat) < 2 ^ 64 - 1" "(2 ^ 64 - 1 :: nat) < SIZE_MOD" "\<not> (2 ^ 64 - 1 < SIZE_MOD - sizeof_dispatch_data_s)"
    by (simp_all add: SIZE_MOD_def sizeof_dispatch_data_s_def)
  with create_alloc_room [of "2 ^ 64 - 1" "[]" sample_heap] show ?thesis by blast
qed

theorem concat_appends_witness:
  "\<exists>d h'. dispatch_data_create_concat 4 3 sample_heap = Inr (d, h') \<and> data_inv h' (ref_add sample_refs d)
     \<and> data_bytes h' d = [3, 4, 5, 6, 5, 6]"
proof -
  obtain d h' where r: "dispatch_data_create_concat 4 3 sample_heap = Inr (d, h')"
    by (simp add: dispatch_data_create_concat_def sample_heap_obj sample_leaf_def dispatch_data_alloc_def
        os_mul_and_add_overflow_def dispatch_data_num_records_def SIZE_MOD_def sizeof_range_record_def
        sizeof_dispatch_data_s_def Let_def)
  have "dd_size (sample_leaf [5, 6]) = 2" by (simp add: sample_leaf_def)
  then show ?thesis
    using concat_appends [OF sample_heap_inv sample_heap_obj(3,2)] r
    by (simp add: sample_heap_bytes SIZE_MOD_def dispatch_data_num_records_def sample_leaf_def)
qed

theorem subrange_takes_and_drops_witness:
  "\<exists>d' h'. dispatch_data_create_subrange 4 0 3 sample_heap = Inr (d', h')
     \<and> data_inv h' (ref_add sample_refs d') \<and> data_bytes h' d' = [3, 4, 5]"
  using subrange_takes_and_drops [OF sample_heap_inv sample_heap_obj(3), where off = 0 and len = 3]
  by (simp add: sample_heap_bytes) blast

theorem apply_visits_the_regions_witness:
  "dispatch_data_apply 4 (\<lambda>s region off bytes. (True, s @ [(off, bytes)])) [] sample_heap
     = Inr (True, [(0, [3, 4]), (2, [5, 6])])"
proof -
  have "data_regions sample_heap 4 = [(2, 0, [3, 4]), (3, 2, [5, 6])]"
    by (simp add: data_regions_def sample_heap_obj dispatch_data_map_direct_def dispatch_data_num_records_def
        dispatch_data_leaf_def rec_bytes_def leaf_bytes_def sample_leaf_def)
  then show ?thesis
    using apply_visits_the_regions [OF sample_heap_wf sample_heap_obj(3),
      of "\<lambda>s region off bytes. (True, s @ [(off, bytes)])" "[]"]
    by simp
qed

theorem copy_region_contains_location_witness:
  "case dispatch_data_copy_region 4 3 sample_heap of Inl e \<Rightarrow> False
     | Inr ((d', off), h') \<Rightarrow> data_inv h' (ref_add sample_refs d') \<and> (off, data_bytes h' d') = (2, [5, 6])"
proof -
  have "data_regions sample_heap 4 = [(2, 0, [3, 4]), (3, 2, [5, 6])]"
    by (simp add: data_regions_def sample_heap_obj dispatch_data_map_direct_def dispatch_data_num_records_def
        dispatch_data_leaf_def rec_bytes_def leaf_bytes_def sample_leaf_def)
  then show ?thesis
    using copy_region_contains_location [OF sample_heap_inv sample_heap_obj(3), of 3]
    by (cases "dispatch_data_copy_region 4 3 sample_heap") (simp_all split: prod.splits, force)
qed

theorem create_map_is_contiguous_witness:
  "\<exists>d' ptr h'. dispatch_data_create_map 4 (Some [9, 9, 9, 9]) sample_heap = Inr ((Some d', ptr, 4), h')
     \<and> data_inv h' (ref_add sample_refs d') \<and> data_bytes h' d' = [3, 4, 5, 6]"
proof -
  have l: "length [9, 9, 9, 9 :: u8] = dd_size \<lparr>dd_buf = None, dd_destructor = DESTRUCTOR_DEFAULT, dd_size = 4,
       dd_records = [\<lparr>data_object = 2, rec_from = 2, rec_length = 2\<rparr>, \<lparr>data_object = 3, rec_from = 0, rec_length = 2\<rparr>],
       dd_queue = None\<rparr>" by simp
  from create_map_is_contiguous [OF sample_heap_inv sample_heap_obj(3) l] show ?thesis
    by (cases "dispatch_data_create_map 4 (Some [9, 9, 9, 9]) sample_heap") (auto simp: sample_heap_bytes(2))
qed

theorem flattened_bytes_are_the_data_witness:
  "\<exists>b h'. dispatch_data_get_flattened_bytes 4 (Some [9, 9, 9, 9]) sample_heap = Inr (Some b, h')
     \<and> take 4 b = [3, 4, 5, 6] \<and> data_inv h' sample_refs"
proof -
  have l: "length [9, 9, 9, 9 :: u8] = dd_size \<lparr>dd_buf = None, dd_destructor = DESTRUCTOR_DEFAULT, dd_size = 4,
       dd_records = [\<lparr>data_object = 2, rec_from = 2, rec_length = 2\<rparr>, \<lparr>data_object = 3, rec_from = 0, rec_length = 2\<rparr>],
       dd_queue = None\<rparr>" by simp
  from flattened_bytes_are_the_data [OF sample_heap_inv sample_heap_obj(3) _ l] show ?thesis
    by (simp add: sample_heap_bytes(2)) blast
qed

theorem release_keeps_the_rest:
  assumes "data_inv h ext" "0 < ext d" "d \<noteq> dispatch_data_empty"
  shows "data_inv (dispatch_data_release d h) (ext(d := ext d - 1)) \<and> data_ext (dispatch_data_release d h) h"
  using assms by (rule release_ok)

theorem release_keeps_the_rest_witness:
  "data_inv (dispatch_data_release 4 sample_heap) (sample_refs(4 := 0))
     \<and> data_ext (dispatch_data_release 4 sample_heap) sample_heap"
  using release_keeps_the_rest [OF sample_heap_inv, of 4] by (simp add: sample_refs_def dispatch_data_empty_def)

section \<open>The last release\<close>

lemma no_leak:
  assumes inv: "data_inv h (\<lambda>_. 0)" and d: "d \<noteq> dispatch_data_empty"
  shows "dh_obj h d = None"
proof -
  have comp: "dh_obj h i = None \<or> (\<exists>x. dh_obj h i = Some x \<and> dd_records x = [])" for i
  proof (rule ccontr)
    assume "\<not> ?thesis"
    then obtain x where x: "dh_obj h i = Some x" "dd_records x \<noteq> []" by auto
    have wf: "data_wf h" using inv by (simp add: data_inv_def)
    have c: "composite_ok h x" using x wf by (auto simp: data_wf_def leaf_ok_def)
    then have "0 < dd_size x" using x(2) by (cases "dd_records x") (auto simp: composite_ok_def rec_ok_def)
    then have i: "i \<noteq> dispatch_data_empty" using x(1) wf by (auto simp: data_wf_def)
    have "0 < heap_refs h i" using data_invD(1,2) [OF inv i x(1)] by simp
    then have "\<exists>j. object_refs (dh_obj h j) i \<noteq> 0"
      unfolding heap_refs_def by (rule contrapos_pp) simp
    then obtain j where "object_refs (dh_obj h j) i \<noteq> 0" ..
    then obtain y where "dh_obj h j = Some y" "record_refs (dd_records y) i \<noteq> 0"
      by (cases "dh_obj h j") auto
    note y = this
    have "\<exists>r \<in> set rs. data_object r = i" if "record_refs rs i \<noteq> 0" for rs
      using that by (induction rs) (auto split: if_splits)
    from this [OF y(2)] obtain r where r: "r \<in> set (dd_records y)" "data_object r = i" ..
    have "leaf_ok y \<or> composite_ok h y" using wf y(1) by (simp add: data_wf_def)
    then have "rec_ok h r" using r(1) by (auto simp: leaf_ok_def composite_ok_def)
    then show False using x r(2) by (auto simp: rec_ok_def leaf_ok_def)
  qed
  then have "object_refs (dh_obj h i) d = 0" for i using comp [of i] by (elim disjE exE) simp_all
  then have "heap_refs h d = 0" by (simp add: heap_refs_def)
  then show ?thesis using data_inv_ref [OF inv d] by (auto simp: ref_ok_def split: if_splits)
qed

text \<open>
  C27. When the last client reference of all is released, every object of the heap but the empty
  singleton has been freed: the records of a composite release their leaves, and nothing leaks.
\<close>
theorem last_release_frees_everything:
  assumes "data_inv h (\<lambda>i. if i = d then 1 else 0)" "d \<noteq> dispatch_data_empty" "i \<noteq> dispatch_data_empty"
  shows "dh_obj (dispatch_data_release d h) i = None"
proof -
  have "(\<lambda>i. if i = d then 1 else 0)(d := (if d = d then 1 else 0) - 1) = (\<lambda>_. 0::nat)" by auto
  with release_ok [OF assms(1) _ assms(2)] have "data_inv (dispatch_data_release d h) (\<lambda>_. 0)" by simp
  then show ?thesis using assms(3) by (rule no_leak)
qed

theorem last_release_frees_everything_witness:
  "dh_obj (dispatch_data_release 4 (sample_heap\<lparr>dh_ref := (\<lambda>_. 1)\<rparr>)) 2 = None"
proof -
  let ?h = "sample_heap\<lparr>dh_ref := (\<lambda>_. 1)\<rparr>"
  have "data_wf ?h" using sample_heap_wf data_wf_cong [of ?h sample_heap] by simp
  moreover have "ref_ok ?h (\<lambda>i. if i = 4 then 1 else 0) i" if "i \<noteq> dispatch_data_empty" for i
    using that by (simp add: dispatch_data_empty_def ref_ok_def sample_heap_def heap_refs_def sample_leaf_def sample_empty_def
        numeral_eq_Suc lessThan_Suc)
  ultimately have "data_inv ?h (\<lambda>i. if i = 4 then 1 else 0)" by (rule data_invI)
  from last_release_frees_everything [OF this] show ?thesis by (simp add: dispatch_data_empty_def)
qed

section \<open>Creating from a buffer\<close>

lemma destroy_buffer_inv:
  "data_inv h ext \<Longrightarrow> data_inv (dispatch_data_destroy_buffer b n q ds h) ext"
  by (rule data_inv_cong) simp_all

lemma destroy_buffer_ext [simp]: "data_ext h (dispatch_data_destroy_buffer b n q ds h)"
  by (simp add: data_ext_def)

lemma create_ok:
  assumes inv: "data_inv h ext" and sz: "sz \<le> length b" "sz < SIZE_MOD" and ds: "destructor \<noteq> DESTRUCTOR_INLINE"
  shows "data_result_ok h ext (take sz b) (dispatch_data_create (Some b) sz q destructor True h)"
proof (cases "sz = 0")
  case True
  let ?h = "if destructor \<noteq> DESTRUCTOR_DEFAULT then dispatch_data_destroy_buffer (Some b) 0 q destructor h else h"
  have "data_inv ?h ext" using inv destroy_buffer_inv by simp
  from empty_ok [OF this] have "data_result_ok h ext [] (Inr (dispatch_data_empty, ?h))"
    unfolding data_result_ok_def sum.case prod.case by simp
  then show ?thesis using True by (simp add: dispatch_data_create_def)
next
  case False
  let ?dd = "\<lambda>ds. \<lparr>dd_buf = Some (take sz b), dd_destructor = ds, dd_size = sz, dd_records = [], dd_queue = q\<rparr>"
  have l: "leaf_ok (?dd ds)" for ds using False sz by (auto simp: leaf_ok_def)
  have ok: "data_result_ok h ext (take sz b) (dispatch_data_alloc 0 0 (?dd ds) h)" for ds
    proof -
    obtain d h' where a: "dispatch_data_alloc 0 0 (?dd ds) h = Inr (d, h')" by (rule alloc_records [of 0]) simp
    from alloc_leaf_ok [OF inv l a] show ?thesis by (simp add: a)
  qed
  show ?thesis using False ds ok by (simp add: dispatch_data_create_def)
qed

section \<open>Data objects as a source\<close>

definition data_valid :: "nat \<times> data_heap \<Rightarrow> bool" where
  "data_valid = (\<lambda>(d, h). (\<exists>ext. data_inv h ext) \<and> dh_obj h d \<noteq> None)"

lemma data_validI: "data_inv h ext \<Longrightarrow> dh_obj h d = Some dd \<Longrightarrow> data_valid (d, h)"
  by (auto simp: data_valid_def)

interpretation dispatch_source: data_source
  "\<lambda>(d, h) f s. dispatch_data_apply d f s h" "\<lambda>(d, h). data_regions h d" "\<lambda>(d, h). data_bytes h d" data_valid
  by unfold_locales (auto simp: apply_ok data_valid_def dest!: inv_wf)

end
