(* ===== verification/Transform.thy ===== *)
theory Transform
  imports Data_Ops
begin

text \<open>
  The transforms of \<open>transform.c\<close>: base32, base32hex, base64 (encoders, decoders, tables) and
  \<open>dispatch_data_create_with_transform\<close>. A block given to \<open>dispatch_data_apply\<close> is a function on
  the \<open>__block\<close> variables. An output pointer is the list of bytes written through it; what the
  allocated buffer holds beyond them is \<open>junk\<close>. Temporary objects that a block creates and
  releases before it returns are not in the heap it leaves.
\<close>

unbundle bit_operations_syntax

section \<open>Tables\<close>

definition base32_encode_table :: "u8 list" where
  "base32_encode_table = map of_char ''ABCDEFGHIJKLMNOPQRSTUVWXYZ234567''"

definition base32_decode_table :: "int list" where
  "base32_decode_table =
     [-1, -1, -1, -1, -1, -1, -1, -1, -1, -1, -1, -1, -1, -1, -1, -1, -1, -1, -1, -1, -1,
      -1, -1, -1, -1, -1, -1, -1, -1, -1, -1, -1, -1, -1, -1, -1, -1, -1, -1, -1, -1, -1,
      -1, -1, -1, -1, -1, -1, -1, -1, 26, 27, 28, 29, 30, 31, -1, -1, -1, -1, -1, -2, -1,
      -1, -1, 0, 1, 2, 3, 4, 5, 6, 7, 8, 9, 10, 11, 12, 13, 14, 15, 16, 17, 18, 19, 20, 21,
      22, 23, 24, 25]"

definition base32_decode_table_size :: nat where
  "base32_decode_table_size = length base32_decode_table"

definition base32hex_encode_table :: "u8 list" where
  "base32hex_encode_table = map of_char ''0123456789ABCDEFGHIJKLMNOPQRSTUV''"

definition base32hex_decode_table :: "int list" where
  "base32hex_decode_table =
     [-1, -1, -1, -1, -1, -1, -1, -1, -1, -1, -1, -1, -1, -1, -1, -1, -1, -1, -1, -1, -1,
      -1, -1, -1, -1, -1, -1, -1, -1, -1, -1, -1, -1, -1, -1, -1, -1, -1, -1, -1, -1, -1,
      -1, -1, -1, -1, -1, -1, 0, 1, 2, 3, 4, 5, 6, 7, 8, 9, -1, -1, -1, -2, -1, -1, -1, 10,
      11, 12, 13, 14, 15, 16, 17, 18, 19, 20, 21, 22, 23, 24, 25, 26, 27, 28, 29, 30, 31]"

text \<open>The size is taken from the encode table, a string of 32 characters and its terminator.\<close>

definition base32hex_decode_table_size :: nat where
  "base32hex_decode_table_size = length base32hex_encode_table + 1"

definition base64_encode_table :: "u8 list" where
  "base64_encode_table = map of_char ''ABCDEFGHIJKLMNOPQRSTUVWXYZabcdefghijklmnopqrstuvwxyz0123456789+/''"

definition base64_decode_table :: "int list" where
  "base64_decode_table =
     [-1, -1, -1, -1, -1, -1, -1, -1, -1, -1, -1, -1, -1, -1, -1, -1, -1, -1, -1, -1, -1,
      -1, -1, -1, -1, -1, -1, -1, -1, -1, -1, -1, -1, -1, -1, -1, -1, -1, -1, -1, -1, -1,
      -1, 62, -1, -1, -1, 63, 52, 53, 54, 55, 56, 57, 58, 59, 60, 61, -1, -1, -1, -2, -1,
      -1, -1, 0, 1, 2, 3, 4, 5, 6, 7, 8, 9, 10, 11, 12, 13, 14, 15, 16, 17, 18, 19, 20, 21,
      22, 23, 24, 25, -1, -1, -1, -1, -1, -1, 26, 27, 28, 29, 30, 31, 32, 33, 34, 35, 36,
      37, 38, 39, 40, 41, 42, 43, 44, 45, 46, 47, 48, 49, 50, 51]"

definition base64_decode_table_size :: nat where
  "base64_decode_table_size = length base64_decode_table"

section \<open>Helpers\<close>

definition howmany :: "nat \<Rightarrow> nat \<Rightarrow> nat" where
  "howmany x y = (if x mod y = 0 then x div y else x div y + 1)"

text \<open>
  \<open>_dispatch_data_subrange_map\<close>: the bytes the map points to, \<open>None\<close> for the null object.
\<close>

definition dispatch_data_subrange_map :: "nat \<Rightarrow> nat \<Rightarrow> nat \<Rightarrow> data_heap \<Rightarrow> u8 list option" where
  "dispatch_data_subrange_map d offset sz h =
     (case dispatch_data_create_subrange d offset sz h of Inl e \<Rightarrow> None
      | Inr (subrange, h) \<Rightarrow>
          if dispatch_data_get_size subrange h = sz then
            (case dispatch_data_create_map subrange (Some (replicate sz 0)) h of
               Inr ((Some mapped, Some ptr, _), h) \<Rightarrow> Some (take sz ptr)
             | _ \<Rightarrow> None)
          else None)"

definition whitespace :: "u8 \<Rightarrow> bool" where
  "whitespace b = (b = of_char CHR 0x0A \<or> b = of_char CHR 0x09 \<or> b = of_char CHR '' '')"

definition pad_char :: u8 where "pad_char = of_char CHR ''=''"

section \<open>Encoding\<close>

text \<open>
  The loop of the encoders over the bytes of a region: \<open>before\<close> is the byte before the current
  one, read from the data when it is not in the region (\<open>None\<close> when that fails), and
  \<open>quantum\<close> the characters a byte completes.
\<close>

fun encode_loop ::
  "nat \<Rightarrow> (nat \<Rightarrow> u8 \<Rightarrow> u8 \<Rightarrow> u8 list) \<Rightarrow> u8 option \<Rightarrow> nat \<Rightarrow> u8 list \<Rightarrow> u8 list \<Rightarrow> (nat \<times> u8 list) option" where
  "encode_loop period quantum before count ptr [] = Some (count, ptr)"
| "encode_loop period quantum before count ptr (cur # rest) =
     (case (if count mod period \<noteq> 0 then before else Some 0) of
        None \<Rightarrow> None
      | Some prev \<Rightarrow> encode_loop period quantum (Some cur) (count + 1)
          (ptr @ quantum (count mod period) prev cur) rest)"

text \<open>The block of the encoders; its state is \<open>count\<close> and what was written through \<open>ptr\<close>.\<close>

definition encode_block ::
  "nat \<Rightarrow> (nat \<Rightarrow> u8 \<Rightarrow> u8 \<Rightarrow> u8 list) \<Rightarrow> (nat \<Rightarrow> u8 \<Rightarrow> u8 list) \<Rightarrow> nat \<Rightarrow> data_heap \<Rightarrow> nat
     \<Rightarrow> nat \<times> u8 list \<Rightarrow> nat \<Rightarrow> nat \<Rightarrow> u8 list \<Rightarrow> bool \<times> (nat \<times> u8 list)" where
  "encode_block period quantum tail d h total_size s region offset bytes =
     (case encode_loop period quantum
         (map_option hd (dispatch_data_subrange_map d ((offset + SIZE_MOD - 1) mod SIZE_MOD) 1 h))
         (fst s) (snd s) bytes of
        None \<Rightarrow> (False, s)
      | Some (count, ptr) \<Rightarrow>
          (True, count, if offset + length bytes = total_size
                        then ptr @ tail (count mod period) (last bytes) else ptr))"

text \<open>
  The encoders around the block: \<open>width\<close> characters for every \<open>period\<close> bytes. The result is the
  new object, \<open>None\<close> for the null pointer; \<open>junk\<close> is what \<open>malloc\<close> returns.
\<close>

definition encode_data ::
  "nat \<Rightarrow> nat \<Rightarrow> (nat \<Rightarrow> u8 \<Rightarrow> u8 \<Rightarrow> u8 list) \<Rightarrow> (nat \<Rightarrow> u8 \<Rightarrow> u8 list) \<Rightarrow> nat \<Rightarrow> u8 list option \<Rightarrow> data_heap
     \<Rightarrow> data_error + nat option \<times> data_heap" where
  "encode_data period width quantum tail d junk h =
     (let total_size = dispatch_data_get_size d h;
          dest_size = howmany total_size period
      in if (SIZE_MOD - 1) div width < dest_size then Inr (None, h)
         else case junk of None \<Rightarrow> Inr (None, h)
         | Some dest \<Rightarrow>
             (case dispatch_data_apply d (encode_block period quantum tail d h total_size) (0, []) h of
                Inl e \<Rightarrow> Inl e
              | Inr (False, _) \<Rightarrow> Inr (None, h)
              | Inr (True, _, ptr) \<Rightarrow>
                  (case dispatch_data_create (Some (ptr @ drop (length ptr) dest)) (dest_size * width)
                      None DESTRUCTOR_FREE True h of
                     Inl e \<Rightarrow> Inl e
                   | Inr (d, h) \<Rightarrow> Inr (Some d, h))))"

subsection \<open>base32\<close>

definition base32_quantum :: "u8 list \<Rightarrow> nat \<Rightarrow> u8 \<Rightarrow> u8 \<Rightarrow> u8 list" where
  "base32_quantum table n last8 curr8 =
     (let prev = ucast last8 :: u32; cur = ucast curr8 :: u32
      in if n = 0 then [table ! unat (drop_bit 3 cur AND 0x1f)]
         else if n = 1 then [table ! unat ((push_bit 2 prev OR drop_bit 6 cur) AND 0x1f),
                             table ! unat (drop_bit 1 cur AND 0x1f)]
         else if n = 2 then [table ! unat ((push_bit 4 prev OR drop_bit 4 cur) AND 0x1f)]
         else if n = 3 then [table ! unat ((push_bit 1 prev OR drop_bit 7 cur) AND 0x1f),
                             table ! unat (drop_bit 2 cur AND 0x1f)]
         else [table ! unat ((push_bit 3 prev OR drop_bit 5 cur) AND 0x1f),
               table ! unat (cur AND 0x1f)])"

definition base32_tail :: "u8 list \<Rightarrow> nat \<Rightarrow> u8 \<Rightarrow> u8 list" where
  "base32_tail table n last8 =
     (let prev = ucast last8 :: u32
      in if n = 0 then []
         else if n = 1 then table ! unat (push_bit 2 prev AND 0x1c) # replicate 6 pad_char
         else if n = 2 then table ! unat (push_bit 4 prev AND 0x10) # replicate 4 pad_char
         else if n = 3 then table ! unat (push_bit 1 prev AND 0x1e) # replicate 3 pad_char
         else table ! unat (push_bit 3 prev AND 0x18) # replicate 1 pad_char)"

definition dispatch_transform_to_base32_with_table ::
  "nat \<Rightarrow> u8 list \<Rightarrow> u8 list option \<Rightarrow> data_heap \<Rightarrow> data_error + nat option \<times> data_heap" where
  "dispatch_transform_to_base32_with_table d table junk h =
     encode_data 5 8 (base32_quantum table) (base32_tail table) d junk h"

definition dispatch_transform_to_base32 ::
  "nat \<Rightarrow> u8 list option \<Rightarrow> data_heap \<Rightarrow> data_error + nat option \<times> data_heap" where
  "dispatch_transform_to_base32 d junk h =
     dispatch_transform_to_base32_with_table d base32_encode_table junk h"

definition dispatch_transform_to_base32hex ::
  "nat \<Rightarrow> u8 list option \<Rightarrow> data_heap \<Rightarrow> data_error + nat option \<times> data_heap" where
  "dispatch_transform_to_base32hex d junk h =
     dispatch_transform_to_base32_with_table d base32hex_encode_table junk h"

subsection \<open>base64\<close>

definition base64_quantum :: "nat \<Rightarrow> u8 \<Rightarrow> u8 \<Rightarrow> u8 list" where
  "base64_quantum n last8 curr8 =
     (let prev = ucast last8 :: u32; cur = ucast curr8 :: u32
      in if n = 0 then [base64_encode_table ! unat (drop_bit 2 cur AND 0x3f)]
         else if n = 1 then [base64_encode_table ! unat ((push_bit 4 prev OR drop_bit 4 cur) AND 0x3f)]
         else [base64_encode_table ! unat ((push_bit 2 prev OR drop_bit 6 cur) AND 0x3f),
               base64_encode_table ! unat (cur AND 0x3f)])"

definition base64_tail :: "nat \<Rightarrow> u8 \<Rightarrow> u8 list" where
  "base64_tail n last8 =
     (let prev = ucast last8 :: u32
      in if n = 0 then []
         else if n = 1 then [base64_encode_table ! unat (push_bit 4 prev AND 0x30), pad_char, pad_char]
         else [base64_encode_table ! unat (push_bit 2 prev AND 0x3c), pad_char])"

definition dispatch_transform_to_base64 ::
  "nat \<Rightarrow> u8 list option \<Rightarrow> data_heap \<Rightarrow> data_error + nat option \<times> data_heap" where
  "dispatch_transform_to_base64 d junk h = encode_data 3 4 base64_quantum base64_tail d junk h"

section \<open>Decoding\<close>

text \<open>
  The loop of the decoders over the bytes of a region, on \<open>x\<close>, \<open>count\<close>, \<open>pad\<close> and what was
  written through \<open>ptr\<close>: a character gives \<open>bits\<close> bits, and \<open>emit\<close> writes the bytes of \<open>x\<close>
  whenever \<open>count & grp\<close> is 0. \<open>None\<close> when a character is not in the table.
\<close>

fun decode_loop ::
  "int list \<Rightarrow> nat \<Rightarrow> nat \<Rightarrow> u64 \<Rightarrow> (u64 \<Rightarrow> u8 list) \<Rightarrow> u64 \<Rightarrow> u64 \<Rightarrow> u64 \<Rightarrow> u8 list \<Rightarrow> u8 list
     \<Rightarrow> (u64 \<times> u64 \<times> u64 \<times> u8 list) option" where
  "decode_loop table table_size bits grp emit x count pad ptr [] = Some (x, count, pad, ptr)"
| "decode_loop table table_size bits grp emit x count pad ptr (b # rest) =
     (if whitespace b then decode_loop table table_size bits grp emit x count pad ptr rest
      else let index = unat b
           in if table_size \<le> index \<or> table ! index = -1 then None
              else let count = count + 1;
                       pad = (if table ! index = -2 then pad + 1 else pad);
                       val = (if table ! index = -2 then 0 else table ! index);
                       x = push_bit bits x + of_int val
                   in decode_loop table table_size bits grp emit x count pad
                        (if count AND grp = 0 then ptr @ emit x else ptr) rest)"

record decoder =
  dec_x :: u64
  dec_count :: u64
  dec_pad :: u64
  dec_rv :: nat
  dec_heap :: "data_error + data_heap"

text \<open>
  The block of the decoders. \<open>strip\<close> is the number of bytes taken off the end of the region for
  the padding seen so far; the subtraction wraps around like \<open>size_t\<close>. A failure of \<open>malloc\<close>
  is a region offset that is not in \<open>mem\<close>. The error branches are those of the data operations.
\<close>

definition decode_block ::
  "int list \<Rightarrow> nat \<Rightarrow> nat \<Rightarrow> u64 \<Rightarrow> (u64 \<Rightarrow> u8 list) \<Rightarrow> (u64 \<Rightarrow> nat) \<Rightarrow> (nat \<Rightarrow> bool)
     \<Rightarrow> decoder \<Rightarrow> nat \<Rightarrow> nat \<Rightarrow> u8 list \<Rightarrow> bool \<times> decoder" where
  "decode_block table table_size bits grp emit strip mem s region offset bytes =
     (if \<not> mem offset then (False, s)
      else case decode_loop table table_size bits grp emit (dec_x s) (dec_count s) (dec_pad s) [] bytes of
        None \<Rightarrow> (False, s)
      | Some (x, count, pad, ptr) \<Rightarrow>
          (case dec_heap s of Inl e \<Rightarrow> (False, s)
           | Inr h \<Rightarrow>
               let final = (length ptr + SIZE_MOD - strip pad) mod SIZE_MOD
               in (case dispatch_data_create (Some ptr) final None DESTRUCTOR_FREE True h of
                     Inl e \<Rightarrow> (False, s\<lparr>dec_heap := Inl e\<rparr>)
                   | Inr (val, h) \<Rightarrow>
                       (case dispatch_data_create_concat (dec_rv s) val h of
                          Inl e \<Rightarrow> (False, s\<lparr>dec_heap := Inl e\<rparr>)
                        | Inr (joined, h) \<Rightarrow>
                            (True, \<lparr>dec_x = x, dec_count = count, dec_pad = pad, dec_rv = joined,
                              dec_heap = Inr (dispatch_data_release (dec_rv s)
                                (dispatch_data_release val h))\<rparr>)))))"

definition decode_data ::
  "int list \<Rightarrow> nat \<Rightarrow> nat \<Rightarrow> u64 \<Rightarrow> (u64 \<Rightarrow> u8 list) \<Rightarrow> (u64 \<Rightarrow> nat) \<Rightarrow> nat \<Rightarrow> (nat \<Rightarrow> bool) \<Rightarrow> data_heap
     \<Rightarrow> data_error + nat option \<times> data_heap" where
  "decode_data table table_size bits grp emit strip d mem h =
     (case dispatch_data_apply d (decode_block table table_size bits grp emit strip mem)
         \<lparr>dec_x = 0, dec_count = 0, dec_pad = 0, dec_rv = dispatch_data_empty, dec_heap = Inr h\<rparr> h of
        Inl e \<Rightarrow> Inl e
      | Inr (success, s) \<Rightarrow>
          (case dec_heap s of Inl e \<Rightarrow> Inl e
           | Inr h \<Rightarrow> if success then Inr (Some (dec_rv s), h)
                      else Inr (None, dispatch_data_release (dec_rv s) h)))"

definition base32_emit :: "u64 \<Rightarrow> u8 list" where
  "base32_emit x = [ucast (drop_bit 32 x AND 0xff), ucast (drop_bit 24 x AND 0xff),
     ucast (drop_bit 16 x AND 0xff), ucast (drop_bit 8 x AND 0xff), ucast (x AND 0xff)]"

definition base32_strip :: "u64 \<Rightarrow> nat" where
  "base32_strip pad = (if pad = 1 then 1 else if pad = 3 then 2 else if pad = 4 then 3
     else if pad = 6 then 4 else 0)"

definition base64_emit :: "u64 \<Rightarrow> u8 list" where
  "base64_emit x = [ucast (drop_bit 16 x AND 0xff), ucast (drop_bit 8 x AND 0xff), ucast (x AND 0xff)]"

definition base64_strip :: "u64 \<Rightarrow> nat" where
  "base64_strip pad = (if 0 < pad then unat pad else 0)"

definition dispatch_transform_from_base32_with_table ::
  "nat \<Rightarrow> int list \<Rightarrow> nat \<Rightarrow> (nat \<Rightarrow> bool) \<Rightarrow> data_heap \<Rightarrow> data_error + nat option \<times> data_heap" where
  "dispatch_transform_from_base32_with_table d table table_size mem h =
     decode_data table table_size 5 0x7 base32_emit base32_strip d mem h"

definition dispatch_transform_from_base32 ::
  "nat \<Rightarrow> (nat \<Rightarrow> bool) \<Rightarrow> data_heap \<Rightarrow> data_error + nat option \<times> data_heap" where
  "dispatch_transform_from_base32 d mem h =
     dispatch_transform_from_base32_with_table d base32_decode_table base32_decode_table_size mem h"

definition dispatch_transform_from_base32hex ::
  "nat \<Rightarrow> (nat \<Rightarrow> bool) \<Rightarrow> data_heap \<Rightarrow> data_error + nat option \<times> data_heap" where
  "dispatch_transform_from_base32hex d mem h =
     dispatch_transform_from_base32_with_table d base32hex_decode_table base32hex_decode_table_size mem h"

definition dispatch_transform_from_base64 ::
  "nat \<Rightarrow> (nat \<Rightarrow> bool) \<Rightarrow> data_heap \<Rightarrow> data_error + nat option \<times> data_heap" where
  "dispatch_transform_from_base64 d mem h =
     decode_data base64_decode_table base64_decode_table_size 6 0x3 base64_emit base64_strip d mem h"

section \<open>Slices\<close>

lemma subrange_map_ok:
  assumes inv: "data_inv h ext" and o: "dh_obj h d = Some dd" and n: "0 < n"
  shows "dispatch_data_subrange_map d off n h
    = (if off + n \<le> length (data_bytes h d) then Some (take n (drop off (data_bytes h d))) else None)"
proof -
  from subrange_ok [OF inv o, of n off] obtain d' h' where
    r: "dispatch_data_create_subrange d off n h = Inr (d', h')" "data_inv h' (ref_add ext d')"
      "dh_obj h' d' \<noteq> None" "data_bytes h' d' = take n (drop off (data_bytes h d))"
    by (auto simp: data_result_ok_def split: sum.splits)
  from r(3) obtain dd' where o': "dh_obj h' d' = Some dd'" by blast
  have sz: "dispatch_data_get_size d' h' = length (data_bytes h' d')"
    using length_data_bytes [OF inv_wf [OF r(2)] o'] o' by (simp add: dispatch_data_get_size_def)
  show ?thesis
  proof (cases "off + n \<le> length (data_bytes h d)")
    case True
    then have len: "length (data_bytes h' d') = n" by (simp add: r(4))
    have "length (replicate n 0 :: u8 list) = dd_size dd'"
      using length_data_bytes [OF inv_wf [OF r(2)] o'] len by simp
    from create_map_ok [OF r(2) o' this] show ?thesis
      using True r(1,4) sz len n
      by (auto simp: dispatch_data_subrange_map_def split: sum.splits option.splits)
  next
    case False
    then have "length (data_bytes h' d') \<noteq> n" using n by (simp add: r(4))
    then show ?thesis using False r(1) sz by (simp add: dispatch_data_subrange_map_def)
  qed
qed

interpretation dispatch_slices: data_slices
  "\<lambda>(d, h) f s. dispatch_data_apply d f s h" "\<lambda>(d, h). data_regions h d" "\<lambda>(d, h). data_bytes h d" data_valid
  "\<lambda>(d, h) off n. dispatch_data_subrange_map d off n h"
  by unfold_locales (auto simp: data_valid_def subrange_map_ok)

section \<open>What the encoders write\<close>

fun enc_run :: "nat \<Rightarrow> (nat \<Rightarrow> u8 \<Rightarrow> u8 \<Rightarrow> u8 list) \<Rightarrow> nat \<Rightarrow> u8 \<Rightarrow> u8 list \<Rightarrow> u8 list" where
  "enc_run period quantum count prev [] = []"
| "enc_run period quantum count prev (cur # rest) =
     quantum (count mod period) (if count mod period = 0 then 0 else prev) cur
     @ enc_run period quantum (count + 1) cur rest"

lemma enc_run_append:
  "enc_run period quantum count prev (xs @ ys) = enc_run period quantum count prev xs
    @ enc_run period quantum (count + length xs) (if xs = [] then prev else last xs) ys"
  by (induction period quantum count prev xs rule: enc_run.induct) simp_all

lemma encode_loop_run:
  assumes "before = Some prev \<or> count mod period = 0"
  shows "encode_loop period quantum before count ptr bytes
    = Some (count + length bytes, ptr @ enc_run period quantum count prev bytes)"
  using assms
proof (induction period quantum before count ptr bytes arbitrary: prev rule: encode_loop.induct)
  case (2 period quantum before count ptr cur rest)
  have "encode_loop period quantum before count ptr (cur # rest) = encode_loop period quantum (Some cur) (count + 1)
      (ptr @ quantum (count mod period) (if count mod period = 0 then 0 else prev) cur) rest"
    using 2(2) by auto
  also have "\<dots> = Some (count + 1 + length rest, (ptr @ quantum (count mod period)
      (if count mod period = 0 then 0 else prev) cur) @ enc_run period quantum (count + 1) cur rest)"
    by (rule 2(1) [of "if count mod period = 0 then 0 else prev"]) (use 2(2) in auto)
  finally show ?case by simp
qed simp

definition enc_text :: "nat \<Rightarrow> (nat \<Rightarrow> u8 \<Rightarrow> u8 \<Rightarrow> u8 list) \<Rightarrow> (nat \<Rightarrow> u8 \<Rightarrow> u8 list) \<Rightarrow> u8 list \<Rightarrow> u8 list" where
  "enc_text period quantum tail xs =
     enc_run period quantum 0 0 xs @ (if xs = [] then [] else tail (length xs mod period) (last xs))"

lemma encode_block_run:
  assumes inv: "data_inv h ext" and o: "dh_obj h d = Some dd" and b: "data_bytes h d = xs @ bytes @ ys" "bytes \<noteq> []"
  shows "encode_block period quantum tail d h (dd_size dd) (length xs, enc_run period quantum 0 0 xs) region (length xs) bytes
    = (True, length (xs @ bytes), if ys = [] then enc_text period quantum tail (xs @ bytes)
         else enc_run period quantum 0 0 (xs @ bytes))"
proof -
  have len: "dd_size dd = length xs + length bytes + length ys"
    using length_data_bytes [OF inv_wf [OF inv] o] b(1) by simp
  have lt: "dd_size dd < SIZE_MOD"
    using inv_wf [OF inv] o by (cases rule: data_wf_cases) (auto simp: leaf_ok_def composite_ok_def)
  let ?before = "map_option hd (dispatch_data_subrange_map d ((length xs + SIZE_MOD - 1) mod SIZE_MOD) 1 h)"
  have before: "?before = Some (if xs = [] then 0 else last xs) \<or> length xs mod period = 0"
  proof (cases "xs = []")
    case False
    then have off: "(length xs + SIZE_MOD - 1) mod SIZE_MOD = length xs - 1"
      using len lt by (cases "length xs") auto
    have "data_valid (d, h)" using inv o by (rule data_validI)
    from dispatch_slices.slice_before [OF this, of xs "bytes @ ys"] b(1) False
    show ?thesis unfolding off by simp
  qed simp
  from encode_loop_run [OF before, of quantum "enc_run period quantum 0 0 xs" bytes]
  have "encode_loop period quantum ?before (length xs) (enc_run period quantum 0 0 xs) bytes
      = Some (length (xs @ bytes), enc_run period quantum 0 0 (xs @ bytes))"
    by (simp add: enc_run_append)
  then show ?thesis using b(2) len by (simp add: encode_block_def enc_text_def)
qed

text \<open>The result is one leaf.\<close>

definition data_flat :: "data_heap \<Rightarrow> nat \<Rightarrow> bool" where
  "data_flat h d = (\<exists>dd. dh_obj h d = Some dd \<and> dd_records dd = [])"

lemma empty_flat: "data_wf h \<Longrightarrow> data_flat h dispatch_data_empty"
  unfolding data_wf_def data_flat_def leaf_ok_def composite_ok_def rec_ok_def
  by (metis (no_types, lifting) list.map(2) list.set_intros(1) neq_Nil_conv sum_list.Cons add_is_0 less_numeral_extra(3))

lemma create_flat:
  assumes "dispatch_data_create (Some b) n None DESTRUCTOR_FREE True h = Inr (d, h')" "data_wf h'"
  shows "data_flat h' d"
proof (cases "n = 0")
  case True
  then show ?thesis using assms empty_flat by (simp add: dispatch_data_create_def split: if_splits)
next
  case False
  then show ?thesis using assms(1)
    by (auto simp: dispatch_data_create_def dispatch_data_alloc_def data_flat_def split: option.splits)
qed

lemma encode_data_ok:
  assumes inv: "data_inv h ext" and o: "dh_obj h d = Some dd"
    and fits: "howmany (dd_size dd) period * width < SIZE_MOD" "0 < width"
    and len: "length (enc_text period quantum tail (data_bytes h d)) = howmany (dd_size dd) period * width"
    and junk: "length dest = howmany (dd_size dd) period * width"
  shows "\<exists>d' h'. encode_data period width quantum tail d (Some dest) h = Inr (Some d', h')
    \<and> data_inv h' (ref_add ext d') \<and> data_ext h h' \<and> data_flat h' d'
    \<and> data_bytes h' d' = enc_text period quantum tail (data_bytes h d)"
proof -
  let ?f = "encode_block period quantum tail d h (dd_size dd)"
  let ?text = "enc_text period quantum tail (data_bytes h d)"
  have sz: "dispatch_data_get_size d h = dd_size dd" using o by (simp add: dispatch_data_get_size_def)
  have lb: "length (data_bytes h d) = dd_size dd" using inv_wf [OF inv] o by (rule length_data_bytes)
  have v: "data_valid (d, h)" using inv o by (rule data_validI)
  obtain s' where "dispatch_data_apply d ?f (0, []) h = Inr (True, s')" "snd s' = ?text"
  proof (rule dispatch_source.traverse_total [OF v, where f = ?f and s = "(0, [])" and
        P = "\<lambda>xs s. s = (length xs, if length xs = dd_size dd then enc_text period quantum tail xs
          else enc_run period quantum 0 0 xs)", unfolded prod.case])
    show "(0, []) = (length ([] :: u8 list), if length ([] :: u8 list) = dd_size dd
      then enc_text period quantum tail [] else enc_run period quantum 0 0 [])"
      by (simp add: enc_text_def)
  next
    fix xs s region bytes ys
    assume b: "data_bytes h d = xs @ bytes @ ys" "bytes \<noteq> []"
      and s: "s = (length xs, if length xs = dd_size dd then enc_text period quantum tail xs
          else enc_run period quantum 0 0 xs)"
    have "length xs \<noteq> dd_size dd" "length (xs @ bytes) = dd_size dd \<longleftrightarrow> ys = []" using b lb by (cases ys; auto)+
    then show "\<exists>s'. ?f s region (length xs) bytes = (True, s') \<and>
        s' = (length (xs @ bytes), if length (xs @ bytes) = dd_size dd
          then enc_text period quantum tail (xs @ bytes) else enc_run period quantum 0 0 (xs @ bytes))"
      using encode_block_run [OF inv o b, of period quantum tail region] s by (cases "ys = []") simp_all
  next
    fix s' assume "dispatch_data_apply d ?f (0, []) h = Inr (True, s')"
      and "s' = (length (data_bytes h d), if length (data_bytes h d) = dd_size dd
        then ?text else enc_run period quantum 0 0 (data_bytes h d))"
    then show thesis using that [of s'] lb by simp
  qed
  then have a: "dispatch_data_apply d ?f (0, []) h = Inr (True, fst s', ?text)" by (cases s') simp
  have nw: "\<not> (SIZE_MOD - 1) div width < howmany (dd_size dd) period"
  proof -
    have "howmany (dd_size dd) period * width \<le> SIZE_MOD - 1" using fits by simp
    then show ?thesis using fits(2) by (simp add: not_less less_eq_div_iff_mult_less_eq)
  qed
  have "data_result_ok h ext ?text (dispatch_data_create (Some (?text @ drop (length ?text) dest))
      (howmany (dd_size dd) period * width) None DESTRUCTOR_FREE True h)"
    using create_ok [OF inv, of "howmany (dd_size dd) period * width" "?text @ drop (length ?text) dest" DESTRUCTOR_FREE None]
      fits(1) len by simp
  then obtain d' h' where c: "dispatch_data_create (Some (?text @ drop (length ?text) dest))
      (howmany (dd_size dd) period * width) None DESTRUCTOR_FREE True h = Inr (d', h')"
    and r: "data_inv h' (ref_add ext d') \<and> data_ext h h' \<and> dh_obj h' d' \<noteq> None \<and> data_bytes h' d' = ?text"
    by (auto simp: data_result_ok_def split: sum.splits)
  have "encode_data period width quantum tail d (Some dest) h = Inr (Some d', h')"
    using a c nw by (simp add: encode_data_def sz Let_def)
  moreover have "data_flat h' d'" using create_flat [OF c] r by (simp add: data_inv_def)
  ultimately show ?thesis using r by blast
qed

section \<open>The alphabets\<close>

text \<open>A number as digits in base \<open>2 ^ bits\<close>, the most significant first.\<close>

definition digits :: "nat \<Rightarrow> nat \<Rightarrow> nat \<Rightarrow> nat list" where
  "digits bits k n = map (\<lambda>i. n div 2 ^ (bits * i) mod 2 ^ bits) (rev [0..<k])"

definition base64_chars :: "nat \<Rightarrow> u8 list" where
  "base64_chars n = map (\<lambda>v. base64_encode_table ! v) (digits 6 4 n)"

definition base32_chars :: "u8 list \<Rightarrow> nat \<Rightarrow> u8 list" where
  "base32_chars table n = map (\<lambda>v. table ! v) (digits 5 8 n)"

fun be_value :: "u8 list \<Rightarrow> nat" where
  "be_value [] = 0"
| "be_value (b # bs) = unat b * 256 ^ length bs + be_value bs"

text \<open>base64 as RFC 4648 defines it: 24-bit groups, the last one padded.\<close>

fun base64_ref :: "u8 list \<Rightarrow> u8 list" where
  "base64_ref (a # b # c # rest) = base64_chars (be_value [a, b, c]) @ base64_ref rest"
| "base64_ref [] = []"
| "base64_ref [a] = take 2 (base64_chars (be_value [a, 0, 0])) @ [pad_char, pad_char]"
| "base64_ref [a, b] = take 3 (base64_chars (be_value [a, b, 0])) @ [pad_char]"

text \<open>base32: 40-bit groups.\<close>

fun base32_ref :: "u8 list \<Rightarrow> u8 list \<Rightarrow> u8 list" where
  "base32_ref t (a # b # c # d # e # rest) = base32_chars t (be_value [a, b, c, d, e]) @ base32_ref t rest"
| "base32_ref t [] = []"
| "base32_ref t [a] = take 2 (base32_chars t (be_value [a, 0, 0, 0, 0])) @ replicate 6 pad_char"
| "base32_ref t [a, b] = take 4 (base32_chars t (be_value [a, b, 0, 0, 0])) @ replicate 4 pad_char"
| "base32_ref t [a, b, c] = take 5 (base32_chars t (be_value [a, b, c, 0, 0])) @ replicate 3 pad_char"
| "base32_ref t [a, b, c, d] = take 7 (base32_chars t (be_value [a, b, c, d, 0])) @ replicate 1 pad_char"

section \<open>The quanta as digits\<close>

lemma u8_bound: "unat (b :: u8) < 256"
  using unsigned_less [of b] by simp

lemma promote: "unat (ucast (b :: u8) :: u32) = unat b"
  using u8_bound [of b] by (simp add: unsigned_ucast_eq take_bit_nat_eq_self)

lemma and_mask_mod: "unat (w AND mask n :: u32) = unat w mod 2 ^ n"
  by (simp add: unat_take_bit flip: take_bit_eq_mask)

lemma len32: "LENGTH(32) = 32"
  by simp

lemma push_or_drop:
  assumes "k + m = 8"
  shows "unat ((push_bit k (ucast a) OR drop_bit m (ucast b)) :: u32) = unat (a :: u8) * 2 ^ k + unat (b :: u8) div 2 ^ m"
proof -
  have d: "unat (drop_bit m (ucast b) :: u32) = unat b div 2 ^ m"
    by (simp add: unat_drop_bit promote)
  have "(2::nat) ^ k \<le> 2 ^ 8" using assms by (intro power_increasing) simp_all
  then have "unat a * 2 ^ k \<le> 255 * 2 ^ 8" using u8_bound [of a] by (intro mult_le_mono) simp_all
  moreover have "unat b div 2 ^ m \<le> 255" using u8_bound [of b] div_le_dividend [of "unat b" "2 ^ m"] by linarith
  ultimately have lt: "unat a * 2 ^ k + unat b div 2 ^ m < 2 ^ 32" by simp
  then have "unat a * 2 ^ k < 2 ^ 32" by simp
  then have p: "unat (push_bit k (ucast a) :: u32) = unat a * 2 ^ k"
    using unsigned_push_bit_eq [of k "ucast a :: u32", where ?'a = nat]
    by (simp only: promote push_bit_eq_mult take_bit_nat_eq_self len32)
  have "(push_bit k (ucast a) OR drop_bit m (ucast b) :: u32) = push_bit k (ucast a) + drop_bit m (ucast b)"
  proof (rule disjunctive_add [symmetric])
    fix i show "\<not> bit (push_bit k (ucast a) :: u32) i \<or> \<not> bit (drop_bit m (ucast b) :: u32) i"
      using assms by (auto simp: bit_simps dest: bit_imp_le_length)
  qed
  then have "unat (push_bit k (ucast a) OR drop_bit m (ucast b) :: u32)
      = (unat a * 2 ^ k + unat b div 2 ^ m) mod 2 ^ 32"
    using p d by (simp only: unat_word_ariths) simp
  then show ?thesis using lt by simp
qed

lemma index_pair: "k + m = 8 \<Longrightarrow>
    unat ((push_bit k (ucast a) OR drop_bit m (ucast b) :: u32) AND mask n)
      = (unat (a :: u8) * 2 ^ k + unat (b :: u8) div 2 ^ m) mod 2 ^ n"
  by (simp add: and_mask_mod push_or_drop)

lemma index_drop: "unat (drop_bit m (ucast (b :: u8)) AND mask n :: u32) = unat b div 2 ^ m mod 2 ^ n"
  by (simp add: and_mask_mod unat_drop_bit promote)

lemma index_low: "unat (ucast (b :: u8) AND mask n :: u32) = unat b mod 2 ^ n"
  by (simp add: and_mask_mod promote)

lemma index_tail:
  "unat (push_bit k (ucast (b :: u8)) AND push_bit k (mask n) :: u32) = (unat b * 2 ^ k) mod 2 ^ (n + k)"
    if "k \<le> 8" "n + k \<le> 8"
proof -
  have "push_bit k (ucast b) AND push_bit k (mask n) = (push_bit k (ucast b) OR drop_bit (8 - k) (ucast (0 :: u8))) AND (mask (n + k) :: u32)"
    by (rule bit_word_eqI) (auto simp: bit_simps)
  then show ?thesis using that index_pair [of k "8 - k" b 0 "n + k"] by simp
qed

text \<open>The digits of a group, computed from its bytes.\<close>

lemma be_value_bound: "be_value bs < 256 ^ length bs"
proof (induction bs)
  case (Cons b bs)
  have "unat b * 256 ^ length bs \<le> 255 * 256 ^ length bs" using u8_bound [of b] by (intro mult_le_mono1) simp
  then show ?case using Cons by (simp only: be_value.simps length_Cons power_Suc)
qed simp

lemma digit_shift: "(x :: nat) < 2 ^ n \<Longrightarrow> k \<le> n \<Longrightarrow> (y * 2 ^ n + x) div 2 ^ k = y * 2 ^ (n - k) + x div 2 ^ k"
proof -
  assume "x < 2 ^ n" "k \<le> n"
  then have "(2::nat) ^ n = 2 ^ (n - k) * 2 ^ k" by (simp flip: power_add)
  then have "y * 2 ^ n + x = x + (y * 2 ^ (n - k)) * 2 ^ k" by simp
  then show ?thesis by (simp only: div_mult_self1 power_not_zero zero_neq_numeral) simp
qed

lemma digit_high: "(x :: nat) < 2 ^ n \<Longrightarrow> n \<le> k \<Longrightarrow> (y * 2 ^ n + x) div 2 ^ k = y div 2 ^ (k - n)"
proof -
  assume "x < 2 ^ n" "n \<le> k"
  then have "(2::nat) ^ k = 2 ^ n * 2 ^ (k - n)" by (simp flip: power_add)
  then have "(y * 2 ^ n + x) div 2 ^ k = (y * 2 ^ n + x) div 2 ^ n div 2 ^ (k - n)" by (simp only: div_mult2_eq)
  then show ?thesis using \<open>x < 2 ^ n\<close> by simp
qed

lemma digits_64: "digits 6 4 n = [n div 2 ^ 18 mod 64, n div 2 ^ 12 mod 64, n div 2 ^ 6 mod 64, n mod 64]"
  by (simp add: digits_def upt_conv_Cons)

lemma digits_32: "digits 5 8 n = [n div 2 ^ 35 mod 2 ^ 5, n div 2 ^ 30 mod 2 ^ 5, n div 2 ^ 25 mod 2 ^ 5,
    n div 2 ^ 20 mod 2 ^ 5, n div 2 ^ 15 mod 2 ^ 5, n div 2 ^ 10 mod 2 ^ 5, n div 2 ^ 5 mod 2 ^ 5, n mod 2 ^ 5]"
  by (simp add: digits_def upt_conv_Cons)

lemma be_horner3: "be_value [a, b, c] = (unat a * 2 ^ 8 + unat b) * 2 ^ 8 + unat c"
  by simp

lemma be_horner5: "be_value [a, b, c, d, e]
    = (((unat a * 2 ^ 8 + unat b) * 2 ^ 8 + unat c) * 2 ^ 8 + unat d) * 2 ^ 8 + unat e"
  by simp

lemma u8_bound2: "unat (b :: u8) < 2 ^ 8"
  using u8_bound [of b] by simp

lemma digit_high8: "8 \<le> k \<Longrightarrow> (y * 2 ^ 8 + unat (b :: u8)) div 2 ^ k = y div 2 ^ (k - 8)"
  by (rule digit_high [OF u8_bound2])

lemma digit_shift8: "k \<le> 8 \<Longrightarrow> (y * 2 ^ 8 + unat (b :: u8)) div 2 ^ k = y * 2 ^ (8 - k) + unat b div 2 ^ k"
  by (rule digit_shift [OF u8_bound2])

lemma mod_add_mult: "w \<le> k \<Longrightarrow> (y * 2 ^ k + x :: nat) mod 2 ^ w = x mod 2 ^ w"
proof -
  assume "w \<le> k"
  then have "(2::nat) ^ k = 2 ^ (k - w) * 2 ^ w" by (simp flip: power_add)
  then have "y * 2 ^ k + x = x + (y * 2 ^ (k - w)) * 2 ^ w" by simp
  then show ?thesis by (simp only: mod_mult_self1)
qed

lemma base64_group:
  "digits 6 4 (be_value [a, b, c]) =
    [unat a div 2 ^ 2, (unat a * 2 ^ 4 + unat b div 2 ^ 4) mod 64, (unat b * 2 ^ 2 + unat c div 2 ^ 6) mod 64,
     unat c mod 64]"
proof -
  let ?n = "be_value [a, b, c]"
  have "?n div 2 ^ 18 = unat a div 2 ^ 2" "?n div 2 ^ 12 = unat a * 2 ^ 4 + unat b div 2 ^ 4"
    "?n div 2 ^ 6 = (unat a * 2 ^ 8 + unat b) * 2 ^ 2 + unat c div 2 ^ 6"
    unfolding be_horner3
    using digit_high8 [of 18 "unat a * 2 ^ 8 + unat b" c] digit_high8 [of 10 "unat a" b]
      digit_high8 [of 12 "unat a * 2 ^ 8 + unat b" c] digit_shift8 [of 4 "unat a" b]
      digit_shift8 [of 6 "unat a * 2 ^ 8 + unat b" c] by simp_all
  moreover have "unat a div 2 ^ 2 mod 64 = unat a div 2 ^ 2" using u8_bound [of a] by simp
  moreover have "((unat a * 2 ^ 8 + unat b) * 2 ^ 2 + unat c div 2 ^ 6) mod 2 ^ 6
      = (unat b * 2 ^ 2 + unat c div 2 ^ 6) mod 2 ^ 6"
    using mod_add_mult [of 6 10 "unat a" "unat b * 2 ^ 2 + unat c div 2 ^ 6"] by (simp add: algebra_simps)
  moreover have "?n mod 2 ^ 6 = unat c mod 2 ^ 6"
    unfolding be_horner3 by (rule mod_add_mult) simp
  ultimately show ?thesis by (simp add: digits_64)
qed


lemma base32_group:
  "digits 5 8 (be_value [a, b, c, d, e]) =
    [unat a div 2 ^ 3, (unat a * 2 ^ 2 + unat b div 2 ^ 6) mod 2 ^ 5, unat b div 2 ^ 1 mod 2 ^ 5,
     (unat b * 2 ^ 4 + unat c div 2 ^ 4) mod 2 ^ 5, (unat c * 2 ^ 1 + unat d div 2 ^ 7) mod 2 ^ 5,
     unat d div 2 ^ 2 mod 2 ^ 5, (unat d * 2 ^ 3 + unat e div 2 ^ 5) mod 2 ^ 5, unat e mod 2 ^ 5]"
proof -
  let ?n = "be_value [a, b, c, d, e]"
  define x2 where "x2 = unat a * 2 ^ 8 + unat b"
  define x3 where "x3 = x2 * 2 ^ 8 + unat c"
  define x4 where "x4 = x3 * 2 ^ 8 + unat d"
  have n: "?n = x4 * 2 ^ 8 + unat e" by (simp add: x4_def x3_def x2_def)
  note h4 = digit_high8 [of _ x4 e, folded n] and h3 = digit_high8 [of _ x3 d, folded x4_def]
    and h2 = digit_high8 [of _ x2 c, folded x3_def] and h1 = digit_high8 [of _ "unat a" b, folded x2_def]
  note s4 = digit_shift8 [of _ x4 e, folded n] and s3 = digit_shift8 [of _ x3 d, folded x4_def]
    and s2 = digit_shift8 [of _ x2 c, folded x3_def] and s1 = digit_shift8 [of _ "unat a" b, folded x2_def]
  have f1: "?n div 2 ^ 35 = unat a div 2 ^ 3" using h4 [of 35] h3 [of 27] h2 [of 19] h1 [of 11] by simp
  have f2: "?n div 2 ^ 30 = unat a * 2 ^ 2 + unat b div 2 ^ 6" using h4 [of 30] h3 [of 22] h2 [of 14] s1 [of 6] by simp
  have f3: "?n div 2 ^ 25 = unat a * 2 ^ 7 + unat b div 2 ^ 1" using h4 [of 25] h3 [of 17] h2 [of 9] s1 [of 1] by simp
  have f4: "?n div 2 ^ 20 = x2 * 2 ^ 4 + unat c div 2 ^ 4" using h4 [of 20] h3 [of 12] s2 [of 4] by simp
  have f5: "?n div 2 ^ 15 = x3 * 2 ^ 1 + unat d div 2 ^ 7" using h4 [of 15] s3 [of 7] by simp
  have f6: "?n div 2 ^ 10 = x3 * 2 ^ 6 + unat d div 2 ^ 2" using h4 [of 10] s3 [of 2] by simp
  have f7: "?n div 2 ^ 5 = x4 * 2 ^ 3 + unat e div 2 ^ 5" using s4 [of 5] by simp
  have f8: "unat a div 2 ^ 3 mod 2 ^ 5 = unat a div 2 ^ 3" using u8_bound [of a] by simp
  note xdefs = x2_def x3_def x4_def
  have f9: "(x2 * 2 ^ 4 + unat c div 2 ^ 4) mod 2 ^ 5 = (unat b * 2 ^ 4 + unat c div 2 ^ 4) mod 2 ^ 5"
    using mod_add_mult [of 5 12 "unat a" "unat b * 2 ^ 4 + unat c div 2 ^ 4"] by (simp add: xdefs algebra_simps)
  have f10: "(x3 * 2 ^ 1 + unat d div 2 ^ 7) mod 2 ^ 5 = (unat c * 2 ^ 1 + unat d div 2 ^ 7) mod 2 ^ 5"
    using mod_add_mult [of 5 9 x2 "unat c * 2 ^ 1 + unat d div 2 ^ 7"] by (simp add: xdefs algebra_simps)
  have f11: "(x4 * 2 ^ 3 + unat e div 2 ^ 5) mod 2 ^ 5 = (unat d * 2 ^ 3 + unat e div 2 ^ 5) mod 2 ^ 5"
    using mod_add_mult [of 5 11 x3 "unat d * 2 ^ 3 + unat e div 2 ^ 5"] by (simp add: xdefs algebra_simps)
  have f12: "(unat a * 2 ^ 7 + unat b div 2 ^ 1) mod 2 ^ 5 = unat b div 2 ^ 1 mod 2 ^ 5"
    by (rule mod_add_mult) simp
  have f13: "(x3 * 2 ^ 6 + unat d div 2 ^ 2) mod 2 ^ 5 = unat d div 2 ^ 2 mod 2 ^ 5"
    by (rule mod_add_mult) simp
  have f14: "?n mod 2 ^ 5 = unat e mod 2 ^ 5"
    unfolding n by (rule mod_add_mult) simp
  show ?thesis by (simp only: digits_32 f1 f2 f3 f4 f5 f6 f7 f8 f9 f10 f11 f12 f13 f14)
qed

section \<open>The encoders are those of RFC 4648\<close>

lemma enc_run_shift:
  "enc_run p q (count + p) prev xs = enc_run p q count prev xs"
proof (induction xs arbitrary: count prev)
  case (Cons x xs)
  then show ?case using Cons.IH [of "Suc count" x] by simp
qed simp

lemma enc_run_start: "count mod p = 0 \<Longrightarrow> enc_run p q count prev xs = enc_run p q count 0 xs"
  by (cases xs) simp_all

lemma enc_run_group:
  assumes "length xs = p" "xs \<noteq> []"
  shows "enc_run p q 0 0 (xs @ ys) = enc_run p q 0 0 xs @ enc_run p q 0 0 ys"
  using assms enc_run_shift [of p q 0 "last xs" ys] enc_run_start [of 0 p q "last xs" ys]
  by (simp add: enc_run_append)

lemma enc_text_group:
  assumes "length xs = p" "xs \<noteq> []" "\<And>x. tail 0 x = []"
  shows "enc_text p q tail (xs @ ys) = enc_run p q 0 0 xs @ enc_text p q tail ys"
  using assms enc_run_group [OF assms(1,2), of q ys] by (auto simp: enc_text_def)

declare be_value.simps [simp del]

lemma index_pair31: "k + m = 8 \<Longrightarrow> unat ((push_bit k (ucast a) OR drop_bit m (ucast b) :: u32) AND 31)
    = (unat (a :: u8) * 2 ^ k + unat (b :: u8) div 2 ^ m) mod 32"
  using index_pair [of k m a b 5] by (simp add: mask_eq_exp_minus_1)

lemma index_pair63: "k + m = 8 \<Longrightarrow> unat ((push_bit k (ucast a) OR drop_bit m (ucast b) :: u32) AND 63)
    = (unat (a :: u8) * 2 ^ k + unat (b :: u8) div 2 ^ m) mod 64"
  using index_pair [of k m a b 6] by (simp add: mask_eq_exp_minus_1)

lemma index_double31: "unat ((ucast a * 2 OR drop_bit 7 (ucast b) :: u32) AND 31)
    = (unat (a :: u8) * 2 + unat (b :: u8) div 128) mod 32"
  using index_pair31 [of 1 7 a b] by simp

lemma index_drop31: "unat (drop_bit m (ucast (b :: u8)) AND 31 :: u32) = unat b div 2 ^ m mod 32"
  using index_drop [of m b 5] by (simp add: mask_eq_exp_minus_1)

lemma index_drop63: "unat (drop_bit m (ucast (b :: u8)) AND 63 :: u32) = unat b div 2 ^ m mod 64"
  using index_drop [of m b 6] by (simp add: mask_eq_exp_minus_1)

lemma index_low31: "unat (ucast (b :: u8) AND 31 :: u32) = unat b mod 32"
  using index_low [of b 5] by (simp add: mask_eq_exp_minus_1)

lemma index_low63: "unat (ucast (b :: u8) AND 63 :: u32) = unat b mod 64"
  using index_low [of b 6] by (simp add: mask_eq_exp_minus_1)

lemma index_tail31:
  "unat (push_bit 2 (ucast (b :: u8)) AND 28 :: u32) = unat b * 4 mod 32"
  "unat (push_bit 4 (ucast (b :: u8)) AND 16 :: u32) = unat b * 16 mod 32"
  "unat (ucast (b :: u8) * 2 AND 30 :: u32) = unat b * 2 mod 32"
  "unat (push_bit 3 (ucast (b :: u8)) AND 24 :: u32) = unat b * 8 mod 32"
  subgoal using index_tail [of 2 3 b] by (simp add: mask_eq_exp_minus_1)
  subgoal using index_tail [of 4 1 b] by (simp add: mask_eq_exp_minus_1)
  subgoal using index_tail [of 1 4 b] by (simp add: mask_eq_exp_minus_1)
  subgoal using index_tail [of 3 2 b] by (simp add: mask_eq_exp_minus_1)
  done

lemma index_tail63:
  "unat (push_bit 4 (ucast (b :: u8)) AND 48 :: u32) = unat b * 16 mod 64"
  "unat (push_bit 2 (ucast (b :: u8)) AND 60 :: u32) = unat b * 4 mod 64"
  subgoal using index_tail [of 4 2 b] by (simp add: mask_eq_exp_minus_1)
  subgoal using index_tail [of 2 4 b] by (simp add: mask_eq_exp_minus_1)
  done

lemmas index_31 = index_pair31 index_double31 index_drop31 index_low31 index_tail31
lemmas index_63 = index_pair63 index_drop63 index_low63 index_tail63

lemma base64_quantum_nat:
  "base64_quantum 0 x a = [base64_encode_table ! (unat a div 4)]"
  "base64_quantum (Suc 0) a b = [base64_encode_table ! ((unat a * 16 + unat b div 16) mod 64)]"
  "base64_quantum (Suc (Suc 0)) b c = [base64_encode_table ! ((unat b * 4 + unat c div 64) mod 64),
     base64_encode_table ! (unat c mod 64)]"
  "base64_tail (Suc 0) a = [base64_encode_table ! (unat a * 16 mod 64), pad_char, pad_char]"
  "base64_tail (Suc (Suc 0)) b = [base64_encode_table ! (unat b * 4 mod 64), pad_char]"
  using u8_bound [of a] by (simp_all add: base64_quantum_def base64_tail_def index_63)

lemma base64_chars_nat:
  "base64_chars (be_value [a, b, c]) = [base64_encode_table ! (unat a div 4),
     base64_encode_table ! ((unat a * 16 + unat b div 16) mod 64),
     base64_encode_table ! ((unat b * 4 + unat c div 64) mod 64), base64_encode_table ! (unat c mod 64)]"
  by (simp add: base64_chars_def base64_group)

lemma base64_text: "enc_text 3 base64_quantum base64_tail xs = base64_ref xs"
proof (induction xs rule: base64_ref.induct)
  case (1 a b c rest)
  have "enc_text 3 base64_quantum base64_tail ([a, b, c] @ rest)
      = enc_run 3 base64_quantum 0 0 [a, b, c] @ enc_text 3 base64_quantum base64_tail rest"
    by (rule enc_text_group) (simp_all add: base64_tail_def)
  then show ?case using 1 by (simp add: base64_quantum_nat base64_chars_nat)
qed (simp_all add: enc_text_def base64_quantum_nat base64_chars_nat)

lemma base32_quantum_nat:
  "base32_quantum t 0 x a = [t ! (unat a div 8)]"
  "base32_quantum t (Suc 0) a b = [t ! ((unat a * 4 + unat b div 64) mod 32), t ! (unat b div 2 mod 32)]"
  "base32_quantum t (Suc (Suc 0)) b c = [t ! ((unat b * 16 + unat c div 16) mod 32)]"
  "base32_quantum t 3 c d = [t ! ((unat c * 2 + unat d div 128) mod 32), t ! (unat d div 4 mod 32)]"
  "base32_quantum t 4 d e = [t ! ((unat d * 8 + unat e div 32) mod 32), t ! (unat e mod 32)]"
  using u8_bound [of a] by (simp_all add: base32_quantum_def index_31)

lemma base32_tail_nat:
  "base32_tail t (Suc 0) a = t ! (unat a * 4 mod 32) # replicate 6 pad_char"
  "base32_tail t (Suc (Suc 0)) b = t ! (unat b * 16 mod 32) # replicate 4 pad_char"
  "base32_tail t 3 c = t ! (unat c * 2 mod 32) # replicate 3 pad_char"
  "base32_tail t 4 d = t ! (unat d * 8 mod 32) # replicate 1 pad_char"
  by (simp_all add: base32_tail_def index_31)

lemma base32_chars_nat:
  "base32_chars t (be_value [a, b, c, d, e]) = [t ! (unat a div 8), t ! ((unat a * 4 + unat b div 64) mod 32),
     t ! (unat b div 2 mod 32), t ! ((unat b * 16 + unat c div 16) mod 32),
     t ! ((unat c * 2 + unat d div 128) mod 32), t ! (unat d div 4 mod 32),
     t ! ((unat d * 8 + unat e div 32) mod 32), t ! (unat e mod 32)]"
  by (simp add: base32_chars_def base32_group)

lemma base32_text: "enc_text 5 (base32_quantum t) (base32_tail t) xs = base32_ref t xs"
proof (induction t xs rule: base32_ref.induct)
  case (1 t a b c d e rest)
  have "enc_text 5 (base32_quantum t) (base32_tail t) ([a, b, c, d, e] @ rest)
      = enc_run 5 (base32_quantum t) 0 0 [a, b, c, d, e] @ enc_text 5 (base32_quantum t) (base32_tail t) rest"
    by (rule enc_text_group) (simp_all add: base32_tail_def)
  then show ?case using 1 by (simp add: base32_quantum_nat base32_chars_nat)
qed (simp_all add: enc_text_def base32_quantum_nat base32_tail_nat base32_chars_nat)

lemma howmany_add: "0 < p \<Longrightarrow> howmany (p + n) p = Suc (howmany n p)"
  using div_add_self1 [of p n] by (simp add: howmany_def)

lemma length_base64: "length (base64_ref xs) = howmany (length xs) 3 * 4"
proof (induction xs rule: base64_ref.induct)
  case (1 a b c rest)
  have "length (a # b # c # rest) = 3 + length rest" by simp
  with 1 show ?case by (simp only: base64_ref.simps length_append howmany_add) (simp add: base64_chars_nat)
qed (simp_all add: base64_chars_nat howmany_def)

lemma length_base32: "length (base32_ref t xs) = howmany (length xs) 5 * 8"
proof (induction t xs rule: base32_ref.induct)
  case (1 t a b c d e rest)
  have "length (a # b # c # d # e # rest) = 5 + length rest" by simp
  with 1 show ?case by (simp only: base32_ref.simps length_append howmany_add) (simp add: base32_chars_nat)
qed (simp_all add: base32_chars_nat howmany_def)

lemma to_base64_ok:
  assumes "data_inv h ext" "dh_obj h d = Some dd" "howmany (dd_size dd) 3 * 4 < SIZE_MOD"
    and "length dest = howmany (dd_size dd) 3 * 4"
  shows "\<exists>d' h'. dispatch_transform_to_base64 d (Some dest) h = Inr (Some d', h') \<and> data_inv h' (ref_add ext d')
    \<and> data_ext h h' \<and> data_bytes h' d' = base64_ref (data_bytes h d) \<and> data_flat h' d'"
  using encode_data_ok [OF assms(1,2), of 3 4 base64_quantum base64_tail dest] assms
    length_data_bytes [OF inv_wf [OF assms(1)] assms(2)]
  by (auto simp: dispatch_transform_to_base64_def base64_text length_base64)

lemma to_base32_ok:
  assumes "data_inv h ext" "dh_obj h d = Some dd" "howmany (dd_size dd) 5 * 8 < SIZE_MOD"
    and "length dest = howmany (dd_size dd) 5 * 8"
  shows "\<exists>d' h'. dispatch_transform_to_base32_with_table d table (Some dest) h = Inr (Some d', h')
    \<and> data_inv h' (ref_add ext d') \<and> data_ext h h' \<and> data_bytes h' d' = base32_ref table (data_bytes h d)
    \<and> data_flat h' d'"
  using encode_data_ok [OF assms(1,2), of 5 8 "base32_quantum table" "base32_tail table" dest] assms
    length_data_bytes [OF inv_wf [OF assms(1)] assms(2)]
  by (auto simp: dispatch_transform_to_base32_with_table_def base32_text length_base32)

end
