(* ===== verification/Transform_Decode.thy ===== *)
theory Transform_Decode
  imports Transform
begin

text \<open>
  The decoders of \<open>transform.c\<close>: what the loop writes for the text of a whole group, decoding over
  any fragmentation of the text that does not separate padding characters, the round trips, and
  what the code does when padding and its group are in different regions.
\<close>

section \<open>Characters\<close>

text \<open>\<open>c\<close> is a character of the alphabet with value \<open>v\<close>, or the padding character (\<open>p\<close>).\<close>

definition decodes :: "int list \<Rightarrow> nat \<Rightarrow> u8 \<Rightarrow> nat \<Rightarrow> bool \<Rightarrow> bool" where
  "decodes table table_size c v p = (\<not> whitespace c \<and> unat c < table_size \<and>
     (if p then table ! unat c = -2 \<and> v = 0 else table ! unat c = int v))"

lemma base64_decodes: "v < 64 \<Longrightarrow> decodes base64_decode_table base64_decode_table_size (base64_encode_table ! v) v False"
proof -
  have "list_all (\<lambda>v. decodes base64_decode_table base64_decode_table_size (base64_encode_table ! v) v False) [0..<64]"
    by code_simp
  then show "v < 64 \<Longrightarrow> ?thesis" by (simp add: list_all_iff)
qed

lemma base64_pad: "decodes base64_decode_table base64_decode_table_size pad_char 0 True"
  by code_simp

lemma base32_decodes: "v < 32 \<Longrightarrow> decodes base32_decode_table base32_decode_table_size (base32_encode_table ! v) v False"
proof -
  have "list_all (\<lambda>v. decodes base32_decode_table base32_decode_table_size (base32_encode_table ! v) v False) [0..<32]"
    by code_simp
  then show "v < 32 \<Longrightarrow> ?thesis" by (simp add: list_all_iff)
qed

lemma base32_pad: "decodes base32_decode_table base32_decode_table_size pad_char 0 True"
  by code_simp

section \<open>The loop\<close>

lemma decode_char:
  assumes "decodes table table_size c v p"
  shows "decode_loop table table_size bits grp emit x count pad ptr (c # rest)
    = decode_loop table table_size bits grp emit (push_bit bits x + of_nat v) (count + 1) (pad + of_bool p)
        (if (count + 1) AND grp = 0 then ptr @ emit (push_bit bits x + of_nat v) else ptr) rest"
  using assms by (cases p) (auto simp: decodes_def Let_def)

lemma decode_loop_append:
  "decode_loop table table_size bits grp emit x count pad ptr (xs @ ys)
    = (case decode_loop table table_size bits grp emit x count pad ptr xs of None \<Rightarrow> None
       | Some (x, count, pad, ptr) \<Rightarrow> decode_loop table table_size bits grp emit x count pad ptr ys)"
  by (induction table table_size bits grp emit x count pad ptr xs rule: decode_loop.induct) (auto simp: Let_def)

lemma decode_loop_ptr:
  "decode_loop table table_size bits grp emit x count pad ptr xs
    = map_option (\<lambda>(x, count, pad, out). (x, count, pad, ptr @ out))
        (decode_loop table table_size bits grp emit x count pad [] xs)"
proof (induction xs arbitrary: x count pad ptr)
  case (Cons b xs)
  let ?x = "push_bit bits x + of_int (if table ! unat b = -2 then 0 else table ! unat b)"
  let ?pad = "if table ! unat b = -2 then pad + 1 else pad"
  have o: "map_option (\<lambda>(x, count, pad, out). (x, count, pad, ptr @ out)) (map_option
      (\<lambda>(x, count, pad, out). (x, count, pad, e @ out)) r)
    = map_option (\<lambda>(x, count, pad, out). (x, count, pad, (ptr @ e) @ out)) r" for ptr e :: "u8 list" and r :: "(u64 \<times> u64 \<times> u64 \<times> u8 list) option"
    by (cases r) auto
  show ?case
    using Cons.IH [of x count pad ptr] Cons.IH [of ?x "count + 1" ?pad ptr]
      Cons.IH [of ?x "count + 1" ?pad "ptr @ emit ?x"] Cons.IH [of ?x "count + 1" ?pad "emit ?x"]
    by (simp add: Let_def o)
qed simp

lemma decode_loop_skip:
  "decode_loop table table_size bits grp emit x count pad ptr (filter (\<lambda>b. \<not> whitespace b) xs)
    = decode_loop table table_size bits grp emit x count pad ptr xs"
  by (induction table table_size bits grp emit x count pad ptr xs rule: decode_loop.induct) (auto simp: Let_def)

text \<open>A counter at the start of a group, and inside it.\<close>

lemma unat_and_mask64: "n \<le> 64 \<Longrightarrow> unat (w AND mask n :: u64) = unat w mod 2 ^ n"
  by (simp add: unat_take_bit flip: take_bit_eq_mask)

lemma unat_add_mod64: "n \<le> 64 \<Longrightarrow> unat (a + b :: u64) mod 2 ^ n = (unat a + unat b) mod 2 ^ n"
proof -
  assume n: "n \<le> 64"
  have "unat (a + b) = (unat a + unat b) mod 2 ^ 64" by (simp add: unat_word_ariths)
  moreover have "(2::nat) ^ n dvd 2 ^ 64" using n by (rule le_imp_power_dvd)
  ultimately show ?thesis by (simp only: mod_mod_cancel)
qed

lemma group_count:
  assumes "count AND mask n = (0 :: u64)" "n \<le> 64"
  shows "(count + k) AND mask n = k AND mask n"
proof -
  have "unat count mod 2 ^ n = 0" using unat_and_mask64 [OF assms(2), of count] assms(1) by simp
  then have "unat ((count + k) AND mask n) = unat (k AND mask n)"
    using unat_add_mod64 [OF assms(2), of count k] mod_add_left_eq [of "unat count" "2 ^ n" "unat k"]
    by (simp add: unat_and_mask64 [OF assms(2)])
  then show ?thesis by (rule unsigned_word_eqI)
qed

lemma group_3:
  assumes "count AND 3 = (0 :: u64)"
  shows "(count + 1) AND 3 \<noteq> 0" "(count + 2) AND 3 \<noteq> 0" "(count + 3) AND 3 \<noteq> 0" "(count + 4) AND 3 = 0"
  using group_count [of count 2 1] group_count [of count 2 2] group_count [of count 2 3] group_count [of count 2 4] assms
  by (simp_all add: mask_eq_exp_minus_1)

lemma group_7:
  assumes "count AND 7 = (0 :: u64)"
  shows "(count + 1) AND 7 \<noteq> 0" "(count + 2) AND 7 \<noteq> 0" "(count + 3) AND 7 \<noteq> 0" "(count + 4) AND 7 \<noteq> 0"
    "(count + 5) AND 7 \<noteq> 0" "(count + 6) AND 7 \<noteq> 0" "(count + 7) AND 7 \<noteq> 0" "(count + 8) AND 7 = 0"
  using group_count [of count 3 1] group_count [of count 3 2] group_count [of count 3 3] group_count [of count 3 4]
    group_count [of count 3 5] group_count [of count 3 6] group_count [of count 3 7] group_count [of count 3 8] assms
  by (simp_all add: mask_eq_exp_minus_1)

lemma decode_group64:
  fixes x :: u64 and v0 v1 v2 v3 :: nat
  assumes "decodes t s c0 v0 p0" "decodes t s c1 v1 p1" "decodes t s c2 v2 p2" "decodes t s c3 v3 p3"
    and "count AND 3 = 0"
  defines "x' \<equiv> (x :: u64) * 2 ^ 24 + of_nat (((v0 * 64 + v1) * 64 + v2) * 64 + v3)"
  shows "decode_loop t s 6 3 emit x count pad ptr ([c0, c1, c2, c3] @ rest)
    = decode_loop t s 6 3 emit x' (count + 4) (pad + of_bool p0 + of_bool p1 + of_bool p2 + of_bool p3)
        (ptr @ emit x') rest"
proof -
  have x': "push_bit 6 (push_bit 6 (push_bit 6 (push_bit 6 x + of_nat v0) + of_nat v1) + of_nat v2) + of_nat v3 = x'"
    by (simp add: x'_def push_bit_eq_mult algebra_simps)
  note g = group_3 [OF assms(5)]
  have c: "count + 1 + 1 = count + 2" "count + 2 + 1 = count + 3" "count + 3 + 1 = count + 4" by simp_all
  show ?thesis
    by (simp only: append.simps decode_char [OF assms(1)] decode_char [OF assms(2)] decode_char [OF assms(3)]
        decode_char [OF assms(4)] c g if_False if_True x' simp_thms)
qed

lemma decode_group32:
  fixes x :: u64 and v0 v1 v2 v3 v4 v5 v6 v7 :: nat
  assumes "decodes t s c0 v0 p0" "decodes t s c1 v1 p1" "decodes t s c2 v2 p2" "decodes t s c3 v3 p3"
    and "decodes t s c4 v4 p4" "decodes t s c5 v5 p5" "decodes t s c6 v6 p6" "decodes t s c7 v7 p7"
    and "count AND 7 = 0"
  defines "x' \<equiv> x * 2 ^ 40 + of_nat (((((((v0 * 32 + v1) * 32 + v2) * 32 + v3) * 32 + v4) * 32 + v5) * 32 + v6) * 32 + v7)"
  shows "decode_loop t s 5 7 emit x count pad ptr ([c0, c1, c2, c3, c4, c5, c6, c7] @ rest)
    = decode_loop t s 5 7 emit x' (count + 8) (pad + of_bool p0 + of_bool p1 + of_bool p2 + of_bool p3
        + of_bool p4 + of_bool p5 + of_bool p6 + of_bool p7) (ptr @ emit x') rest"
proof -
  have x': "push_bit 5 (push_bit 5 (push_bit 5 (push_bit 5 (push_bit 5 (push_bit 5 (push_bit 5 (push_bit 5 x
      + of_nat v0) + of_nat v1) + of_nat v2) + of_nat v3) + of_nat v4) + of_nat v5) + of_nat v6) + of_nat v7 = x'"
    by (simp add: x'_def push_bit_eq_mult algebra_simps)
  note g = group_7 [OF assms(9)]
  have c: "count + 1 + 1 = count + 2" "count + 2 + 1 = count + 3" "count + 3 + 1 = count + 4"
    "count + 4 + 1 = count + 5" "count + 5 + 1 = count + 6" "count + 6 + 1 = count + 7" "count + 7 + 1 = count + 8"
    by simp_all
  show ?thesis
    by (simp only: append.simps decode_char [OF assms(1)] decode_char [OF assms(2)] decode_char [OF assms(3)]
        decode_char [OF assms(4)] decode_char [OF assms(5)] decode_char [OF assms(6)] decode_char [OF assms(7)]
        decode_char [OF assms(8)] c g if_False if_True x' simp_thms)
qed

section \<open>The bytes of a group\<close>

lemma be_value_inj_byte:
  "be_value (xs @ [b] @ ys) div 256 ^ length ys mod 256 = unat b"
proof -
  have "be_value (xs @ [b] @ ys) = be_value xs * 256 ^ (Suc (length ys)) + unat b * 256 ^ length ys + be_value ys"
  proof (induction xs)
    case Nil
    show ?case by (simp add: be_value.simps)
  next
    case (Cons x xs)
    then show ?case by (simp add: be_value.simps algebra_simps power_add)
  qed
  also have "\<dots> = (be_value xs * 256 + unat b) * 256 ^ length ys + be_value ys" by (simp add: algebra_simps)
  finally have "be_value (xs @ [b] @ ys) div 256 ^ length ys = be_value xs * 256 + unat b"
    using be_value_bound [of ys] by simp
  then show ?thesis using u8_bound [of b] by simp
qed

lemma digit_of_mod:
  assumes "k + j \<le> m"
  shows "(n mod 2 ^ m) div 2 ^ k mod 2 ^ j = n div 2 ^ k mod (2 ^ j :: nat)"
proof -
  have "min j (m - k) = j" using assms by simp
  then have "take_bit j (drop_bit k (take_bit m n)) = take_bit j (drop_bit k n)"
    by (simp add: drop_bit_take_bit)
  then show ?thesis by (simp only: take_bit_eq_mod drop_bit_eq_div)
qed

text \<open>The low bits of \<open>x\<close> hold the group, whatever earlier groups left above them.\<close>

lemma emit_byte:
  assumes n: "N < 2 ^ m" and k: "k + 8 \<le> m" "m \<le> 64"
  shows "unat (ucast (drop_bit k ((x :: u64) * 2 ^ m + of_nat N) AND 0xff) :: u8) = N div 2 ^ k mod 256"
proof -
  let ?w = "x * 2 ^ m + of_nat N"
  have "unat ?w mod 2 ^ m = (unat (x * 2 ^ m) + unat (of_nat N :: u64)) mod 2 ^ m"
    using unat_add_mod64 [OF k(2)] .
  moreover have "unat (x * 2 ^ m) mod 2 ^ m = 0"
  proof -
    have "unat (x * 2 ^ m) = take_bit 64 (push_bit m (unat x))"
      using unsigned_push_bit_eq [of m x, where ?'a = nat] by (simp add: push_bit_eq_mult)
    then have u: "unat (x * 2 ^ m) = unat x * 2 ^ m mod 2 ^ 64"
      by (simp only: push_bit_eq_mult take_bit_eq_mod)
    have "(2::nat) ^ m dvd 2 ^ 64" using k(2) by (rule le_imp_power_dvd)
    then show ?thesis unfolding u by (simp only: mod_mod_cancel mod_mult_self2_is_0)
  qed
  moreover have "N < 2 ^ 64" using n power_increasing [OF k(2), of "2::nat"] by linarith
  then have "unat (of_nat N :: u64) = N" by (simp add: unat_of_nat)
  ultimately have low: "unat ?w mod 2 ^ m = N"
    using n mod_add_left_eq [of "unat (x * 2 ^ m)" "2 ^ m" N] by simp
  have "unat ?w div 2 ^ k mod 2 ^ 8 = N div 2 ^ k mod 2 ^ 8"
    using digit_of_mod [OF k(1), of "unat ?w"] unfolding low by (rule sym)
  moreover have "unat (drop_bit k ?w AND 0xff) = unat ?w div 2 ^ k mod 2 ^ 8"
    using unat_and_mask64 [of 8 "drop_bit k ?w"] by (simp add: unat_drop_bit mask_eq_exp_minus_1)
  ultimately show ?thesis
    by (simp add: unsigned_ucast_eq take_bit_nat_eq_self)
qed

lemma u8_eqI: "unat (a :: u8) = unat b \<Longrightarrow> a = b"
  by (rule unsigned_word_eqI)

lemma emit_be_byte:
  assumes "length (xs @ [b] @ ys) = n" "8 * n = m" "8 * length ys = k" "m \<le> 64"
  shows "ucast (drop_bit k ((x :: u64) * 2 ^ m + of_nat (be_value (xs @ [b] @ ys))) AND 0xff) = b"
proof (rule u8_eqI)
  have p: "(256::nat) ^ i = 2 ^ (8 * i)" for i by (simp add: power_mult)
  have "be_value (xs @ [b] @ ys) < 2 ^ m"
    using be_value_bound [of "xs @ [b] @ ys"] unfolding p assms(1) assms(2) .
  from emit_byte [OF this _ assms(4), of k x] assms
  show "unat (ucast (drop_bit k (x * 2 ^ m + of_nat (be_value (xs @ [b] @ ys))) AND 0xff) :: u8) = unat b"
    using be_value_inj_byte [of xs b ys] unfolding p by simp
qed

lemma base64_emit_group:
  "base64_emit (x * 2 ^ 24 + of_nat (be_value [a, b, c])) = [a, b, c]"
proof -
  let ?x = "x * 2 ^ 24 + of_nat (be_value [a, b, c])"
  have "ucast (drop_bit 16 ?x AND 0xff) = a" using emit_be_byte [of "[]" a "[b, c]" 3 24 16 x] by simp
  moreover have "ucast (drop_bit 8 ?x AND 0xff) = b" using emit_be_byte [of "[a]" b "[c]" 3 24 8 x] by simp
  moreover have "ucast (?x AND 0xff) = c" using emit_be_byte [of "[a, b]" c "[]" 3 24 0 x] by simp
  ultimately show ?thesis unfolding base64_emit_def by (simp only:)
qed

lemma base32_emit_group:
  "base32_emit (x * 2 ^ 40 + of_nat (be_value [a, b, c, d, e])) = [a, b, c, d, e]"
proof -
  let ?x = "x * 2 ^ 40 + of_nat (be_value [a, b, c, d, e])"
  have "ucast (drop_bit 32 ?x AND 0xff) = a" using emit_be_byte [of "[]" a "[b, c, d, e]" 5 40 32 x] by simp
  moreover have "ucast (drop_bit 24 ?x AND 0xff) = b" using emit_be_byte [of "[a]" b "[c, d, e]" 5 40 24 x] by simp
  moreover have "ucast (drop_bit 16 ?x AND 0xff) = c" using emit_be_byte [of "[a, b]" c "[d, e]" 5 40 16 x] by simp
  moreover have "ucast (drop_bit 8 ?x AND 0xff) = d" using emit_be_byte [of "[a, b, c]" d "[e]" 5 40 8 x] by simp
  moreover have "ucast (?x AND 0xff) = e" using emit_be_byte [of "[a, b, c, d]" e "[]" 5 40 0 x] by simp
  ultimately show ?thesis unfolding base32_emit_def by (simp only:)
qed

text \<open>The digits of a number put together again.\<close>

lemma digit_step: "(n :: nat) div b * b + n mod b = n"
  by (simp add: div_mult_mod_eq)

lemma digits_64_value:
  assumes "n < 2 ^ 24" "digits 6 4 n = [v0, v1, v2, v3]"
  shows "((v0 * 64 + v1) * 64 + v2) * 64 + v3 = n"
proof -
  define n1 where "n1 = n div 64"
  define n2 where "n2 = n1 div 64"
  define n3 where "n3 = n2 div 64"
  have "n3 < 64" using assms(1) by (simp add: n3_def n2_def n1_def div_mult2_eq [symmetric] less_mult_imp_div_less)
  moreover have "n div 2 ^ 12 = n2" "n div 2 ^ 18 = n3" by (simp_all add: n3_def n2_def n1_def div_mult2_eq [symmetric])
  ultimately have "v0 = n3" "v1 = n2 mod 64" "v2 = n1 mod 64" "v3 = n mod 64"
    using assms(2) by (simp_all add: digits_64 n1_def)
  then show ?thesis using digit_step [of n2 64] digit_step [of n1 64] digit_step [of n 64]
    by (simp add: n3_def n2_def n1_def)
qed

lemma digits_32_value:
  assumes "n < 2 ^ 40" "digits 5 8 n = [v0, v1, v2, v3, v4, v5, v6, v7]"
  shows "((((((v0 * 32 + v1) * 32 + v2) * 32 + v3) * 32 + v4) * 32 + v5) * 32 + v6) * 32 + v7 = n"
proof -
  define n1 where "n1 = n div 32"
  define n2 where "n2 = n1 div 32"
  define n3 where "n3 = n2 div 32"
  define n4 where "n4 = n3 div 32"
  define n5 where "n5 = n4 div 32"
  define n6 where "n6 = n5 div 32"
  define n7 where "n7 = n6 div 32"
  note defs = n7_def n6_def n5_def n4_def n3_def n2_def n1_def
  have "n7 < 32" using assms(1) by (simp add: defs div_mult2_eq [symmetric] less_mult_imp_div_less)
  moreover have "n div 2 ^ 10 = n2" "n div 2 ^ 15 = n3" "n div 2 ^ 20 = n4" "n div 2 ^ 25 = n5" "n div 2 ^ 30 = n6"
    "n div 2 ^ 35 = n7" by (simp_all add: defs div_mult2_eq [symmetric])
  ultimately have v: "v0 = n7" "v1 = n6 mod 32" "v2 = n5 mod 32" "v3 = n4 mod 32" "v4 = n3 mod 32"
    "v5 = n2 mod 32" "v6 = n1 mod 32" "v7 = n mod 32"
    using assms(2) by (simp_all add: digits_32 n1_def)
  show ?thesis
    unfolding v unfolding n7_def digit_step unfolding n6_def digit_step unfolding n5_def digit_step
    unfolding n4_def digit_step unfolding n3_def digit_step unfolding n2_def digit_step
    unfolding n1_def digit_step by (rule refl)
qed

declare decode_loop.simps(2) [simp del]

section \<open>Decoding what the encoders write\<close>

abbreviation decode64 :: "u64 \<Rightarrow> u64 \<Rightarrow> u64 \<Rightarrow> u8 list \<Rightarrow> u8 list \<Rightarrow> (u64 \<times> u64 \<times> u64 \<times> u8 list) option" where
  "decode64 \<equiv> decode_loop base64_decode_table base64_decode_table_size 6 3 base64_emit"

abbreviation decode32 :: "u64 \<Rightarrow> u64 \<Rightarrow> u64 \<Rightarrow> u8 list \<Rightarrow> u8 list \<Rightarrow> (u64 \<times> u64 \<times> u64 \<times> u8 list) option" where
  "decode32 \<equiv> decode_loop base32_decode_table base32_decode_table_size 5 7 base32_emit"

abbreviation code64 :: "u8 \<Rightarrow> nat \<Rightarrow> bool \<Rightarrow> bool" where
  "code64 \<equiv> decodes base64_decode_table base64_decode_table_size"

abbreviation code32 :: "u8 \<Rightarrow> nat \<Rightarrow> bool \<Rightarrow> bool" where
  "code32 \<equiv> decodes base32_decode_table base32_decode_table_size"

lemma decode64_group:
  assumes dg: "digits 6 4 (be_value [a, b, c]) = [v0, v1, v2, v3]"
    and d: "code64 c0 v0 p0" "code64 c1 v1 p1" "code64 c2 v2 p2" "code64 c3 v3 p3" and "count AND 3 = 0"
  shows "\<exists>x'. decode64 x count pad ptr ([c0, c1, c2, c3] @ rest)
    = decode64 x' (count + 4) (pad + of_bool p0 + of_bool p1 + of_bool p2 + of_bool p3) (ptr @ [a, b, c]) rest"
proof -
  have "be_value [a, b, c] < 2 ^ 24" using be_value_bound [of "[a, b, c]"] by simp
  from digits_64_value [OF this dg] decode_group64 [OF d assms(6)] show ?thesis
    by (simp only: base64_emit_group) blast
qed

lemma decode32_group:
  assumes dg: "digits 5 8 (be_value [a, b, c, d, e]) = [v0, v1, v2, v3, v4, v5, v6, v7]"
    and dc: "code32 c0 v0 p0" "code32 c1 v1 p1" "code32 c2 v2 p2" "code32 c3 v3 p3"
      "code32 c4 v4 p4" "code32 c5 v5 p5" "code32 c6 v6 p6" "code32 c7 v7 p7" and "count AND 7 = 0"
  shows "\<exists>x'. decode32 x count pad ptr ([c0, c1, c2, c3, c4, c5, c6, c7] @ rest)
    = decode32 x' (count + 8) (pad + of_bool p0 + of_bool p1 + of_bool p2 + of_bool p3
        + of_bool p4 + of_bool p5 + of_bool p6 + of_bool p7) (ptr @ [a, b, c, d, e]) rest"
proof -
  have "be_value [a, b, c, d, e] < 2 ^ 40" using be_value_bound [of "[a, b, c, d, e]"] by simp
  from digits_32_value [OF this dg] decode_group32 [OF dc assms(10)] show ?thesis
    by (simp only: base32_emit_group) blast
qed

text \<open>The number of padding characters.\<close>

definition pads64 :: "u8 list \<Rightarrow> nat" where "pads64 xs = (3 - length xs mod 3) mod 3"

definition pads32 :: "u8 list \<Rightarrow> nat" where
  "pads32 xs = (case length xs mod 5 of 0 \<Rightarrow> 0 | Suc 0 \<Rightarrow> 6 | Suc (Suc 0) \<Rightarrow> 4 | Suc (Suc (Suc 0)) \<Rightarrow> 3 | _ \<Rightarrow> 1)"

definition fill32 :: "u8 list \<Rightarrow> nat" where "fill32 xs = (5 - length xs mod 5) mod 5"

lemma digits_bound: "v \<in> set (digits bits k n) \<Longrightarrow> v < 2 ^ bits"
  by (auto simp: digits_def)

lemma digits64_code:
  assumes "digits 6 4 n = [v0, v1, v2, v3]"
  shows "code64 (base64_encode_table ! v0) v0 False" "code64 (base64_encode_table ! v1) v1 False"
    "code64 (base64_encode_table ! v2) v2 False" "code64 (base64_encode_table ! v3) v3 False"
  using digits_bound [of _ 6 4 n] by (auto simp: assms intro!: base64_decodes)

lemma digits32_code:
  assumes "digits 5 8 n = [v0, v1, v2, v3, v4, v5, v6, v7]"
  shows "code32 (base32_encode_table ! v0) v0 False" "code32 (base32_encode_table ! v1) v1 False"
    "code32 (base32_encode_table ! v2) v2 False" "code32 (base32_encode_table ! v3) v3 False"
    "code32 (base32_encode_table ! v4) v4 False" "code32 (base32_encode_table ! v5) v5 False"
    "code32 (base32_encode_table ! v6) v6 False" "code32 (base32_encode_table ! v7) v7 False"
  using digits_bound [of _ 5 8 n] by (auto simp: assms intro!: base32_decodes)

lemma digits64_pad:
  "\<exists>v0 v1. digits 6 4 (be_value [a, 0, 0]) = [v0, v1, 0, 0]"
  "\<exists>v0 v1 v2. digits 6 4 (be_value [a, b, 0]) = [v0, v1, v2, 0]"
  using base64_group [of a 0 0] base64_group [of a b 0]
  by (simp_all only: unsigned_0 div_0 mod_0 mult_zero_left add_0_left) blast+

lemma chars64:
  assumes "digits 6 4 n = [v0, v1, v2, v3]"
  shows "base64_chars n = [base64_encode_table ! v0, base64_encode_table ! v1, base64_encode_table ! v2, base64_encode_table ! v3]"
  by (simp only: base64_chars_def assms list.map)

lemma pads64_simps:
  "pads64 [] = 0" "pads64 [a] = 2" "pads64 [a, b] = 1"
  by (simp_all add: pads64_def)

lemma pads64_Cons: "pads64 (a # b # c # rest) = pads64 rest"
proof -
  have "length (a # b # c # rest) = length rest + 3" by simp
  then show ?thesis by (simp only: pads64_def mod_add_self2)
qed

lemma decode64_ref:
  "count AND 3 = 0 \<Longrightarrow> \<exists>x' count'. count' AND 3 = 0 \<and> decode64 x count pad ptr (base64_ref xs)
    = Some (x', count', pad + of_nat (pads64 xs), ptr @ xs @ replicate (pads64 xs) 0)"
proof (induction xs arbitrary: x count pad ptr rule: base64_ref.induct)
  case (1 a b c rest)
  obtain v0 v1 v2 v3 where vs: "digits 6 4 (be_value [a, b, c]) = [v0, v1, v2, v3]" using base64_group by blast
  from decode64_group [OF vs digits64_code [OF vs] 1(2), of x pad ptr "base64_ref rest"] obtain x' where
    x': "decode64 x count pad ptr (base64_ref (a # b # c # rest)) = decode64 x' (count + 4) pad (ptr @ [a, b, c]) (base64_ref rest)"
    by (simp only: base64_ref.simps chars64 [OF vs] of_bool_eq add_0_right) blast
  from 1(1) [OF group_3(4) [OF 1(2)], of x' pad "ptr @ [a, b, c]"] show ?case
    by (simp only: x' pads64_Cons append_assoc append_Cons append_Nil)
next
  case 2
  then show ?case by (simp only: base64_ref.simps pads64_simps decode_loop.simps(1)) simp
next
  case (3 a)
  obtain v0 v1 where vs: "digits 6 4 (be_value [a, 0, 0]) = [v0, v1, 0, 0]" using digits64_pad(1) by blast
  from decode64_group [OF vs digits64_code(1,2) [OF vs] base64_pad base64_pad 3, of x pad ptr "[]"] obtain x' where
    "decode64 x count pad ptr (base64_ref [a]) = Some (x', count + 4, pad + 0 + 0 + 1 + 1, ptr @ [a, 0, 0])"
    by (simp only: base64_ref.simps chars64 [OF vs] of_bool_eq take_Suc_Cons take_0 numeral_2_eq_2 append_Cons append_Nil decode_loop.simps(1)) blast
  then show ?case using group_3(4) [OF 3] by (auto simp: pads64_simps numeral_2_eq_2 add.assoc)
next
  case (4 a b)
  obtain v0 v1 v2 where vs: "digits 6 4 (be_value [a, b, 0]) = [v0, v1, v2, 0]" using digits64_pad(2) by blast
  from decode64_group [OF vs digits64_code(1,2,3) [OF vs] base64_pad 4, of x pad ptr "[]"] obtain x' where
    "decode64 x count pad ptr (base64_ref [a, b]) = Some (x', count + 4, pad + 0 + 0 + 0 + 1, ptr @ [a, b, 0])"
    by (simp only: base64_ref.simps chars64 [OF vs] of_bool_eq take_Suc_Cons take_0 numeral_3_eq_3 append_Cons append_Nil decode_loop.simps(1)) blast
  then show ?case using group_3(4) [OF 4] by (auto simp: pads64_simps)
qed

lemma digits32_pad:
  "\<exists>v0 v1. digits 5 8 (be_value [a, 0, 0, 0, 0]) = [v0, v1, 0, 0, 0, 0, 0, 0]"
  "\<exists>v0 v1 v2 v3. digits 5 8 (be_value [a, b, 0, 0, 0]) = [v0, v1, v2, v3, 0, 0, 0, 0]"
  "\<exists>v0 v1 v2 v3 v4. digits 5 8 (be_value [a, b, c, 0, 0]) = [v0, v1, v2, v3, v4, 0, 0, 0]"
  "\<exists>v0 v1 v2 v3 v4 v5 v6. digits 5 8 (be_value [a, b, c, d, 0]) = [v0, v1, v2, v3, v4, v5, v6, 0]"
  using base32_group [of a 0 0 0 0] base32_group [of a b 0 0 0] base32_group [of a b c 0 0] base32_group [of a b c d 0]
  by (simp_all only: unsigned_0 div_0 mod_0 mult_zero_left mult_zero_right add_0_left add_0_right) blast+

lemma chars32:
  assumes "digits 5 8 n = [v0, v1, v2, v3, v4, v5, v6, v7]"
  shows "base32_chars t n = [t ! v0, t ! v1, t ! v2, t ! v3, t ! v4, t ! v5, t ! v6, t ! v7]"
    "take 2 (base32_chars t n) @ replicate 6 p = [t ! v0, t ! v1, p, p, p, p, p, p]"
    "take 4 (base32_chars t n) @ replicate 4 p = [t ! v0, t ! v1, t ! v2, t ! v3, p, p, p, p]"
    "take 5 (base32_chars t n) @ replicate 3 p = [t ! v0, t ! v1, t ! v2, t ! v3, t ! v4, p, p, p]"
    "take 7 (base32_chars t n) @ replicate 1 p = [t ! v0, t ! v1, t ! v2, t ! v3, t ! v4, t ! v5, t ! v6, p]"
  unfolding base32_chars_def assms by (simp_all add: eval_nat_numeral)

lemma pads32_simps:
  "pads32 [] = 0" "pads32 [a] = 6" "pads32 [a, b] = 4" "pads32 [a, b, c] = 3" "pads32 [a, b, c, d] = 1"
  "fill32 [] = 0" "fill32 [a] = 4" "fill32 [a, b] = 3" "fill32 [a, b, c] = 2" "fill32 [a, b, c, d] = 1"
  by (simp_all add: pads32_def fill32_def)

lemma pads32_Cons:
  "pads32 (a # b # c # d # e # rest) = pads32 rest" "fill32 (a # b # c # d # e # rest) = fill32 rest"
proof -
  have "length (a # b # c # d # e # rest) = length rest + 5" by simp
  then show "pads32 (a # b # c # d # e # rest) = pads32 rest" "fill32 (a # b # c # d # e # rest) = fill32 rest"
    by (simp_all only: pads32_def fill32_def mod_add_self2)
qed

lemma decode32_ref:
  "count AND 7 = 0 \<Longrightarrow> \<exists>x' count'. count' AND 7 = 0 \<and> decode32 x count pad ptr (base32_ref base32_encode_table xs)
    = Some (x', count', pad + of_nat (pads32 xs), ptr @ xs @ replicate (fill32 xs) 0)"
proof (induction base32_encode_table xs arbitrary: x count pad ptr rule: base32_ref.induct)
  case (1 a b c d e rest)
  obtain v0 v1 v2 v3 v4 v5 v6 v7 where vs: "digits 5 8 (be_value [a, b, c, d, e]) = [v0, v1, v2, v3, v4, v5, v6, v7]"
    using base32_group by blast
  from decode32_group [OF vs digits32_code [OF vs] 1(2), of x pad ptr "base32_ref base32_encode_table rest"] obtain x' where
    x': "decode32 x count pad ptr (base32_ref base32_encode_table (a # b # c # d # e # rest))
      = decode32 x' (count + 8) pad (ptr @ [a, b, c, d, e]) (base32_ref base32_encode_table rest)"
    by (simp only: base32_ref.simps chars32(1) [OF vs] of_bool_eq add_0_right) blast
  from 1(1) [OF group_7(8) [OF 1(2)], of x' pad "ptr @ [a, b, c, d, e]"] show ?case
    by (simp only: x' pads32_Cons append_assoc append_Cons append_Nil)
next
  case 2
  then show ?case by (simp only: base32_ref.simps pads32_simps decode_loop.simps(1)) simp
next
  case (3 a)
  obtain v0 v1 where vs: "digits 5 8 (be_value [a, 0, 0, 0, 0]) = [v0, v1, 0, 0, 0, 0, 0, 0]" using digits32_pad(1) by blast
  from decode32_group [OF vs digits32_code(1,2) [OF vs] base32_pad base32_pad base32_pad base32_pad base32_pad base32_pad 3, of x pad ptr "[]"] obtain x' where
    "decode32 x count pad ptr (base32_ref base32_encode_table [a])
      = Some (x', count + 8, pad + 0 + 0 + 1 + 1 + 1 + 1 + 1 + 1, ptr @ [a, 0, 0, 0, 0])"
    by (simp only: base32_ref.simps chars32(2) [OF vs] of_bool_eq append_Nil2 decode_loop.simps(1)) blast
  then show ?case using group_7(8) [OF 3] by (auto simp: pads32_simps eval_nat_numeral add.assoc)
next
  case (4 a b)
  obtain v0 v1 v2 v3 where vs: "digits 5 8 (be_value [a, b, 0, 0, 0]) = [v0, v1, v2, v3, 0, 0, 0, 0]" using digits32_pad(2) by blast
  from decode32_group [OF vs digits32_code(1,2,3,4) [OF vs] base32_pad base32_pad base32_pad base32_pad 4, of x pad ptr "[]"] obtain x' where
    "decode32 x count pad ptr (base32_ref base32_encode_table [a, b])
      = Some (x', count + 8, pad + 0 + 0 + 0 + 0 + 1 + 1 + 1 + 1, ptr @ [a, b, 0, 0, 0])"
    by (simp only: base32_ref.simps chars32(3) [OF vs] of_bool_eq append_Nil2 decode_loop.simps(1)) blast
  then show ?case using group_7(8) [OF 4] by (auto simp: pads32_simps eval_nat_numeral add.assoc)
next
  case (5 a b c)
  obtain v0 v1 v2 v3 v4 where vs: "digits 5 8 (be_value [a, b, c, 0, 0]) = [v0, v1, v2, v3, v4, 0, 0, 0]" using digits32_pad(3) by blast
  from decode32_group [OF vs digits32_code(1,2,3,4,5) [OF vs] base32_pad base32_pad base32_pad 5, of x pad ptr "[]"] obtain x' where
    "decode32 x count pad ptr (base32_ref base32_encode_table [a, b, c])
      = Some (x', count + 8, pad + 0 + 0 + 0 + 0 + 0 + 1 + 1 + 1, ptr @ [a, b, c, 0, 0])"
    by (simp only: base32_ref.simps chars32(4) [OF vs] of_bool_eq append_Nil2 decode_loop.simps(1)) blast
  then show ?case using group_7(8) [OF 5] by (auto simp: pads32_simps eval_nat_numeral add.assoc)
next
  case (6 a b c d)
  obtain v0 v1 v2 v3 v4 v5 v6 where vs: "digits 5 8 (be_value [a, b, c, d, 0]) = [v0, v1, v2, v3, v4, v5, v6, 0]" using digits32_pad(4) by blast
  from decode32_group [OF vs digits32_code(1,2,3,4,5,6,7) [OF vs] base32_pad 6, of x pad ptr "[]"] obtain x' where
    "decode32 x count pad ptr (base32_ref base32_encode_table [a, b, c, d])
      = Some (x', count + 8, pad + 0 + 0 + 0 + 0 + 0 + 0 + 0 + 1, ptr @ [a, b, c, d, 0])"
    by (simp only: base32_ref.simps chars32(5) [OF vs] of_bool_eq append_Nil2 decode_loop.simps(1)) blast
  then show ?case using group_7(8) [OF 6] by (auto simp: pads32_simps eval_nat_numeral add.assoc)
qed

section \<open>Growing a result\<close>

text \<open>
  The transforms collect their result by concatenating a new leaf to it and releasing both
  operands. Objects that were there before survive, since releases only take back references that
  were acquired since.
\<close>

lemma referenced_leaf:
  assumes "data_wf h" "heap_refs h y \<noteq> 0"
  shows "\<exists>i x. dh_obj h i = Some x \<and> record_refs (dd_records x) y \<noteq> 0" "\<exists>dd. dh_obj h y = Some dd \<and> leaf_ok dd"
proof -
  have "\<exists>j. object_refs (dh_obj h j) y \<noteq> 0" using assms(2) unfolding heap_refs_def by (rule contrapos_np) simp
  then obtain j where "object_refs (dh_obj h j) y \<noteq> 0" ..
  then show ex: "\<exists>i x. dh_obj h i = Some x \<and> record_refs (dd_records x) y \<noteq> 0"
    by (cases "dh_obj h j") auto
  then obtain i x where x: "dh_obj h i = Some x" "record_refs (dd_records x) y \<noteq> 0" by blast
  have "\<exists>r \<in> set rs. data_object r = y" if "record_refs rs y \<noteq> 0" for rs
    using that by (induction rs) (auto split: if_splits)
  from this [OF x(2)] obtain r where r: "r \<in> set (dd_records x)" "data_object r = y" ..
  have "leaf_ok x \<or> composite_ok h x" using assms(1) x(1) by (simp add: data_wf_def)
  then show "\<exists>dd. dh_obj h y = Some dd \<and> leaf_ok dd" using r by (auto simp: leaf_ok_def composite_ok_def rec_ok_def)
qed

lemma record_refs_heap:
  assumes "data_wf h" "dh_obj h i = Some x" "record_refs (dd_records x) y \<noteq> 0"
  shows "heap_refs h y \<noteq> 0"
proof -
  have "\<exists>r \<in> set rs. data_object r = y" if "record_refs rs y \<noteq> 0" for rs
    using that by (induction rs) (auto split: if_splits)
  from this [OF assms(3)] heap_refs_pos [OF obj_less_next [OF assms(1,2)] assms(2)] show ?thesis by auto
qed

lemma survive:
  assumes inv: "data_inv h ext" and ext: "data_ext h h2" "data_ext h3 h2" and inv3: "data_inv h3 ext'"
    and le: "\<And>d. ext d \<le> ext' d"
  shows "data_ext h h3"
proof -
  have wf: "data_wf h" "data_wf h3" using inv inv3 by (simp_all add: data_inv_def)
  have live: "dh_obj h3 d = Some x" if "dh_obj h d = Some x" "ext d \<noteq> 0 \<or> heap_refs h3 d \<noteq> 0 \<or> d = dispatch_data_empty" for d x
  proof -
    have "dh_obj h3 d \<noteq> None"
    proof (cases "d = dispatch_data_empty")
      case True
      then show ?thesis using wf(2) by (auto simp: data_wf_def)
    next
      case False
      have "ext' d \<noteq> 0 \<or> heap_refs h3 d \<noteq> 0" using that(2) le [of d] False by auto
      then show ?thesis using data_inv_ref [OF inv3 False] by (auto simp: ref_ok_def split: if_splits)
    qed
    then show ?thesis using ext that(1) by (fastforce simp: data_ext_def)
  qed
  have "dh_obj h3 d = Some x" if o: "dh_obj h d = Some x" for d x
  proof (cases "ext d \<noteq> 0 \<or> d = dispatch_data_empty")
    case True
    then show ?thesis using live [OF o] by blast
  next
    case False
    then have "heap_refs h d \<noteq> 0" using data_invD(1,2) [OF inv _ o] by auto
    then obtain y z where y: "dh_obj h y = Some z" "record_refs (dd_records z) d \<noteq> 0"
      using referenced_leaf(1) [OF wf(1)] by blast
    have "\<not> leaf_ok z" using y(2) by (auto simp: leaf_ok_def)
    then have "heap_refs h y = 0" using referenced_leaf(2) [OF wf(1), of y] y(1) by fastforce
    then have "ext y \<noteq> 0 \<or> y = dispatch_data_empty" using data_invD(1,2) [OF inv _ y(1)] by auto
    then have "dh_obj h3 y = Some z" using live [OF y(1)] by blast
    then show ?thesis using live [OF o] record_refs_heap [OF wf(2) _ y(2)] by blast
  qed
  then show ?thesis by (simp add: data_ext_def)
qed

lemma num_records_le_size:
  assumes "data_wf h" "dh_obj h d = Some dd" "dd_size dd \<noteq> 0"
  shows "dispatch_data_num_records dd \<le> dd_size dd"
proof -
  note r = records_of_ok [OF assms]
  have "length rs \<le> sum_list (map rec_length rs)" if "\<forall>r \<in> set rs. rec_ok h r" for rs
    using that by (induction rs) (auto simp: rec_ok_def)
  from this [OF r(2)] show ?thesis using r(3,5) by simp
qed

lemma ref_add_commute: "ref_add (ref_add ext d) d' = ref_add (ref_add ext d') d"
  by (auto simp: ref_add_def fun_eq_iff)

lemma ref_add_le: "ext i \<le> ref_add ext d i"
  by (simp add: ref_add_def)

lemma ref_add_pos: "d = dispatch_data_empty \<or> 0 < ref_add ext d d"
  by (simp add: ref_add_def)

lemma drop_added:
  assumes "data_inv h (ref_add ext d)"
  shows "data_inv (dispatch_data_release d h) ext" "data_ext (dispatch_data_release d h) h"
  using drop_reference_inv [OF assms ref_add_pos] by simp_all

lemma held_live: "data_inv h (ref_add ext d) \<Longrightarrow> dh_obj h d \<noteq> None"
  using data_inv_live [of h "ref_add ext d" d] inv_wf [of h "ref_add ext d"] by (cases "d = dispatch_data_empty")
    (auto simp: ref_add_def data_wf_def)

lemma append_leaf_ok:
  assumes inv0: "data_inv h0 ext" and ext: "data_ext h0 h" and inv: "data_inv h (ref_add ext rv)"
    and n: "n \<le> length ptr" "length (data_bytes h rv) + n < SIZE_MOD" "records_fit (length (data_bytes h rv) + n)"
  shows "\<exists>val h1 joined h2. dispatch_data_create (Some ptr) n None DESTRUCTOR_FREE True h = Inr (val, h1)
    \<and> dispatch_data_create_concat rv val h1 = Inr (joined, h2)
    \<and> (let h3 = dispatch_data_release rv (dispatch_data_release val h2)
       in data_inv h3 (ref_add ext joined) \<and> data_ext h0 h3
         \<and> data_bytes h3 joined = data_bytes h rv @ take n ptr)"
proof -
  from create_ok [OF inv, of n ptr DESTRUCTOR_FREE None] n obtain val h1 where
    c: "dispatch_data_create (Some ptr) n None DESTRUCTOR_FREE True h = Inr (val, h1)"
      "data_inv h1 (ref_add (ref_add ext rv) val)" "data_ext h h1" "data_bytes h1 val = take n ptr"
    by (auto simp: data_result_ok_def split: sum.splits)
  obtain dd1 where o: "dh_obj h rv = Some dd1" using held_live [OF inv] by blast
  obtain dd2 where o2: "dh_obj h1 val = Some dd2" using held_live [OF c(2)] by blast
  have o1: "dh_obj h1 rv = Some dd1" using c(3) o by (simp add: data_ext_def)
  have rvb: "data_bytes h1 rv = data_bytes h rv" using data_bytes_ext [OF inv_wf [OF inv] c(3)] o by simp
  have sz: "dd_size dd1 = length (data_bytes h rv)" "dd_size dd2 = n"
    using length_data_bytes [OF inv_wf [OF inv] o] length_data_bytes [OF inv_wf [OF c(2)] o2] c(4) n(1) by simp_all
  have "data_result_ok h1 (ref_add (ref_add ext rv) val) (data_bytes h1 rv @ data_bytes h1 val)
      (dispatch_data_create_concat rv val h1)"
  proof (cases "dd_size dd1 = 0 \<or> dd_size dd2 = 0")
    case True
    with length_data_bytes [OF inv_wf [OF c(2)] o1] length_data_bytes [OF inv_wf [OF c(2)] o2] o1 o2
      retain_ok [OF c(2) o1] retain_ok [OF c(2) o2]
    show ?thesis by (auto simp: dispatch_data_create_concat_def)
  next
    case False
    then have "dispatch_data_num_records dd1 + dispatch_data_num_records dd2 \<le> dd_size dd1 + dd_size dd2"
      using num_records_le_size [OF inv_wf [OF c(2)] o1] num_records_le_size [OF inv_wf [OF c(2)] o2] by simp
    then show ?thesis using concat_ok [OF c(2) o1 o2] n sz records_fit_mono by auto
  qed
  then obtain joined h2 where j: "dispatch_data_create_concat rv val h1 = Inr (joined, h2)"
      "data_inv h2 (ref_add (ref_add (ref_add ext rv) val) joined)" "data_ext h1 h2"
      "data_bytes h2 joined = data_bytes h rv @ take n ptr"
    using rvb c(4) by (auto simp: data_result_ok_def split: sum.splits)
  let ?h = "dispatch_data_release val h2" and ?h3 = "dispatch_data_release rv (dispatch_data_release val h2)"
  have "ref_add (ref_add (ref_add ext rv) val) joined = ref_add (ref_add (ref_add ext joined) rv) val"
    by (auto simp: ref_add_def fun_eq_iff)
  with j(2) have "data_inv h2 (ref_add (ref_add (ref_add ext joined) rv) val)" by simp
  from drop_added [OF this] have 1: "data_inv ?h (ref_add (ref_add ext joined) rv)" "data_ext ?h h2" .
  from drop_added [OF 1(1)] have 2: "data_inv ?h3 (ref_add ext joined)" "data_ext ?h3 ?h" .
  have 3: "data_ext ?h3 h2" using 1(2) 2(2) data_ext_trans by blast
  have "data_ext h0 h2" using ext c(3) j(3) data_ext_trans by blast
  from survive [OF inv0 this 3 2(1) ref_add_le] have 4: "data_ext h0 ?h3" .
  obtain dd where "dh_obj ?h3 joined = Some dd" using held_live [OF 2(1)] by blast
  with data_bytes_ext [OF inv_wf [OF 2(1)] 3] j(4)
  have "data_bytes ?h3 joined = data_bytes h rv @ take n ptr" by simp
  with c(1) j(1) 2(1) 4 show ?thesis by (auto simp: Let_def)
qed

section \<open>Decoding a data object\<close>

definition characters :: "u8 list \<Rightarrow> nat" where
  "characters xs = length (filter (\<lambda>b. \<not> whitespace b) xs)"

lemma characters_simps [simp]:
  "characters [] = 0" "characters (xs @ ys) = characters xs + characters ys"
  "characters (b # xs) = (if whitespace b then 0 else 1) + characters xs"
  by (simp_all add: characters_def)

lemma characters_le: "characters xs \<le> length xs"
  by (simp add: characters_def)

lemma len64_word: "LENGTH(64) = 64"
  by simp

lemma group_end: "k \<le> 64 \<Longrightarrow> (of_nat n :: u64) AND mask k = 0 \<longleftrightarrow> n mod 2 ^ k = 0"
proof -
  assume k: "k \<le> 64"
  have "(2::nat) ^ k dvd 2 ^ 64" using k by (rule le_imp_power_dvd)
  then have "unat (of_nat n AND mask k :: u64) = n mod 2 ^ k"
    by (simp only: unat_and_mask64 [OF k] unat_of_nat mod_mod_cancel len64_word)
  then show ?thesis by (metis unsigned_0 unsigned_eq_0_iff)
qed

lemma decode_loop_count:
  assumes k: "k \<le> 64" and emit: "\<And>x. length (emit x) = len"
    and "decode_loop table table_size bits (mask k) emit x (of_nat n) pad ptr xs = Some (x', count, pad', ptr')"
  shows "count = of_nat (n + characters xs) \<and> length ptr' + len * (n div 2 ^ k) = length ptr + len * ((n + characters xs) div 2 ^ k)"
  using assms(3)
proof (induction xs arbitrary: x n pad ptr)
  case (Cons b xs)
  show ?case
  proof (cases "whitespace b")
    case True
    then show ?thesis using Cons by (simp add: decode_loop.simps(2))
  next
    case False
    let ?e = "(of_nat (Suc n) :: u64) AND mask k = 0"
    obtain x1 pad1 where r: "decode_loop table table_size bits (mask k) emit x1 (of_nat (Suc n)) pad1
        (if ?e then ptr @ emit x1 else ptr) xs = Some (x', count, pad', ptr')"
      using Cons.prems False by (auto simp: decode_loop.simps(2) Let_def add.commute split: if_splits)
    from Cons.IH [OF r] have i: "count = of_nat (Suc n + characters xs)"
      "length ptr' + len * (Suc n div 2 ^ k) = length (if ?e then ptr @ emit x1 else ptr) + len * ((Suc n + characters xs) div 2 ^ k)"
      by simp_all
    have "Suc n div 2 ^ k = (if ?e then Suc (n div 2 ^ k) else n div 2 ^ k)"
      unfolding group_end [OF k] by (simp add: div_Suc)
    then show ?thesis using i False by (auto simp: emit split: if_splits)
  qed
qed simp

lemma decode_loop_output_le:
  assumes k: "k \<le> 64" and emit: "\<And>x. length (emit x) = len" and len: "len \<le> 2 ^ k"
    and "decode_loop table table_size bits (mask k) emit 0 0 0 [] xs = Some (x', c', p', out)"
  shows "length out \<le> characters xs"
proof -
  have "length out = len * (characters xs div 2 ^ k)"
    using decode_loop_count [OF k emit, where x = 0 and n = 0 and pad = 0 and ptr = "[]" and xs = xs] assms(4) by simp
  also have "\<dots> \<le> 2 ^ k * (characters xs div 2 ^ k)" using len by (rule mult_le_mono1)
  also have "\<dots> \<le> characters xs" by (rule times_div_less_eq_dividend)
  finally show ?thesis .
qed

lemma decode_loop_no_pad:
  assumes "\<And>b. unat b < table_size \<Longrightarrow> table ! unat b = -2 \<Longrightarrow> b = pad_char"
    and "pad_char \<notin> set xs" "decode_loop table table_size bits grp emit x count pad ptr xs = Some (x', count', pad', ptr')"
  shows "pad' = pad"
  using assms(2,3)
proof (induction xs arbitrary: x count ptr)
  case (Cons b xs)
  show ?case
  proof (cases "whitespace b")
    case True
    then show ?thesis using Cons.IH Cons.prems by (simp add: decode_loop.simps(2))
  next
    case False
    have "table ! unat b \<noteq> -2 \<or> \<not> unat b < table_size" using assms(1) [of b] Cons.prems(1) by auto
    then obtain x1 c1 ptr1 where "decode_loop table table_size bits grp emit x1 c1 pad ptr1 xs = Some (x', count', pad', ptr')"
      using Cons.prems(2) False by (simp add: decode_loop.simps(2) Let_def split: if_splits)
    then show ?thesis using Cons.IH Cons.prems(1) by simp
  qed
qed simp

text \<open>No region starts after a padding character.\<close>

definition padding_together :: "data_heap \<Rightarrow> nat \<Rightarrow> bool" where
  "padding_together h d = (\<forall>(region, off, bytes) \<in> set (data_regions h d).
     off + length bytes < length (data_bytes h d) \<longrightarrow> pad_char \<notin> set (take (off + length bytes) (data_bytes h d)))"

text \<open>
  The padding of a text of whole groups, at most \<open>len\<close> bytes, is stripped from bytes written in
  the same region when the padding is together.
\<close>

lemma last_region_full:
  assumes k: "k \<le> 64" and emit: "\<And>x. length (emit x) = len"
    and d1: "decode_loop table table_size bits (mask k) emit 0 0 0 [] xs = Some (x1, c1, 0, out1)"
    and d2: "decode_loop table table_size bits (mask k) emit x1 c1 0 [] bytes = Some (x2, c2, pad, out2)"
    and full: "characters (xs @ bytes) mod 2 ^ k = 0" and ne: "0 < characters bytes"
  shows "len \<le> length out2"
proof -
  have 1: "c1 = of_nat (characters xs)" "length out1 = len * (characters xs div 2 ^ k)"
    using decode_loop_count [OF k emit, where x = 0 and n = 0 and pad = 0 and ptr = "[]" and xs = xs] d1 by simp_all
  have 2: "length out2 + len * (characters xs div 2 ^ k) = len * ((characters xs + characters bytes) div 2 ^ k)"
    using decode_loop_count [OF k emit, where x = x1 and n = "characters xs" and pad = 0 and ptr = "[]" and xs = bytes] d2 1(1) by simp
  have "characters xs div 2 ^ k < (characters xs + characters bytes) div 2 ^ k"
  proof -
    define n where "n = characters xs"
    define m where "m = characters xs + characters bytes"
    have "n < m" "m mod 2 ^ k = 0" using full ne by (simp_all add: n_def m_def)
    then have "n < m div 2 ^ k * 2 ^ k" by (metis add.right_neutral div_mult_mod_eq)
    then have "n div 2 ^ k < m div 2 ^ k" by (rule less_mult_imp_div_less)
    then show ?thesis by (simp add: n_def m_def)
  qed
  then have "len * Suc (characters xs div 2 ^ k) \<le> len * ((characters xs + characters bytes) div 2 ^ k)"
    by (intro mult_le_mono2 Suc_leI)
  then show ?thesis using 2 by simp
qed

lemma add_diff_shift: "m \<le> n \<Longrightarrow> n + k - m = n - m + (k :: nat)"
  by simp

lemma decode_block_ok:
  assumes "data_inv h ext" "data_ext h hc" "data_inv hc (ref_add ext rv)" and rv: "data_bytes hc rv = out1"
    and loop: "decode_loop table table_size bits grp emit x1 c1 0 [] bytes = Some (x2, c2, p2, out2)"
    and fin: "strip p2 \<le> length out2" and lt: "length out1 + (length out2 - strip p2) < SIZE_MOD"
    and fit: "records_fit (length out1 + (length out2 - strip p2))" and mem: "\<And>off. mem off"
  shows "\<exists>joined h3. decode_block table table_size bits grp emit strip mem
      \<lparr>dec_x = x1, dec_count = c1, dec_pad = 0, dec_rv = rv, dec_heap = Inr hc\<rparr> region off bytes
    = (True, \<lparr>dec_x = x2, dec_count = c2, dec_pad = p2, dec_rv = joined, dec_heap = Inr h3\<rparr>)
    \<and> data_inv h3 (ref_add ext joined) \<and> data_ext h h3
    \<and> data_bytes h3 joined = take (length (out1 @ out2) - strip p2) (out1 @ out2)"
proof -
  let ?n = "length out2 - strip p2"
  have sz: "length out2 + SIZE_MOD - strip p2 = ?n + SIZE_MOD" using fin by (rule add_diff_shift)
  have "?n < SIZE_MOD" using lt by (rule le_less_trans [OF le_add2])
  then have n: "(length out2 + SIZE_MOD - strip p2) mod SIZE_MOD = ?n"
    by (simp only: sz mod_add_self2 mod_less)
  have "?n \<le> length out2" by simp
  from append_leaf_ok [OF assms(1-3) this] lt fit obtain val h1 joined h2 where
    a: "dispatch_data_create (Some out2) ?n None DESTRUCTOR_FREE True hc = Inr (val, h1)"
      "dispatch_data_create_concat rv val h1 = Inr (joined, h2)"
    and r: "data_inv (dispatch_data_release rv (dispatch_data_release val h2)) (ref_add ext joined)"
      "data_ext h (dispatch_data_release rv (dispatch_data_release val h2))"
      "data_bytes (dispatch_data_release rv (dispatch_data_release val h2)) joined = out1 @ take ?n out2"
    unfolding rv Let_def by blast
  have "take (length (out1 @ out2) - strip p2) (out1 @ out2) = out1 @ take ?n out2" using fin by simp
  then show ?thesis unfolding decode_block_def using mem loop a r by (simp add: n Let_def)
qed

lemma decode_data_ok:
  assumes inv: "data_inv h ext" and o: "dh_obj h d = Some dd" and mem: "\<And>off. mem off"
    and k: "k \<le> 64" and emit: "\<And>x. length (emit x) = len" and len: "len \<le> 2 ^ k"
    and pads: "\<And>b. unat b < table_size \<Longrightarrow> table ! unat b = -2 \<Longrightarrow> b = pad_char"
    and strip: "strip 0 = 0" "strip pad \<le> len"
    and dec: "decode_loop table table_size bits (mask k) emit 0 0 0 [] (data_bytes h d) = Some (x, count, pad, out)"
    and full: "characters (data_bytes h d) mod 2 ^ k = 0" and together: "padding_together h d"
    and fit: "records_fit (length (data_bytes h d))"
  shows "\<exists>d' h'. decode_data table table_size bits (mask k) emit strip d mem h = Inr (Some d', h')
    \<and> data_inv h' (ref_add ext d') \<and> data_ext h h' \<and> data_bytes h' d' = take (length out - strip pad) out"
proof -
  let ?T = "data_bytes h d" and ?loop = "decode_loop table table_size bits (mask k) emit"
  let ?f = "decode_block table table_size bits (mask k) emit strip mem"
  let ?s0 = "\<lparr>dec_x = 0, dec_count = 0, dec_pad = 0, dec_rv = dispatch_data_empty, dec_heap = Inr h\<rparr>"
  let ?P = "\<lambda>xs s. \<exists>x c p out rv hc. ?loop 0 0 0 [] xs = Some (x, c, p, out) \<and> (xs = ?T \<or> p = 0)
    \<and> s = \<lparr>dec_x = x, dec_count = c, dec_pad = p, dec_rv = rv, dec_heap = Inr hc\<rparr>
    \<and> data_inv hc (ref_add ext rv) \<and> data_ext h hc \<and> data_bytes hc rv = take (length out - strip p) out"
  have v: "data_valid (d, h)" using inv o by (rule data_validI)
  have lt: "length ?T < SIZE_MOD" using fit by (simp add: records_fit_def sizeof_range_record_def)
  note out_le = decode_loop_output_le [OF k emit len]
  obtain s' where s': "dispatch_data_apply d ?f ?s0 h = Inr (True, s')" "?P ?T s'"
  proof (rule dispatch_source.traverse_total [OF v, where f = ?f and s = ?s0 and P = ?P, unfolded prod.case])
    show "?P [] ?s0"
      using inv empty_bytes [OF inv_wf [OF inv]] strip(1) by (simp add: ref_add_def)
  next
    fix xs s region bytes ys
    assume b: "?T = xs @ bytes @ ys" "bytes \<noteq> []" and reg: "(region, length xs, bytes) \<in> set (data_regions h d)"
      and "?P xs s"
    then obtain x1 c1 p1 out1 rv hc where p: "?loop 0 0 0 [] xs = Some (x1, c1, p1, out1)" "xs = ?T \<or> p1 = 0"
      and s: "s = \<lparr>dec_x = x1, dec_count = c1, dec_pad = p1, dec_rv = rv, dec_heap = Inr hc\<rparr>"
      and hc: "data_inv hc (ref_add ext rv)" "data_ext h hc" "data_bytes hc rv = take (length out1 - strip p1) out1" by blast
    have p1: "p1 = 0" using p(2) b by auto
    have rv: "data_bytes hc rv = out1" using hc(3) p1 strip(1) by simp
    have "?loop 0 0 0 [] (xs @ bytes) \<noteq> None"
      using dec decode_loop_append [of table table_size bits "mask k" emit 0 0 0 "[]" "xs @ bytes" ys] b(1)
      by (auto split: option.splits)
    then obtain x2 c2 p2 out2 where d2: "?loop x1 c1 0 [] bytes = Some (x2, c2, p2, out2)"
      and d12: "?loop 0 0 0 [] (xs @ bytes) = Some (x2, c2, p2, out1 @ out2)"
      using p(1) p1 decode_loop_ptr [of table table_size bits "mask k" emit x1 c1 0 out1 bytes]
      by (auto simp: decode_loop_append split: option.splits)
    have fin: "strip p2 \<le> length out2 \<and> (xs @ bytes = ?T \<or> p2 = 0)"
    proof (cases "ys = []")
      case False
      then have "pad_char \<notin> set (xs @ bytes)" using together reg b(1) unfolding padding_together_def by fastforce
      from decode_loop_no_pad [OF pads this d12] show ?thesis using strip(1) by simp
    next
      case True
      then have T: "xs @ bytes = ?T" using b(1) by simp
      then have e: "p2 = pad" "x2 = x" "c2 = count" "out1 @ out2 = out" using dec d12 by simp_all
      show ?thesis
      proof (cases "characters bytes = 0")
        case True
        then have "pad_char \<notin> set bytes" by (auto simp: characters_def filter_empty_conv pad_char_def whitespace_def)
        from decode_loop_no_pad [OF pads this d2] show ?thesis using strip(1) T by simp
      next
        case False
        have "len \<le> length out2"
          by (rule last_region_full [OF k emit p(1) [unfolded p1] d2]) (use full T False in simp_all)
        then show ?thesis using strip(2) e(1) T by simp
      qed
    qed
    have le: "length out1 + (length out2 - strip p2) \<le> length ?T"
      using out_le [OF d12] characters_le [of "xs @ bytes"] b(1) by simp
    have sl: "strip p2 \<le> length out2" using fin by (rule conjunct1)
    from le lt have l: "length out1 + (length out2 - strip p2) < SIZE_MOD" by (rule le_less_trans)
    from fit le have f: "records_fit (length out1 + (length out2 - strip p2))" by (rule records_fit_mono)
    from decode_block_ok [where strip = strip and region = region and off = "length xs" and mem = mem, OF inv hc(2,1) rv d2 sl l f mem] obtain joined h3 where
      "?f s region (length xs) bytes = (True, \<lparr>dec_x = x2, dec_count = c2, dec_pad = p2, dec_rv = joined, dec_heap = Inr h3\<rparr>)"
      "data_inv h3 (ref_add ext joined)" "data_ext h h3"
      "data_bytes h3 joined = take (length (out1 @ out2) - strip p2) (out1 @ out2)"
      unfolding s p1 by blast
    with d12 conjunct2 [OF fin] show "\<exists>s'. ?f s region (length xs) bytes = (True, s') \<and> ?P (xs @ bytes) s'" by blast
  next
    fix s' assume "dispatch_data_apply d ?f ?s0 h = Inr (True, s')" "?P ?T s'"
    then show thesis by (rule that)
  qed
  from s'(2) dec obtain rv hc where "s' = \<lparr>dec_x = x, dec_count = count, dec_pad = pad, dec_rv = rv, dec_heap = Inr hc\<rparr>"
    "data_inv hc (ref_add ext rv)" "data_ext h hc" "data_bytes hc rv = take (length out - strip pad) out" by auto
  then show ?thesis using s'(1) by (simp add: decode_data_def)
qed

section \<open>The decoders\<close>

lemma pad_charI: "unat b = 61 \<Longrightarrow> b = pad_char"
proof -
  have "unat pad_char = 61" by code_simp
  then show "unat b = 61 \<Longrightarrow> b = pad_char" by (intro u8_eqI) simp
qed

lemma base64_pads: "unat b < base64_decode_table_size \<Longrightarrow> base64_decode_table ! unat b = -2 \<Longrightarrow> b = pad_char"
proof -
  have "list_all (\<lambda>i. base64_decode_table ! i = -2 \<longrightarrow> i = 61) [0..<base64_decode_table_size]" by code_simp
  then show "unat b < base64_decode_table_size \<Longrightarrow> base64_decode_table ! unat b = -2 \<Longrightarrow> b = pad_char"
    using pad_charI [of b] by (auto simp: list_all_iff)
qed

lemma base32_pads: "unat b < base32_decode_table_size \<Longrightarrow> base32_decode_table ! unat b = -2 \<Longrightarrow> b = pad_char"
proof -
  have "list_all (\<lambda>i. base32_decode_table ! i = -2 \<longrightarrow> i = 61) [0..<base32_decode_table_size]" by code_simp
  then show "unat b < base32_decode_table_size \<Longrightarrow> base32_decode_table ! unat b = -2 \<Longrightarrow> b = pad_char"
    using pad_charI [of b] by (auto simp: list_all_iff)
qed

lemma decode_filtered:
  assumes "filter (\<lambda>b. \<not> whitespace b) xs = ys"
  shows "decode_loop table table_size bits grp emit x count pad ptr xs = decode_loop table table_size bits grp emit x count pad ptr ys"
  using decode_loop_skip [of table table_size bits grp emit x count pad ptr xs] assms by simp

lemma mask_3_7: "(mask 2 :: u64) = 3" "(mask 3 :: u64) = 7"
  by (simp_all add: mask_eq_exp_minus_1)

lemma pads64_strip: "base64_strip (of_nat (pads64 xs)) = pads64 xs" "pads64 xs \<le> 3"
proof -
  show p: "pads64 xs \<le> 3" unfolding pads64_def by (rule order_trans [OF mod_le_divisor]) simp_all
  then have "unat (of_nat (pads64 xs) :: u64) = pads64 xs" by (simp add: unat_of_nat)
  moreover have "base64_strip w = unat w" for w by (cases "w = 0") (simp_all add: base64_strip_def word_gt_0)
  ultimately show "base64_strip (of_nat (pads64 xs)) = pads64 xs" by simp
qed

lemma base32_strip_values:
  "base32_strip (of_nat 0) = 0" "base32_strip (of_nat 6) = 4" "base32_strip (of_nat 4) = 3"
  "base32_strip (of_nat 3) = 2" "base32_strip (of_nat 1) = 1"
  by code_simp+

lemma pads32_strip: "base32_strip (of_nat (pads32 xs)) = fill32 xs \<and> fill32 xs \<le> 5"
proof -
  have "(pads32 xs, fill32 xs) \<in> {(0, 0), (6, 4), (4, 3), (3, 2), (1, 1)}"
  proof -
    define m where "m = length xs mod 5"
    have "m < 5" by (simp add: m_def)
    then have "m \<in> {0, Suc 0, Suc (Suc 0), Suc (Suc (Suc 0)), Suc (Suc (Suc (Suc 0)))}" by auto
    then show ?thesis unfolding pads32_def fill32_def m_def [symmetric] by (elim insertE) simp_all
  qed
  then show ?thesis
    by (elim insertE emptyE; simp only: prod.inject; elim conjE; simp only: base32_strip_values; simp)
qed

lemma howmany_groups: "characters xs = howmany n m * k \<Longrightarrow> characters xs mod k = 0"
  by simp

lemma from_base64_ok:
  assumes "data_inv h ext" "dh_obj h d = Some dd" "\<And>off. mem off"
    and chars: "filter (\<lambda>b. \<not> whitespace b) (data_bytes h d) = base64_ref xs"
    and "padding_together h d" "records_fit (length (data_bytes h d))"
  shows "\<exists>d' h'. dispatch_transform_from_base64 d mem h = Inr (Some d', h')
    \<and> data_inv h' (ref_add ext d') \<and> data_ext h h' \<and> data_bytes h' d' = xs"
proof -
  have "(0 :: u64) AND 3 = 0" by simp
  from decode64_ref [OF this, of 0 0 "[]" xs] obtain x' count' where
    dec: "decode64 0 0 0 [] (data_bytes h d) = Some (x', count', of_nat (pads64 xs), xs @ replicate (pads64 xs) 0)"
    by (auto simp: decode_filtered [OF chars])
  have full: "characters (data_bytes h d) mod 2 ^ 2 = 0"
    unfolding characters_def chars length_base64 by simp
  have emit: "length (base64_emit x) = 3" for x by (simp add: base64_emit_def)
  have s0: "base64_strip 0 = 0" by (simp add: base64_strip_def)
  have s: "base64_strip (of_nat (pads64 xs)) \<le> 3" using pads64_strip [of xs] by simp
  have l: "(3::nat) \<le> 2 ^ 2" "(2 :: nat) \<le> 64" by simp_all
  from decode_data_ok [OF assms(1,2,3) l(2) emit l(1) base64_pads s0 s dec [folded mask_3_7] full assms(5,6)]
  show ?thesis by (simp add: dispatch_transform_from_base64_def mask_3_7 pads64_strip(1))
qed

lemma from_base32_ok:
  assumes "data_inv h ext" "dh_obj h d = Some dd" "\<And>off. mem off"
    and chars: "filter (\<lambda>b. \<not> whitespace b) (data_bytes h d) = base32_ref base32_encode_table xs"
    and "padding_together h d" "records_fit (length (data_bytes h d))"
  shows "\<exists>d' h'. dispatch_transform_from_base32 d mem h = Inr (Some d', h')
    \<and> data_inv h' (ref_add ext d') \<and> data_ext h h' \<and> data_bytes h' d' = xs"
proof -
  have "(0 :: u64) AND 7 = 0" by simp
  from decode32_ref [OF this, of 0 0 "[]" xs] obtain x' count' where
    dec: "decode32 0 0 0 [] (data_bytes h d) = Some (x', count', of_nat (pads32 xs), xs @ replicate (fill32 xs) 0)"
    by (auto simp: decode_filtered [OF chars])
  have full: "characters (data_bytes h d) mod 2 ^ 3 = 0"
    unfolding characters_def chars length_base32 by simp
  have emit: "length (base32_emit x) = 5" for x by (simp add: base32_emit_def)
  have s0: "base32_strip 0 = 0" by (simp add: base32_strip_def)
  have s: "base32_strip (of_nat (pads32 xs)) \<le> 5" using pads32_strip [of xs] by (elim conjE) simp
  have l: "(5::nat) \<le> 2 ^ 3" "(3 :: nat) \<le> 64" by simp_all
  from decode_data_ok [OF assms(1,2,3) l(2) emit l(1) base32_pads s0 s dec [folded mask_3_7] full assms(5,6)]
  show ?thesis
    by (simp add: dispatch_transform_from_base32_def dispatch_transform_from_base32_with_table_def mask_3_7 conjunct1 [OF pads32_strip])
qed

section \<open>Rejected input\<close>

lemma decode_data_rejects:
  assumes inv: "data_inv h ext" and o: "dh_obj h d = Some dd" and mem: "\<And>off. mem off"
    and k: "k \<le> 64" and emit: "\<And>x. length (emit x) = len" and len: "len \<le> 2 ^ k" and strip: "strip 0 = 0"
    and dec: "decode_loop table table_size bits (mask k) emit 0 0 0 [] (data_bytes h d) = None"
    and no_pad: "\<And>xs ys x c p out. data_bytes h d = xs @ ys \<Longrightarrow>
      decode_loop table table_size bits (mask k) emit 0 0 0 [] xs = Some (x, c, p, out) \<Longrightarrow> p = 0"
    and fit: "records_fit (length (data_bytes h d))"
  shows "\<exists>h'. decode_data table table_size bits (mask k) emit strip d mem h = Inr (None, h')
    \<and> data_inv h' ext \<and> data_ext h h'"
proof -
  let ?T = "data_bytes h d" and ?loop = "decode_loop table table_size bits (mask k) emit"
  let ?f = "decode_block table table_size bits (mask k) emit strip mem"
  let ?s0 = "\<lparr>dec_x = 0, dec_count = 0, dec_pad = 0, dec_rv = dispatch_data_empty, dec_heap = Inr h\<rparr>"
  let ?Q = "\<lambda>s. \<exists>hc. dec_heap s = Inr hc \<and> data_inv hc (ref_add ext (dec_rv s)) \<and> data_ext h hc"
  let ?P = "\<lambda>xs s. \<exists>x c out rv hc. ?loop 0 0 0 [] xs = Some (x, c, 0, out)
    \<and> s = \<lparr>dec_x = x, dec_count = c, dec_pad = 0, dec_rv = rv, dec_heap = Inr hc\<rparr>
    \<and> data_inv hc (ref_add ext rv) \<and> data_ext h hc \<and> data_bytes hc rv = out"
  have v: "data_valid (d, h)" using inv o by (rule data_validI)
  have lt: "length ?T < SIZE_MOD" using fit by (simp add: records_fit_def sizeof_range_record_def)
  note out_le = decode_loop_output_le [OF k emit len]
  obtain s' where s': "dispatch_data_apply d ?f ?s0 h = Inr (False, s')" "?Q s'"
  proof (rule dispatch_source.traverse_invariant [OF v, where f = ?f and s = ?s0 and P = ?P and Q = ?Q, unfolded prod.case])
    show "?P [] ?s0"
      using inv empty_bytes [OF inv_wf [OF inv]] by (simp add: ref_add_def)
  next
    fix xs s region bytes ys
    assume b: "?T = xs @ bytes @ ys" "bytes \<noteq> []" and "?P xs s"
    then obtain x1 c1 out1 rv hc where p: "?loop 0 0 0 [] xs = Some (x1, c1, 0, out1)"
      and s: "s = \<lparr>dec_x = x1, dec_count = c1, dec_pad = 0, dec_rv = rv, dec_heap = Inr hc\<rparr>"
      and hc: "data_inv hc (ref_add ext rv)" "data_ext h hc" "data_bytes hc rv = out1" by blast
    show "if fst (?f s region (length xs) bytes) then ?P (xs @ bytes) (snd (?f s region (length xs) bytes))
      else ?Q (snd (?f s region (length xs) bytes))"
    proof (cases "?loop x1 c1 0 [] bytes")
      case None
      then show ?thesis using hc mem by (simp add: s decode_block_def)
    next
      case (Some r)
      obtain x2 c2 p2 out2 where r: "r = (x2, c2, p2, out2)" by (cases r)
      note d2 = Some [unfolded r]
      have d12: "?loop 0 0 0 [] (xs @ bytes) = Some (x2, c2, p2, out1 @ out2)"
        using p d2 decode_loop_ptr [of table table_size bits "mask k" emit x1 c1 0 out1 bytes]
        by (simp add: decode_loop_append)
      have p2: "p2 = 0" using no_pad [OF _ d12, of ys] b(1) by simp
      have le: "length out1 + (length out2 - strip 0) \<le> length ?T"
        using out_le [OF d12] characters_le [of "xs @ bytes"] b(1) strip by simp
      have sl: "strip 0 \<le> length out2" using strip by simp
      from le lt have l: "length out1 + (length out2 - strip 0) < SIZE_MOD" by (rule le_less_trans)
      from fit le have f: "records_fit (length out1 + (length out2 - strip 0))" by (rule records_fit_mono)
      from decode_block_ok [where strip = strip and region = region and off = "length xs" and mem = mem,
          OF inv hc(2,1,3) d2 [unfolded p2] sl l f mem] obtain joined h3 where
        n: "?f s region (length xs) bytes = (True, \<lparr>dec_x = x2, dec_count = c2, dec_pad = 0, dec_rv = joined, dec_heap = Inr h3\<rparr>)"
        "data_inv h3 (ref_add ext joined)" "data_ext h h3"
        "data_bytes h3 joined = take (length (out1 @ out2) - strip 0) (out1 @ out2)"
        unfolding s by blast
      then have "data_bytes h3 joined = out1 @ out2" by (simp add: strip)
      with n(2,3) d12 p2 have "?P (xs @ bytes) \<lparr>dec_x = x2, dec_count = c2, dec_pad = 0, dec_rv = joined, dec_heap = Inr h3\<rparr>"
        by blast
      then show ?thesis unfolding n(1) fst_conv snd_conv if_True .
    qed
  next
    fix s' assume "?P ?T s'"
    then show thesis using dec by simp
  next
    fix s' assume "dispatch_data_apply d ?f ?s0 h = Inr (False, s')" "?Q s'"
    then show thesis by (rule that)
  qed
  from s'(2) obtain hc where hc: "dec_heap s' = Inr hc" "data_inv hc (ref_add ext (dec_rv s'))" "data_ext h hc" by blast
  note r = drop_added [OF hc(2)]
  have "data_ext h (dispatch_data_release (dec_rv s') hc)" by (rule survive [OF inv hc(3) r(2,1)]) simp
  with r(1) show ?thesis using s'(1) hc(1) by (simp add: decode_data_def)
qed

definition rejected :: "int list \<Rightarrow> nat \<Rightarrow> u8 \<Rightarrow> bool" where
  "rejected table table_size b = (\<not> whitespace b \<and> (table_size \<le> unat b \<or> table ! unat b = -1))"

lemma decode_loop_rejects:
  "decode_loop table table_size bits grp emit x count pad ptr xs = None \<longleftrightarrow> (\<exists>b \<in> set xs. rejected table table_size b)"
proof (induction xs arbitrary: x count pad ptr)
  case (Cons b xs)
  then show ?case by (simp add: decode_loop.simps(2) Let_def rejected_def)
qed simp

lemma from_base64_rejects_ok:
  assumes "data_inv h ext" "dh_obj h d = Some dd" "\<And>off. mem off"
    and "b \<in> set (data_bytes h d)" "rejected base64_decode_table base64_decode_table_size b"
    and "pad_char \<notin> set (data_bytes h d)" "records_fit (length (data_bytes h d))"
  shows "\<exists>h'. dispatch_transform_from_base64 d mem h = Inr (None, h') \<and> data_inv h' ext \<and> data_ext h h'"
proof -
  have l: "(3::nat) \<le> 2 ^ 2" "(2 :: nat) \<le> 64" by simp_all
  have emit: "length (base64_emit x) = 3" for x by (simp add: base64_emit_def)
  have s0: "base64_strip 0 = 0" by (simp add: base64_strip_def)
  have none: "decode64 0 0 0 [] (data_bytes h d) = None" using assms(4,5) by (auto simp: decode_loop_rejects)
  have np: "p = 0" if "data_bytes h d = xs @ ys" "decode_loop base64_decode_table base64_decode_table_size 6 (mask 2) base64_emit 0 0 0 [] xs = Some (x, c, p, out)" for xs ys x c p out
    using decode_loop_no_pad [OF base64_pads _ that(2)] assms(6) that(1) by simp
  from decode_data_rejects [where strip = base64_strip and mem = mem, OF assms(1,2,3) l(2) emit l(1) s0 none [folded mask_3_7] np assms(7)]
  show ?thesis by (simp add: dispatch_transform_from_base64_def mask_3_7)
qed

lemma base32hex_rejects_all: "\<not> whitespace b \<Longrightarrow> rejected base32hex_decode_table base32hex_decode_table_size b"
proof -
  have "list_all (\<lambda>i. i = 32 \<or> base32hex_decode_table ! i = -1) [0..<base32hex_decode_table_size]" by code_simp
  moreover have "unat b = 32 \<Longrightarrow> b = 32" using u8_eqI [of b 32] by simp
  moreover have "whitespace 32" by code_simp
  ultimately show "\<not> whitespace b \<Longrightarrow> rejected base32hex_decode_table base32hex_decode_table_size b"
    unfolding rejected_def list_all_iff by (metis atLeastLessThan_iff not_le set_upt zero_le)
qed

lemma from_base32hex_rejects_ok:
  assumes "data_inv h ext" "dh_obj h d = Some dd" "\<And>off. mem off"
    and "b \<in> set (data_bytes h d)" "\<not> whitespace b" and "records_fit (length (data_bytes h d))"
  shows "\<exists>h'. dispatch_transform_from_base32hex d mem h = Inr (None, h') \<and> data_inv h' ext \<and> data_ext h h'"
proof -
  let ?loop = "decode_loop base32hex_decode_table base32hex_decode_table_size 5 7 base32_emit"
  have l: "(5::nat) \<le> 2 ^ 3" "(3 :: nat) \<le> 64" by simp_all
  have emit: "length (base32_emit x) = 5" for x by (simp add: base32_emit_def)
  have s0: "base32_strip 0 = 0" by (simp add: base32_strip_def)
  have none: "?loop 0 0 0 [] (data_bytes h d) = None"
    using assms(4) base32hex_rejects_all [OF assms(5)] by (auto simp: decode_loop_rejects)
  have np: "p = 0" if "data_bytes h d = xs @ ys" "decode_loop base32hex_decode_table base32hex_decode_table_size 5 (mask 3) base32_emit 0 0 0 [] xs = Some (x, c, p, out)" for xs ys x c p out
  proof -
    have "\<forall>b \<in> set xs. \<not> rejected base32hex_decode_table base32hex_decode_table_size b"
      using that(2) decode_loop_rejects [of base32hex_decode_table base32hex_decode_table_size 5 "mask 3" base32_emit 0 0 0 "[]" xs] by simp
    then have "\<forall>b \<in> set xs. whitespace b" using base32hex_rejects_all by blast
    then have e: "filter (\<lambda>b. \<not> whitespace b) xs = []" by (simp add: filter_empty_conv)
    from that(2) show ?thesis unfolding decode_filtered [OF e] by simp
  qed
  from decode_data_rejects [where strip = base32_strip and mem = mem, OF assms(1,2,3) l(2) emit l(1) s0 none [folded mask_3_7] np assms(6)]
  show ?thesis
    by (simp add: dispatch_transform_from_base32hex_def dispatch_transform_from_base32_with_table_def mask_3_7)
qed

section \<open>Sample texts\<close>

text \<open>A text in two regions, for the witnesses.\<close>

definition text_heap :: "u8 list \<Rightarrow> u8 list \<Rightarrow> data_heap" where
  "text_heap xs ys = \<lparr>dh_obj = [0 \<mapsto> sample_empty, 2 \<mapsto> sample_leaf xs, 3 \<mapsto> sample_leaf ys,
     4 \<mapsto> \<lparr>dd_buf = None, dd_destructor = DESTRUCTOR_DEFAULT, dd_size = length xs + length ys,
       dd_records = [\<lparr>data_object = 2, rec_from = 0, rec_length = length xs\<rparr>,
         \<lparr>data_object = 3, rec_from = 0, rec_length = length ys\<rparr>], dd_queue = None\<rparr>],
     dh_ref = (\<lambda>d. if d = 4 then 1 else 2), dh_alloc = (\<lambda>_. 64), dh_next = 5, dh_events = []\<rparr>"

lemma text_heap_obj:
  "dh_obj (text_heap xs ys) 2 = Some (sample_leaf xs)" "dh_obj (text_heap xs ys) 3 = Some (sample_leaf ys)"
  "dh_obj (text_heap xs ys) 4 = Some \<lparr>dd_buf = None, dd_destructor = DESTRUCTOR_DEFAULT, dd_size = length xs + length ys,
       dd_records = [\<lparr>data_object = 2, rec_from = 0, rec_length = length xs\<rparr>,
         \<lparr>data_object = 3, rec_from = 0, rec_length = length ys\<rparr>], dd_queue = None\<rparr>"
  by (simp_all add: text_heap_def)

lemma text_heap_wf: "xs \<noteq> [] \<Longrightarrow> ys \<noteq> [] \<Longrightarrow> length xs + length ys < SIZE_MOD \<Longrightarrow> data_wf (text_heap xs ys)"
  by (auto simp: data_wf_def text_heap_def leaf_ok_def composite_ok_def rec_ok_def sample_empty_def
      sample_leaf_def dispatch_data_empty_def SIZE_MOD_def split: if_splits)

lemma text_heap_inv:
  assumes "xs \<noteq> []" "ys \<noteq> []" "length xs + length ys < SIZE_MOD"
  shows "data_inv (text_heap xs ys) sample_refs"
proof (rule data_invI [OF text_heap_wf [OF assms]])
  fix i assume "i \<noteq> dispatch_data_empty"
  then show "ref_ok (text_heap xs ys) sample_refs i"
    by (simp add: dispatch_data_empty_def ref_ok_def text_heap_def sample_refs_def heap_refs_def sample_leaf_def sample_empty_def
        numeral_eq_Suc lessThan_Suc)
qed

lemma text_heap_bytes: "data_bytes (text_heap xs ys) 4 = xs @ ys" "data_bytes (text_heap xs ys) 2 = xs"
  by (simp_all add: data_bytes_def text_heap_obj dispatch_data_leaf_def leaf_bytes_def rec_bytes_def sample_leaf_def)

lemma text_heap_regions: "xs \<noteq> [] \<Longrightarrow> data_regions (text_heap xs ys) 4 = [(2, 0, xs), (3, length xs, ys)]"
  by (simp add: data_regions_def dispatch_data_map_direct_def dispatch_data_num_records_def text_heap_obj
      dispatch_data_leaf_def leaf_bytes_def rec_bytes_def sample_leaf_def Let_def)

lemma text_heap_together: "xs \<noteq> [] \<Longrightarrow> pad_char \<notin> set xs \<Longrightarrow> padding_together (text_heap xs ys) 4"
  by (simp add: padding_together_def text_heap_regions text_heap_bytes)

lemma flat_together: "data_flat h d \<Longrightarrow> padding_together h d"
  unfolding padding_together_def data_flat_def data_regions_def by (auto split: sum.splits option.splits)

lemma base64_ref_not_white: "filter (\<lambda>b. \<not> whitespace b) (base64_ref xs) = base64_ref xs"
proof -
  have t: "list_all (\<lambda>v. \<not> whitespace (base64_encode_table ! v)) [0..<64]" "\<not> whitespace pad_char" by code_simp+
  then have d: "\<not> whitespace b" if "b \<in> set (base64_chars n)" for b n
    using that digits_bound [of _ 6 4 n] by (auto simp: base64_chars_def list_all_iff)
  have "\<forall>b \<in> set (base64_ref xs). \<not> whitespace b"
    using d t(2) by (induction xs rule: base64_ref.induct) (auto dest: in_set_takeD)
  then show ?thesis by (simp add: filter_id_conv)
qed

lemma rev_upto: "rev [0..<4] = [3, 2, 1, 0]" "rev [0..<8] = [7, 6, 5, 4, 3, 2, 1, 0]"
  by (simp_all add: upt_rec numeral_eq_Suc)

lemma replicate_6: "replicate 6 x = [x, x, x, x, x, x]"
  by (simp add: eval_nat_numeral)

section \<open>What the transforms compute\<close>

text \<open>
  C28. Encoding a data object, in whatever regions it is, gives an object with the RFC 4648
  base64 text of its bytes, a new reference for the caller, and leaves every older object as it
  was.
\<close>
theorem to_base64_correct:
  assumes "data_inv h ext" "dh_obj h d = Some dd" "howmany (dd_size dd) 3 * 4 < SIZE_MOD"
    and "length dest = howmany (dd_size dd) 3 * 4"
  shows "\<exists>d' h'. dispatch_transform_to_base64 d (Some dest) h = Inr (Some d', h') \<and> data_inv h' (ref_add ext d')
    \<and> data_ext h h' \<and> data_bytes h' d' = base64_ref (data_bytes h d)"
  using to_base64_ok [OF assms] by blast

theorem to_base64_correct_witness:
  "\<exists>d' h'. dispatch_transform_to_base64 4 (Some (replicate 8 0)) sample_heap = Inr (Some d', h')
    \<and> data_bytes h' d' = map of_char ''AwQFBg==''"
proof -
  have e: "base64_ref [3, 4, 5, 6] = map of_char ''AwQFBg==''"
    by (simp add: base64_chars_def digits_def rev_upto be_value.simps base64_encode_table_def pad_char_def)
  have n: "howmany 4 3 * 4 = 8" "(8 :: nat) < SIZE_MOD" by (simp_all add: howmany_def SIZE_MOD_def)
  show ?thesis
    using to_base64_correct [OF sample_heap_inv sample_heap_obj(3), unfolded dispatch_data.simps n(1) sample_heap_bytes e,
        OF n(2) length_replicate] by blast
qed

theorem to_base32_correct:
  assumes "data_inv h ext" "dh_obj h d = Some dd" "howmany (dd_size dd) 5 * 8 < SIZE_MOD"
    and "length dest = howmany (dd_size dd) 5 * 8"
  shows "\<exists>d' h'. dispatch_transform_to_base32_with_table d table (Some dest) h = Inr (Some d', h')
    \<and> data_inv h' (ref_add ext d') \<and> data_ext h h' \<and> data_bytes h' d' = base32_ref table (data_bytes h d)"
  using to_base32_ok [OF assms] by blast

theorem to_base32_correct_witness:
  "\<exists>d' h'. dispatch_transform_to_base32_with_table 4 base32_encode_table (Some (replicate 8 0)) sample_heap = Inr (Some d', h')
    \<and> data_bytes h' d' = map of_char ''AMCAKBQ=''"
proof -
  have e: "base32_ref base32_encode_table [3, 4, 5, 6] = map of_char ''AMCAKBQ=''"
    by (simp add: base32_chars_def digits_def rev_upto be_value.simps base32_encode_table_def base32hex_encode_table_def pad_char_def
      whitespace_def replicate_6 )
  have n: "howmany 4 5 * 8 = 8" "(8 :: nat) < SIZE_MOD" by (simp_all add: howmany_def SIZE_MOD_def)
  show ?thesis
    using to_base32_correct [OF sample_heap_inv sample_heap_obj(3), where table = base32_encode_table,
        unfolded dispatch_data.simps n(1) sample_heap_bytes e, OF n(2) length_replicate] by blast
qed

text \<open>
  C29. Decoding a data object whose characters other than white space are the base64 text of
  some bytes gives an object with those bytes, in whatever regions the text is, as long as no
  region starts after a padding character; references stay exact and older objects are
  unchanged.
\<close>
theorem from_base64_correct:
  assumes "data_inv h ext" "dh_obj h d = Some dd" "\<And>off. mem off"
    and "filter (\<lambda>b. \<not> whitespace b) (data_bytes h d) = base64_ref xs"
    and "padding_together h d" "records_fit (length (data_bytes h d))"
  shows "\<exists>d' h'. dispatch_transform_from_base64 d mem h = Inr (Some d', h')
    \<and> data_inv h' (ref_add ext d') \<and> data_ext h h' \<and> data_bytes h' d' = xs"
  using assms by (rule from_base64_ok)

definition quanta :: "u8 list" where "quanta = map of_char ''UXVh''"
definition quanta2 :: "u8 list" where "quanta2 = map of_char ''bn Rh''"

lemma quanta_text: "filter (\<lambda>b. \<not> whitespace b) (quanta @ quanta2) = base64_ref (map of_char ''Quanta'')"
  by (simp add: base64_chars_def digits_def rev_upto be_value.simps base64_encode_table_def pad_char_def whitespace_def quanta_def quanta2_def)

theorem from_base64_correct_witness:
  "\<exists>d' h'. dispatch_transform_from_base64 4 (\<lambda>_. True) (text_heap quanta quanta2) = Inr (Some d', h')
    \<and> data_bytes h' d' = map of_char ''Quanta''"
proof -
  let ?h = "text_heap quanta quanta2"
  have q: "quanta \<noteq> []" "quanta2 \<noteq> []" "length quanta + length quanta2 < SIZE_MOD" "length (quanta @ quanta2) \<le> 1000"
    by (simp_all add: quanta_def quanta2_def SIZE_MOD_def)
  have p: "pad_char \<notin> set quanta" by code_simp
  from from_base64_correct [OF text_heap_inv [OF q(1-3)] text_heap_obj(3), of "\<lambda>_. True",
      unfolded text_heap_bytes, OF TrueI quanta_text text_heap_together [OF q(1) p] records_fit_small [OF q(4)]]
  show ?thesis by blast
qed

theorem from_base32_correct:
  assumes "data_inv h ext" "dh_obj h d = Some dd" "\<And>off. mem off"
    and "filter (\<lambda>b. \<not> whitespace b) (data_bytes h d) = base32_ref base32_encode_table xs"
    and "padding_together h d" "records_fit (length (data_bytes h d))"
  shows "\<exists>d' h'. dispatch_transform_from_base32 d mem h = Inr (Some d', h')
    \<and> data_inv h' (ref_add ext d') \<and> data_ext h h' \<and> data_bytes h' d' = xs"
  using assms by (rule from_base32_ok)

definition foobar32 :: "u8 list" where "foobar32 = map of_char ''MZXW6YTB''"
definition foobar32_end :: "u8 list" where "foobar32_end = map of_char ''OI======''"

lemma foobar32_text: "filter (\<lambda>b. \<not> whitespace b) (foobar32 @ foobar32_end) = base32_ref base32_encode_table (map of_char ''foobar'')"
  by (simp add: base32_chars_def digits_def rev_upto be_value.simps base32_encode_table_def base32hex_encode_table_def pad_char_def
      whitespace_def replicate_6 foobar32_def foobar32_end_def)

theorem from_base32_correct_witness:
  "\<exists>d' h'. dispatch_transform_from_base32 4 (\<lambda>_. True) (text_heap foobar32 foobar32_end) = Inr (Some d', h')
    \<and> data_bytes h' d' = map of_char ''foobar''"
proof -
  let ?h = "text_heap foobar32 foobar32_end"
  have q: "foobar32 \<noteq> []" "foobar32_end \<noteq> []" "length foobar32 + length foobar32_end < SIZE_MOD" "length (foobar32 @ foobar32_end) \<le> 1000"
    by (simp_all add: foobar32_def foobar32_end_def SIZE_MOD_def)
  have p: "pad_char \<notin> set foobar32" by code_simp
  from from_base32_correct [OF text_heap_inv [OF q(1-3)] text_heap_obj(3), of "\<lambda>_. True",
      unfolded text_heap_bytes, OF TrueI foobar32_text text_heap_together [OF q(1) p] records_fit_small [OF q(4)]]
  show ?thesis by blast
qed

text \<open>
  C31. Decoding a text without padding that has a character outside the alphabet returns the
  null object and gives back every reference it took: the heap has the references it had and
  every older object is unchanged, whatever was decoded before the character.
\<close>
theorem from_base64_rejects:
  assumes "data_inv h ext" "dh_obj h d = Some dd" "\<And>off. mem off"
    and "b \<in> set (data_bytes h d)" "rejected base64_decode_table base64_decode_table_size b"
    and "pad_char \<notin> set (data_bytes h d)" "records_fit (length (data_bytes h d))"
  shows "\<exists>h'. dispatch_transform_from_base64 d mem h = Inr (None, h') \<and> data_inv h' ext \<and> data_ext h h'"
  using assms by (rule from_base64_rejects_ok)

theorem from_base64_rejects_witness:
  "\<exists>h'. dispatch_transform_from_base64 4 (\<lambda>_. True) (text_heap quanta [33]) = Inr (None, h')
    \<and> data_inv h' sample_refs \<and> data_ext (text_heap quanta [33]) h'"
proof -
  have q: "quanta \<noteq> []" "[33 :: u8] \<noteq> []" "length quanta + length [33 :: u8] < SIZE_MOD" "length (quanta @ [33 :: u8]) \<le> 1000"
    by (simp_all add: quanta_def SIZE_MOD_def)
  have p: "pad_char \<notin> set (quanta @ [33])" "33 \<in> set (quanta @ [33])" "rejected base64_decode_table base64_decode_table_size 33"
    by code_simp+
  from from_base64_rejects [OF text_heap_inv [OF q(1-3)] text_heap_obj(3), of "\<lambda>_. True",
      unfolded text_heap_bytes, OF TrueI p(2,3,1) records_fit_small [OF q(4)]]
  show ?thesis .
qed

text \<open>
  C32. Decoding base32hex rejects every text with a character that is not white space, even what
  its own encoder wrote: the size of its decode table is computed from the encode table.
\<close>
theorem from_base32hex_rejects_everything:
  assumes "data_inv h ext" "dh_obj h d = Some dd" "\<And>off. mem off"
    and "b \<in> set (data_bytes h d)" "\<not> whitespace b" and "records_fit (length (data_bytes h d))"
  shows "\<exists>h'. dispatch_transform_from_base32hex d mem h = Inr (None, h') \<and> data_inv h' ext \<and> data_ext h h'"
  using assms by (rule from_base32hex_rejects_ok)

theorem from_base32hex_rejects_everything_witness:
  "base32_ref base32hex_encode_table [102] = map of_char ''CO======'' \<and>
   (\<exists>h'. dispatch_transform_from_base32hex 2 (\<lambda>_. True) (text_heap (map of_char ''CO======'') [10]) = Inr (None, h'))"
proof -
  let ?xs = "map of_char ''CO======'' :: u8 list"
  have q: "?xs \<noteq> []" "[10 :: u8] \<noteq> []" "length ?xs + length [10 :: u8] < SIZE_MOD" "length ?xs \<le> 1000"
    by (simp_all add: SIZE_MOD_def)
  have p: "67 \<in> set ?xs" "\<not> whitespace 67" by code_simp+
  have t: "base32_ref base32hex_encode_table [102] = ?xs"
    by (simp add: base32_chars_def digits_def rev_upto be_value.simps base32_encode_table_def base32hex_encode_table_def pad_char_def
      whitespace_def replicate_6 foobar32_def foobar32_end_def)
  from from_base32hex_rejects_everything [OF text_heap_inv [OF q(1-3)] text_heap_obj(1), of "\<lambda>_. True",
      unfolded text_heap_bytes, OF TrueI p(1,2) records_fit_small [OF q(4)]]
  show ?thesis using t by blast
qed

theorem base64_round_trip:
  assumes "data_inv h ext" "dh_obj h d = Some dd" "\<And>off. mem off"
    and "records_fit (howmany (dd_size dd) 3 * 4)" "length dest = howmany (dd_size dd) 3 * 4"
  shows "\<exists>t h1 d' h2. dispatch_transform_to_base64 d (Some dest) h = Inr (Some t, h1)
    \<and> dispatch_transform_from_base64 t mem h1 = Inr (Some d', h2)
    \<and> data_inv h2 (ref_add (ref_add ext t) d') \<and> data_ext h h2 \<and> data_bytes h2 d' = data_bytes h d"
proof -
  have lt: "howmany (dd_size dd) 3 * 4 < SIZE_MOD"
    using assms(4) by (simp add: records_fit_def sizeof_range_record_def)
  from to_base64_ok [OF assms(1,2) lt assms(5)] obtain t h1 where
    t: "dispatch_transform_to_base64 d (Some dest) h = Inr (Some t, h1)" "data_inv h1 (ref_add ext t)" "data_ext h h1"
      "data_bytes h1 t = base64_ref (data_bytes h d)" "data_flat h1 t" by blast
  obtain td where o: "dh_obj h1 t = Some td" using held_live [OF t(2)] by blast
  have "filter (\<lambda>b. \<not> whitespace b) (base64_ref xs) = base64_ref xs" for xs by (rule base64_ref_not_white)
  then have f: "filter (\<lambda>b. \<not> whitespace b) (data_bytes h1 t) = base64_ref (data_bytes h d)" by (simp only: t(4))
  have fit: "records_fit (length (data_bytes h1 t))"
    using assms(4) length_data_bytes [OF inv_wf [OF assms(1)] assms(2)] by (simp add: t(4) length_base64)
  from from_base64_ok [where mem = mem, OF t(2) o assms(3) f flat_together [OF t(5)] fit] t(1,3) show ?thesis by (blast intro: data_ext_trans)
qed

theorem base64_round_trip_witness:
  "\<exists>t h1 d' h2. dispatch_transform_to_base64 4 (Some (replicate 8 0)) sample_heap = Inr (Some t, h1)
    \<and> dispatch_transform_from_base64 t (\<lambda>_. True) h1 = Inr (Some d', h2) \<and> data_bytes h2 d' = [3, 4, 5, 6]"
proof -
  have n: "howmany 4 3 * 4 = 8" "records_fit 8" by (simp_all add: howmany_def)
  show ?thesis
    using base64_round_trip [OF sample_heap_inv sample_heap_obj(3), of "\<lambda>_. True",
        unfolded dispatch_data.simps n(1) sample_heap_bytes, OF TrueI n(2) length_replicate] by blast
qed

section \<open>Padding in two regions\<close>

text \<open>
  The padding seen so far is stripped again from every later region: a line break after the
  padding, in a region of its own, has nothing to strip from.
\<close>

lemma strip_2: "base64_strip 2 = 2"
  by (simp add: base64_strip_def)

definition padded_A :: "u8 list" where "padded_A = map of_char ''QQ==''"

lemma padded_A_text: "padded_A = base64_ref [65]" "padded_A \<noteq> []"
  by (simp_all add: padded_A_def base64_chars_def digits_def rev_upto be_value.simps base64_encode_table_def pad_char_def)

lemma padded_A_decode: "\<exists>x c. decode64 0 0 0 [] padded_A = Some (x, c, 2, [65, 0, 0])"
  using decode64_ref [of 0 0 0 "[]" "[65]"] by (auto simp: padded_A_text(1) pads64_simps numeral_2_eq_2)

abbreviation new_object :: "nat \<Rightarrow> dispatch_data \<Rightarrow> nat \<Rightarrow> data_heap \<Rightarrow> data_heap" where
  "new_object d dd sz h \<equiv> h\<lparr>dh_obj := (dh_obj h)(d \<mapsto> dd), dh_ref := (dh_ref h)(d := 1), dh_alloc := (dh_alloc h)(d := sz),
     dh_next := Suc d\<rparr>"

abbreviation raw_leaf :: "u8 list \<Rightarrow> nat \<Rightarrow> dispatch_data" where
  "raw_leaf b n \<equiv> \<lparr>dd_buf = Some b, dd_destructor = DESTRUCTOR_FREE, dd_size = n, dd_records = [], dd_queue = None\<rparr>"

lemma size_mod: "64 < SIZE_MOD" "112 < SIZE_MOD"
  by (simp_all add: SIZE_MOD_def)

lemma create_raw:
  "n \<noteq> 0 \<Longrightarrow> dispatch_data_create (Some b) n None DESTRUCTOR_FREE True h
    = Inr (dh_next h, new_object (dh_next h) (raw_leaf (take n b) n) 64 h)"
  using size_mod(1) by (simp add: dispatch_data_create_def dispatch_data_alloc_def os_mul_and_add_overflow_def
      sizeof_dispatch_data_s_def)

lemma release_shared: "d \<noteq> dispatch_data_empty \<Longrightarrow> dh_ref h d = Suc (Suc n) \<Longrightarrow>
    dispatch_data_release d h = h\<lparr>dh_ref := (dh_ref h)(d := Suc n)\<rparr>"
  by (simp add: dispatch_data_release_def numeral_2_eq_2 data_release.simps(2))

lemma release_empty: "dispatch_data_release dispatch_data_empty h = h"
  by (simp add: dispatch_data_release_def numeral_2_eq_2 data_release.simps(2))

lemma first_region:
  assumes "decode64 0 0 0 [] padded_A = Some (x, c, 2, [65, 0, 0])"
    and h: "dh_obj h dispatch_data_empty = Some dd" "dd_size dd = 0" "0 < dh_next h"
  defines "rv \<equiv> dh_next h"
  shows "decode_block base64_decode_table base64_decode_table_size 6 3 base64_emit base64_strip (\<lambda>_. True)
      \<lparr>dec_x = 0, dec_count = 0, dec_pad = 0, dec_rv = dispatch_data_empty, dec_heap = Inr h\<rparr> region off padded_A
    = (True, \<lparr>dec_x = x, dec_count = c, dec_pad = 2, dec_rv = rv, dec_heap = Inr (new_object rv (raw_leaf [65] 1) 64 h)\<rparr>)"
proof -
  have "(length [65, 0, 0 :: u8] + SIZE_MOD - base64_strip 2) mod SIZE_MOD = 1" by (simp add: SIZE_MOD_def strip_2)
  moreover have "(0::nat) \<noteq> rv" using h(3) by (simp add: rv_def)
  moreover have "dispatch_data_create_concat dispatch_data_empty rv (new_object rv (raw_leaf [65] 1) 64 h)
      = Inr (rv, dispatch_data_retain rv (new_object rv (raw_leaf [65] 1) 64 h))"
    using h rv_def by (auto simp: dispatch_data_create_concat_def dispatch_data_empty_def)
  moreover have "dispatch_data_release rv (dispatch_data_retain rv (new_object rv (raw_leaf [65] 1) 64 h)) = new_object rv (raw_leaf [65] 1) 64 h"
    using h(3) by (subst release_shared) (auto simp: rv_def dispatch_data_retain_def dispatch_data_empty_def)
  ultimately show ?thesis
    unfolding decode_block_def by (simp add: assms(1) create_raw release_empty rv_def)
qed

lemma raw_leaf_records:
  "dispatch_data_num_records (raw_leaf b n) = 1"
  "data_records_of d (raw_leaf b n) = [\<lparr>data_object = d, rec_from = 0, rec_length = n\<rparr>]"
  by (simp_all add: dispatch_data_num_records_def data_records_of_def dispatch_data_leaf_def)

lemma second_region:
  assumes h: "dh_obj h rv = Some (raw_leaf [65] 1)" "dh_ref h rv = 1" "0 < rv" "rv < dh_next h"
  defines "val \<equiv> dh_next h"
  shows "\<exists>joined h'. decode_block base64_decode_table base64_decode_table_size 6 3 base64_emit base64_strip (\<lambda>_. True)
      \<lparr>dec_x = x, dec_count = c, dec_pad = 2, dec_rv = rv, dec_heap = Inr h\<rparr> region off [10]
    = (True, \<lparr>dec_x = x, dec_count = c, dec_pad = 2, dec_rv = joined, dec_heap = Inr h'\<rparr>)
    \<and> map_option dd_size (dh_obj h' joined) = Some (SIZE_MOD - 1)"
proof -
  let ?n = "SIZE_MOD - 2"
  have n: "(length ([] :: u8 list) + SIZE_MOD - base64_strip 2) mod SIZE_MOD = ?n" "?n \<noteq> 0"
    by (simp_all add: SIZE_MOD_def strip_2)
  have loop: "decode64 x c 2 [] [10] = Some (x, c, 2, [])" by (simp add: decode_loop.simps(2) whitespace_def)
  let ?h1 = "new_object val (raw_leaf (take ?n []) ?n) 64 h"
  let ?rs = "[\<lparr>data_object = rv, rec_from = 0, rec_length = 1\<rparr>, \<lparr>data_object = val, rec_from = 0, rec_length = ?n\<rparr>]"
  let ?dd = "\<lparr>dd_buf = None, dd_destructor = DESTRUCTOR_DEFAULT, dd_size = (1 + ?n) mod SIZE_MOD, dd_records = ?rs, dd_queue = None\<rparr>"
  let ?h2 = "dispatch_data_retain_records ?rs (new_object (Suc val) ?dd 112 ?h1)"
  have ne: "rv \<noteq> val" using h(4) by (simp add: val_def)
  have alloc: "dispatch_data_alloc (1 + 1) 0 ?dd ?h1 = Inr (Suc val, new_object (Suc val) ?dd 112 ?h1)"
    using size_mod by (simp add: dispatch_data_alloc_def os_mul_and_add_overflow_def sizeof_dispatch_data_s_def sizeof_range_record_def)
  have two: "\<not> SIZE_MOD \<le> 1 + 1" using size_mod by simp
  have o: "dh_obj ?h1 rv = Some (raw_leaf [65] 1)" "dh_obj ?h1 val = Some (raw_leaf (take ?n []) ?n)"
    using h(1) ne by simp_all
  have concat: "dispatch_data_create_concat rv val ?h1 = Inr (Suc val, ?h2)"
    unfolding dispatch_data_create_concat_def o prod.case option.case dispatch_data.simps raw_leaf_records Let_def
    by (simp only: one_neq_zero n(2) two if_False append.simps alloc sum.case prod.case)
  have ref: "dh_ref ?h2 val = Suc 1" "dh_ref ?h2 rv = Suc 1" "dh_obj ?h2 (Suc val) = Some ?dd"
    using h(2,3,4) ne by (simp_all add: dispatch_data_retain_records_def dispatch_data_retain_def dispatch_data_empty_def val_def)
  have ne0: "val \<noteq> dispatch_data_empty" "rv \<noteq> dispatch_data_empty" using h(3,4) by (simp_all add: val_def dispatch_data_empty_def)
  let ?h3 = "dispatch_data_release rv (dispatch_data_release val ?h2)"
  have "dispatch_data_release val ?h2 = ?h2\<lparr>dh_ref := (dh_ref ?h2)(val := 1)\<rparr>"
    using release_shared [OF ne0(1), of ?h2 0] ref(1) by simp
  moreover have "dispatch_data_release rv (?h2\<lparr>dh_ref := (dh_ref ?h2)(val := 1)\<rparr>)
      = ?h2\<lparr>dh_ref := (dh_ref ?h2)(val := 1)\<rparr>\<lparr>dh_ref := ((dh_ref ?h2)(val := 1))(rv := 1)\<rparr>"
    using release_shared [OF ne0(2), of "?h2\<lparr>dh_ref := (dh_ref ?h2)(val := 1)\<rparr>" 0] ref(2) ne by simp
  ultimately have obj: "dh_obj ?h3 (Suc val) = Some ?dd" using ref(3) by simp
  have "(1 + ?n) mod SIZE_MOD = SIZE_MOD - 1" by (simp add: SIZE_MOD_def)
  then have "map_option dd_size (dh_obj ?h3 (Suc val)) = Some (SIZE_MOD - 1)" unfolding obj by simp
  moreover have "decode_block base64_decode_table base64_decode_table_size 6 3 base64_emit base64_strip (\<lambda>_. True)
      \<lparr>dec_x = x, dec_count = c, dec_pad = 2, dec_rv = rv, dec_heap = Inr h\<rparr> region off [10]
    = (True, \<lparr>dec_x = x, dec_count = c, dec_pad = 2, dec_rv = Suc val, dec_heap = Inr ?h3\<rparr>)"
    unfolding decode_block_def decoder.simps loop option.case prod.case sum.case Let_def n(1) create_raw [OF n(2)] val_def [symmetric] concat
    by (simp only: if_False not_True_eq_False)
  ultimately show ?thesis by blast
qed

theorem from_base64_strips_padding_twice:
  "\<exists>d' h'. dispatch_transform_from_base64 4 (\<lambda>_. True) (text_heap padded_A [10]) = Inr (Some d', h')
    \<and> map_option dd_size (dh_obj h' d') = Some (2 ^ 64 - 1)"
proof -
  let ?h = "text_heap padded_A [10]"
  let ?f = "decode_block base64_decode_table base64_decode_table_size 6 3 base64_emit base64_strip (\<lambda>_. True)"
  have len: "length padded_A = 4" by (simp add: padded_A_def)
  have inv: "data_inv ?h sample_refs" using padded_A_text(2) by (intro text_heap_inv) (simp_all add: len SIZE_MOD_def)
  obtain x c where dec: "decode64 0 0 0 [] padded_A = Some (x, c, 2, [65, 0, 0])" using padded_A_decode by blast
  have e: "dh_obj ?h dispatch_data_empty = Some sample_empty" "dd_size sample_empty = 0" "dh_next ?h = 5"
    by (simp_all add: text_heap_def dispatch_data_empty_def sample_empty_def)
  have pos: "0 < dh_next ?h" by (simp add: e(3))
  note one = first_region [OF dec e(1,2) pos, of 2 0]
  let ?h1 = "new_object (dh_next ?h) (raw_leaf [65] 1) 64 ?h"
  have "dh_obj ?h1 (dh_next ?h) = Some (raw_leaf [65] 1)" "dh_ref ?h1 (dh_next ?h) = 1" "dh_next ?h < dh_next ?h1" by simp_all
  from second_region [OF this(1,2) pos this(3), of x c 3 "length padded_A"] obtain joined h' where
    two: "?f \<lparr>dec_x = x, dec_count = c, dec_pad = 2, dec_rv = dh_next ?h, dec_heap = Inr ?h1\<rparr> 3 (length padded_A) [10]
      = (True, \<lparr>dec_x = x, dec_count = c, dec_pad = 2, dec_rv = joined, dec_heap = Inr h'\<rparr>)"
    and size: "map_option dd_size (dh_obj h' joined) = Some (SIZE_MOD - 1)" by blast
  have run: "run_applier ?f \<lparr>dec_x = 0, dec_count = 0, dec_pad = 0, dec_rv = dispatch_data_empty, dec_heap = Inr ?h\<rparr>
      (data_regions ?h 4) = (True, \<lparr>dec_x = x, dec_count = c, dec_pad = 2, dec_rv = joined, dec_heap = Inr h'\<rparr>)"
    unfolding text_heap_regions [OF padded_A_text(2)] run_applier.simps one prod.case if_True two ..
  have "dispatch_transform_from_base64 4 (\<lambda>_. True) ?h = Inr (Some joined, h')"
    using dispatch_source.traverse_regions [OF data_validI [OF inv text_heap_obj(3)], unfolded prod.case, of ?f] run
    by (simp add: dispatch_transform_from_base64_def decode_data_def)
  then show ?thesis using size by (simp add: SIZE_MOD_def)
qed

end
