(* ===== verification/Unicode_Encoding.thy ===== *)
theory Unicode_Encoding
  imports Dispatch_Prelude
begin

text \<open>
  The encoding forms of the Unicode Standard (section 3.9), by arithmetic on code points: what the
  UTF transforms are specified by. Nothing here refers to the code of \<open>transform.c\<close>.
\<close>

unbundle bit_operations_syntax

section \<open>Scalar values\<close>

definition scalar :: "u32 \<Rightarrow> bool" where
  "scalar w = (w < 0x110000 \<and> \<not> (0xd800 \<le> w \<and> w \<le> 0xdfff))"

lemma scalar_bounds: "scalar w \<Longrightarrow> unat w < 2 ^ 21"
  by (simp add: scalar_def word_less_nat_alt)

section \<open>UTF-8\<close>

text \<open>The digits of the code point in base 64, the first one marked with the length.\<close>

definition utf8_sequence :: "nat \<Rightarrow> nat list" where
  "utf8_sequence c =
    (if c < 0x80 then [c]
     else if c < 0x800 then [0xc0 + c div 64, 0x80 + c mod 64]
     else if c < 0x10000 then [0xe0 + c div 64 ^ 2, 0x80 + c div 64 mod 64, 0x80 + c mod 64]
     else [0xf0 + c div 64 ^ 3, 0x80 + c div 64 ^ 2 mod 64, 0x80 + c div 64 mod 64, 0x80 + c mod 64])"

section \<open>UTF-16\<close>

text \<open>From U+10000 on, the digits in base 1024 of what is left as a pair of surrogates.\<close>

definition utf16_sequence :: "nat \<Rightarrow> nat list" where
  "utf16_sequence c =
    (if c < 0x10000 then [c] else [0xd800 + (c - 0x10000) div 1024, 0xdc00 + (c - 0x10000) mod 1024])"

definition octets_be :: "nat \<Rightarrow> nat list" where "octets_be u = [u div 256, u mod 256]"
definition octets_le :: "nat \<Rightarrow> nat list" where "octets_le u = [u mod 256, u div 256]"

section \<open>Texts\<close>

definition unicode_utf8 :: "u32 list \<Rightarrow> u8 list" where
  "unicode_utf8 cps = concat (map (\<lambda>w. map of_nat (utf8_sequence (unat w))) cps)"

definition unicode_utf16be :: "u32 list \<Rightarrow> u8 list" where
  "unicode_utf16be cps =
    concat (map (\<lambda>w. map of_nat (concat (map octets_be (utf16_sequence (unat w))))) cps)"

definition unicode_utf16le :: "u32 list \<Rightarrow> u8 list" where
  "unicode_utf16le cps =
    concat (map (\<lambda>w. map of_nat (concat (map octets_le (utf16_sequence (unat w))))) cps)"

lemmas unicode_defs = unicode_utf8_def unicode_utf16be_def unicode_utf16le_def utf8_sequence_def
  utf16_sequence_def octets_be_def octets_le_def

section \<open>The examples of the standard\<close>

lemma unicode_table_3_4:
  "unicode_utf8 [0x004d, 0x0430, 0x4e8c, 0x10302] =
    [0x4d, 0xd0, 0xb0, 0xe4, 0xba, 0x8c, 0xf0, 0x90, 0x8c, 0x82]"
  "unicode_utf16be [0x004d, 0x0430, 0x4e8c, 0x10302] =
    [0x00, 0x4d, 0x04, 0x30, 0x4e, 0x8c, 0xd8, 0x00, 0xdf, 0x02]"
  "unicode_utf16le [0x004d, 0x0430, 0x4e8c, 0x10302] =
    [0x4d, 0x00, 0x30, 0x04, 0x8c, 0x4e, 0x00, 0xd8, 0x02, 0xdf]"
  by (simp_all add: unicode_defs)

section \<open>Tags and digits of words\<close>

lemma or_tag: "v < 2 ^ k \<Longrightarrow> 2 ^ k dvd t \<Longrightarrow> t OR v = t + v" for t v :: nat
proof -
  assume v: "v < 2 ^ k" and t: "2 ^ k dvd t"
  have "bit v n \<Longrightarrow> n < k" for n
    using v bit_take_bit_iff [of k v n] by (simp add: take_bit_nat_eq_self)
  moreover have "bit t n \<Longrightarrow> k \<le> n" for n
    using t by (auto simp: dvd_def bit_push_bit_iff push_bit_eq_mult [symmetric] mult.commute)
  ultimately have "t AND v = 0" by (intro bit_eqI) (force simp: bit_and_iff)
  then show ?thesis by (simp add: disjunctive_add_eq_or)
qed

end
