(* ===== verification/Transform_UTF.thy ===== *)
theory Transform_UTF
  imports Transform_Decode Unicode_Encoding
begin

text \<open>
  The UTF part of \<open>transform.c\<close>: the output buffer, UTF-8 sequences, the transforms to and from
  UTF-16, the detection of the encoding and \<open>dispatch_data_create_with_transform\<close> with its table
  of formats. The host is little endian. A read beyond the bytes that were mapped is \<open>OutOfBounds\<close>.
\<close>

unbundle bit_operations_syntax

section \<open>The output buffer\<close>

text \<open>
  \<open>dispatch_transform_buffer_s\<close>: \<open>tb_start\<close> is \<open>None\<close> for a null \<open>start\<close>, otherwise what was
  written from \<open>start\<close> to \<open>ptr\<close>.
\<close>

record transform_buffer =
  tb_data :: nat
  tb_start :: "u8 list option"
  tb_size :: nat

definition BUFFER_MALLOC_MAX :: nat where "BUFFER_MALLOC_MAX = 100 * 1024 * 1024"

definition tb_written :: "transform_buffer \<Rightarrow> u8 list" where
  "tb_written b = (case tb_start b of None \<Rightarrow> [] | Some w \<Rightarrow> w)"

text \<open>Handing what was written to the data collected so far.\<close>

definition transform_buffer_collect ::
  "transform_buffer \<Rightarrow> data_heap \<Rightarrow> data_error + nat \<times> data_heap" where
  "transform_buffer_collect b h =
     (case tb_start b of
        None \<Rightarrow> Inr (tb_data b, h)
      | Some w \<Rightarrow>
          if w \<noteq> [] then
            (case dispatch_data_create (Some w) (length w) None DESTRUCTOR_FREE True h of
               Inl e \<Rightarrow> Inl e
             | Inr (new, h) \<Rightarrow>
                 (case dispatch_data_create_concat (tb_data b) new h of
                    Inl e \<Rightarrow> Inl e
                  | Inr (joined, h) \<Rightarrow>
                      Inr (joined, dispatch_data_release (tb_data b) (dispatch_data_release new h))))
          else Inr (tb_data b, h\<lparr>dh_events := FreeBuffer [] # dh_events h\<rparr>))"

definition dispatch_transform_buffer_new ::
  "(nat \<Rightarrow> bool) \<Rightarrow> transform_buffer \<Rightarrow> nat \<Rightarrow> nat \<Rightarrow> data_heap
     \<Rightarrow> data_error + bool \<times> transform_buffer \<times> data_heap" where
  "dispatch_transform_buffer_new mem b required sz h =
     (let remaining = (tb_size b + SIZE_MOD - length (tb_written b)) mod SIZE_MOD
      in if required = 0 \<or> remaining < required then
           (case transform_buffer_collect b h of Inl e \<Rightarrow> Inl e
            | Inr (data, h) \<Rightarrow>
                let new_size = (required + sz) mod SIZE_MOD
                in if 0 < new_size then
                     (if BUFFER_MALLOC_MAX < new_size \<or> \<not> mem new_size
                      then Inr (False, \<lparr>tb_data = data, tb_start = None, tb_size = new_size\<rparr>, h)
                      else Inr (True, \<lparr>tb_data = data, tb_start = Some [], tb_size = new_size\<rparr>, h))
                   else Inr (True, \<lparr>tb_data = data, tb_start = None, tb_size = 0\<rparr>, h))
         else Inr (True, b, h))"

text \<open>The \<open>__block\<close> variables of the two transforms.\<close>

record utf_state =
  utf_skip :: nat
  utf_buffer :: transform_buffer
  utf_heap :: "data_error + data_heap"

definition utf_init :: "data_heap \<Rightarrow> utf_state" where
  "utf_init h = \<lparr>utf_skip = 0, utf_buffer = \<lparr>tb_data = dispatch_data_empty, tb_start = None, tb_size = 0\<rparr>, utf_heap = Inr h\<rparr>"

text \<open>Making room for \<open>required\<close> bytes and writing them.\<close>

definition utf_emit :: "(nat \<Rightarrow> bool) \<Rightarrow> nat \<Rightarrow> nat \<Rightarrow> u8 list \<Rightarrow> utf_state \<Rightarrow> bool \<times> utf_state" where
  "utf_emit mem required next_size bytes s =
     (case utf_heap s of Inl e \<Rightarrow> (False, s)
      | Inr h \<Rightarrow>
          (case dispatch_transform_buffer_new mem (utf_buffer s) required next_size h of
             Inl e \<Rightarrow> (False, s\<lparr>utf_heap := Inl e\<rparr>)
           | Inr (ok, b, h) \<Rightarrow>
               if ok then (True, s\<lparr>utf_buffer := b\<lparr>tb_start := map_option (\<lambda>w. w @ bytes) (tb_start b)\<rparr>, utf_heap := Inr h\<rparr>)
               else (False, s\<lparr>utf_buffer := b, utf_heap := Inr h\<rparr>)))"

text \<open>\<open>(void)_dispatch_transform_buffer_new(&buffer, 0, 0)\<close>.\<close>

definition utf_flush :: "(nat \<Rightarrow> bool) \<Rightarrow> utf_state \<Rightarrow> utf_state" where
  "utf_flush mem s =
     (case utf_heap s of Inl e \<Rightarrow> s
      | Inr h \<Rightarrow>
          (case dispatch_transform_buffer_new mem (utf_buffer s) 0 0 h of
             Inl e \<Rightarrow> s\<lparr>utf_heap := Inl e\<rparr>
           | Inr (_, b, h) \<Rightarrow> s\<lparr>utf_buffer := b, utf_heap := Inr h\<rparr>))"

definition utf_finish :: "(nat \<Rightarrow> bool) \<Rightarrow> data_error + bool \<times> utf_state \<Rightarrow> data_error + nat option \<times> data_heap" where
  "utf_finish mem r =
     (case r of Inl e \<Rightarrow> Inl e
      | Inr (success, s) \<Rightarrow>
          if success then
            (case utf_heap s of Inl e \<Rightarrow> Inl e | Inr h \<Rightarrow> Inr (Some (tb_data (utf_buffer s)), h))
          else
            (let s = utf_flush mem s
             in case utf_heap s of Inl e \<Rightarrow> Inl e
                | Inr h \<Rightarrow> Inr (None, dispatch_data_release (tb_data (utf_buffer s)) h)))"

section \<open>Byte order\<close>

datatype byte_order = OSLittleEndian | OSBigEndian

definition OSSwapInt16 :: "u16 \<Rightarrow> u16" where
  "OSSwapInt16 x = push_bit 8 x OR drop_bit 8 x"

definition dispatch_transform_swap_to_host :: "u16 \<Rightarrow> byte_order \<Rightarrow> u16" where
  "dispatch_transform_swap_to_host x order = (if order = OSLittleEndian then x else OSSwapInt16 x)"

definition dispatch_transform_swap_from_host :: "u16 \<Rightarrow> byte_order \<Rightarrow> u16" where
  "dispatch_transform_swap_from_host x order = (if order = OSLittleEndian then x else OSSwapInt16 x)"

text \<open>A \<open>uint16_t\<close> in the memory of the host.\<close>

definition unit_bytes :: "u16 \<Rightarrow> u8 list" where
  "unit_bytes x = [ucast x, ucast (drop_bit 8 x)]"

definition unit_at :: "u8 list \<Rightarrow> nat \<Rightarrow> u16 option" where
  "unit_at src i = (if 2 * i + 2 \<le> length src
     then Some (ucast (src ! (2 * i)) OR push_bit 8 (ucast (src ! (2 * i + 1)))) else None)"

text \<open>A \<open>uint64_t\<close> in memory, of which \<open>p\<close> are the bytes that were mapped.\<close>

definition load_u64 :: "u8 list \<Rightarrow> u64 option" where
  "load_u64 p = (if 8 \<le> length p then Some (word_rcat (rev (take 8 p))) else None)"

section \<open>UTF-8 sequences\<close>

definition dispatch_transform_utf8_length :: "u8 \<Rightarrow> u8" where
  "dispatch_transform_utf8_length byte =
     (if byte AND 0x80 = 0 then 1
      else if byte AND 0xe0 = 0xc0 then 2
      else if byte AND 0xf0 = 0xe0 then 3
      else if byte AND 0xf8 = 0xf0 then 4
      else 0)"

fun read_utf8_rest :: "nat \<Rightarrow> u32 \<Rightarrow> u8 list \<Rightarrow> u32 option" where
  "read_utf8_rest 0 wch bytes = Some wch"
| "read_utf8_rest (Suc seq_length) wch [] = None"
| "read_utf8_rest (Suc seq_length) wch (b # bytes) =
     (let wch = wch OR (ucast b AND 0x3f)
      in read_utf8_rest seq_length (if 0 < seq_length then push_bit 6 wch else wch) bytes)"

definition dispatch_transform_read_utf8_sequence :: "u8 list \<Rightarrow> u32 option" where
  "dispatch_transform_read_utf8_sequence bytes =
     (case bytes of [] \<Rightarrow> None
      | b # rest \<Rightarrow>
          let seq_length = dispatch_transform_utf8_length b;
              wch = (if seq_length = 4 then push_bit 6 (ucast b AND 0x7)
                     else if seq_length = 3 then push_bit 6 (ucast b AND 0xf)
                     else if seq_length = 2 then push_bit 6 (ucast b AND 0x1f)
                     else if seq_length = 1 then ucast b AND 0x7f
                     else 0)
          in read_utf8_rest (unat (seq_length - 1)) wch rest)"

section \<open>To UTF-16\<close>

text \<open>The units of a code point, with the surrogate pair of the code.\<close>

definition utf16_units :: "u32 \<Rightarrow> u16 list" where
  "utf16_units wch =
     (if 0x10000 \<le> wch then
        (let wch = wch - 0x10000
         in [ucast ((drop_bit 10 wch AND 0x3ff) + 0xd800), ucast ((wch AND 0x3ff) + 0xdc00)])
      else [ucast (wch AND 0xffff)])"

definition units_bytes :: "byte_order \<Rightarrow> u16 list \<Rightarrow> u8 list" where
  "units_bytes order us = concat (map (\<lambda>u. unit_bytes (dispatch_transform_swap_from_host u order)) us)"

definition to_utf16_put :: "byte_order \<Rightarrow> (nat \<Rightarrow> bool) \<Rightarrow> u32 \<Rightarrow> nat \<Rightarrow> utf_state \<Rightarrow> bool \<times> utf_state" where
  "to_utf16_put order mem wch left s =
     (if SIZE_MOD \<le> left * 2 then (False, s)
      else if 0xd800 \<le> wch \<and> wch < 0xdfff then (False, s)
      else if 0x10000 \<le> wch then utf_emit mem 4 (left * 2) (units_bytes order (utf16_units wch)) s
      else utf_emit mem 2 (left * 2) (units_bytes order (utf16_units wch)) s)"

text \<open>
  The loop over a region: \<open>src\<close> are the bytes from index \<open>i\<close>, \<open>size\<close> the length after the skip.
  The offset of a sequence that goes on in the next region is \<open>offset + i\<close>, as in the code.
\<close>

function to_utf16_loop ::
  "nat \<Rightarrow> data_heap \<Rightarrow> byte_order \<Rightarrow> (nat \<Rightarrow> bool) \<Rightarrow> nat \<Rightarrow> nat \<Rightarrow> nat \<Rightarrow> u8 list \<Rightarrow> utf_state \<Rightarrow> bool \<times> utf_state" where
  "to_utf16_loop d h order mem offset sz i src s =
     (case src of [] \<Rightarrow> (True, s)
      | b # _ \<Rightarrow>
          let byte_size = unat (dispatch_transform_utf8_length b)
          in if byte_size = 0 then (False, s)
             else if sz < byte_size + i then
               (case dispatch_data_subrange_map d ((offset + i) mod SIZE_MOD) byte_size h of
                  None \<Rightarrow> (False, s)
                | Some p \<Rightarrow>
                    (case dispatch_transform_read_utf8_sequence p of
                       None \<Rightarrow> (False, s\<lparr>utf_heap := Inl OutOfBounds\<rparr>)
                     | Some wch \<Rightarrow>
                         to_utf16_put order mem wch 0 (s\<lparr>utf_skip := utf_skip s + (byte_size - (sz - i))\<rparr>)))
             else
               (case dispatch_transform_read_utf8_sequence src of
                  None \<Rightarrow> (False, s\<lparr>utf_heap := Inl OutOfBounds\<rparr>)
                | Some wch \<Rightarrow>
                    (case to_utf16_put order mem wch (sz - (i + byte_size)) s of
                       (ok, s) \<Rightarrow>
                         if ok then to_utf16_loop d h order mem offset sz (i + byte_size) (drop byte_size src) s
                         else (False, s))))"
  by pat_completeness auto
termination by (relation "measure (\<lambda>(d, h, order, mem, offset, sz, i, src, s). length src)") auto

declare to_utf16_loop.simps [simp del]

definition to_utf16_block ::
  "nat \<Rightarrow> data_heap \<Rightarrow> byte_order \<Rightarrow> (nat \<Rightarrow> bool) \<Rightarrow> utf_state \<Rightarrow> nat \<Rightarrow> nat \<Rightarrow> u8 list \<Rightarrow> bool \<times> utf_state" where
  "to_utf16_block d h order mem s region offset bytes =
     (let sz = length bytes
      in case (if offset = 0 then
                 (case os_mul_and_add_overflow sz 2 2 of None \<Rightarrow> (False, s)
                  | Some dest_size \<Rightarrow> utf_emit mem dest_size 0 (units_bytes order [0xfeff]) s)
               else (True, s)) of
           (False, s) \<Rightarrow> (False, s)
         | (True, s) \<Rightarrow>
             if sz \<le> utf_skip s then (True, s\<lparr>utf_skip := utf_skip s - sz\<rparr>)
             else let skip = utf_skip s
                  in (case to_utf16_loop d h order mem offset (sz - skip) 0 (drop skip bytes) (s\<lparr>utf_skip := 0\<rparr>) of
                        (ok, s) \<Rightarrow> if ok then (True, utf_flush mem s) else (False, s)))"

definition dispatch_transform_to_utf16 ::
  "nat \<Rightarrow> byte_order \<Rightarrow> (nat \<Rightarrow> bool) \<Rightarrow> data_heap \<Rightarrow> data_error + nat option \<times> data_heap" where
  "dispatch_transform_to_utf16 d order mem h =
     utf_finish mem (dispatch_data_apply d (to_utf16_block d h order mem) (utf_init h) h)"

section \<open>From UTF-16\<close>

text \<open>The sequence the code writes for a code point; nothing from \<open>0x200000\<close> on.\<close>

definition utf8_bytes :: "u32 \<Rightarrow> u8 list" where
  "utf8_bytes wch =
     (if wch < 0x80 then [ucast (wch AND 0xff)]
      else if wch < 0x800 then [ucast (0xc0 OR drop_bit 6 wch), ucast (0x80 OR (wch AND 0x3f))]
      else if wch < 0x10000 then
        [ucast (0xe0 OR drop_bit 12 wch), ucast (0x80 OR (drop_bit 6 wch AND 0x3f)), ucast (0x80 OR (wch AND 0x3f))]
      else if wch < 0x200000 then
        [ucast (0xf0 OR drop_bit 18 wch), ucast (0x80 OR (drop_bit 12 wch AND 0x3f)),
         ucast (0x80 OR (drop_bit 6 wch AND 0x3f)), ucast (0x80 OR (wch AND 0x3f))]
      else [])"

definition from_utf16_put :: "(nat \<Rightarrow> bool) \<Rightarrow> u32 \<Rightarrow> nat \<Rightarrow> utf_state \<Rightarrow> bool \<times> utf_state" where
  "from_utf16_put mem wch left s =
     (if SIZE_MOD \<le> left * 2 then (False, s)
      else if utf8_bytes wch = [] then (True, s)
      else utf_emit mem (length (utf8_bytes wch)) (left * 2) (utf8_bytes wch) s)"

text \<open>
  The loop over a region; \<open>src\<close> are its bytes after the skip and \<open>sz\<close> their number. A unit that is
  half in the next region is loaded as the low part of eight bytes, although two were mapped.
\<close>

function from_utf16_loop ::
  "nat \<Rightarrow> data_heap \<Rightarrow> byte_order \<Rightarrow> (nat \<Rightarrow> bool) \<Rightarrow> nat \<Rightarrow> nat \<Rightarrow> nat \<Rightarrow> nat \<Rightarrow> u8 list \<Rightarrow> utf_state
     \<Rightarrow> bool \<times> utf_state" where
  "from_utf16_loop d h order mem offset sz max_i i src s =
     (if max_i \<le> i then (True, s)
      else
        case (if i = max_i - 1 \<and> sz div 2 < max_i then
                (case dispatch_data_subrange_map d ((offset + i * 2) mod SIZE_MOD) 2 h of
                   None \<Rightarrow> Inl s
                 | Some p \<Rightarrow> (case load_u64 p of None \<Rightarrow> Inl (s\<lparr>utf_heap := Inl OutOfBounds\<rparr>)
                     | Some x \<Rightarrow> Inr (ucast x, s\<lparr>utf_skip := utf_skip s + 1\<rparr>)))
              else (case unit_at src i of None \<Rightarrow> Inl (s\<lparr>utf_heap := Inl OutOfBounds\<rparr>) | Some u \<Rightarrow> Inr (u, s))) of
          Inl s \<Rightarrow> (False, s)
        | Inr (u, s) \<Rightarrow>
            let ch = dispatch_transform_swap_to_host u order
            in if ch = 0xfffe \<and> offset = 0 \<and> i = 0 then (False, s)
               else if ch = 0xfeff \<and> offset = 0 \<and> i = 0 then
                 from_utf16_loop d h order mem offset sz max_i (i + 1) src s
               else if 0xd800 \<le> ch \<and> ch \<le> 0xdbff then
                 (case (if max_i \<le> i + 1 then
                          (case dispatch_data_subrange_map d ((offset + (i + 1) * 2) mod SIZE_MOD) 2 h of
                             None \<Rightarrow> Inl s
                           | Some p \<Rightarrow> (case unit_at p 0 of None \<Rightarrow> Inl (s\<lparr>utf_heap := Inl OutOfBounds\<rparr>)
                               | Some u \<Rightarrow> Inr (u, s\<lparr>utf_skip := utf_skip s + 2\<rparr>)))
                        else (case unit_at src (i + 1) of None \<Rightarrow> Inl (s\<lparr>utf_heap := Inl OutOfBounds\<rparr>)
                                | Some u \<Rightarrow> Inr (u, s))) of
                    Inl s \<Rightarrow> (False, s)
                  | Inr (u, s) \<Rightarrow>
                      let low = dispatch_transform_swap_to_host u order
                      in if \<not> (0xdc00 \<le> low \<and> low \<le> 0xdfff) then (False, s)
                         else let wch = (push_bit 10 (ucast ch - 0xd800 :: u32) OR (ucast low AND 0x3ff)) + 0x10000
                              in (case from_utf16_put mem wch (max_i - (i + 1)) s of
                                    (ok, s) \<Rightarrow>
                                      if ok then from_utf16_loop d h order mem offset sz max_i (i + 2) src s
                                      else (False, s)))
               else if 0xdc00 \<le> ch \<and> ch \<le> 0xdfff then (False, s)
               else (case from_utf16_put mem (ucast ch) (max_i - i) s of
                       (ok, s) \<Rightarrow>
                         if ok then from_utf16_loop d h order mem offset sz max_i (i + 1) src s else (False, s)))"
  by pat_completeness auto
termination
  by (relation "measure (\<lambda>(d, h, order, mem, offset, sz, max_i, i, src, s). max_i - i)") auto

declare from_utf16_loop.simps [simp del]

definition from_utf16_block ::
  "nat \<Rightarrow> data_heap \<Rightarrow> byte_order \<Rightarrow> (nat \<Rightarrow> bool) \<Rightarrow> utf_state \<Rightarrow> nat \<Rightarrow> nat \<Rightarrow> u8 list \<Rightarrow> bool \<times> utf_state" where
  "from_utf16_block d h order mem s region offset bytes =
     (let sz = length bytes
      in case (if offset = 0 then utf_emit mem (howmany sz 3 * 2) 0 [] s else (True, s)) of
           (False, s) \<Rightarrow> (False, s)
         | (True, s) \<Rightarrow>
             if sz \<le> utf_skip s then (True, s\<lparr>utf_skip := utf_skip s - sz\<rparr>)
             else let skip = utf_skip s; sz = sz - skip;
                      max_i = (if sz mod 2 \<noteq> 0 then sz div 2 + 1 else sz div 2)
                  in (case from_utf16_loop d h order mem offset sz max_i 0 (drop skip bytes) (s\<lparr>utf_skip := 0\<rparr>) of
                        (ok, s) \<Rightarrow> if ok then (True, utf_flush mem s) else (False, s)))"

definition dispatch_transform_from_utf16 ::
  "nat \<Rightarrow> byte_order \<Rightarrow> (nat \<Rightarrow> bool) \<Rightarrow> data_heap \<Rightarrow> data_error + nat option \<times> data_heap" where
  "dispatch_transform_from_utf16 d order mem h =
     utf_finish mem (dispatch_data_apply d (from_utf16_block d h order mem) (utf_init h) h)"

section \<open>Formats\<close>

datatype transform = From_base32 | To_base32 | From_base32hex | To_base32hex | From_base64 | To_base64
  | From_utf16le | To_utf16le | From_utf16be | To_utf16be

definition dispatch_transform_from_utf16le ::
  "nat \<Rightarrow> (nat \<Rightarrow> bool) \<Rightarrow> data_heap \<Rightarrow> data_error + nat option \<times> data_heap" where
  "dispatch_transform_from_utf16le d mem h = dispatch_transform_from_utf16 d OSLittleEndian mem h"

definition dispatch_transform_from_utf16be ::
  "nat \<Rightarrow> (nat \<Rightarrow> bool) \<Rightarrow> data_heap \<Rightarrow> data_error + nat option \<times> data_heap" where
  "dispatch_transform_from_utf16be d mem h = dispatch_transform_from_utf16 d OSBigEndian mem h"

definition dispatch_transform_to_utf16le ::
  "nat \<Rightarrow> (nat \<Rightarrow> bool) \<Rightarrow> data_heap \<Rightarrow> data_error + nat option \<times> data_heap" where
  "dispatch_transform_to_utf16le d mem h = dispatch_transform_to_utf16 d OSLittleEndian mem h"

definition dispatch_transform_to_utf16be ::
  "nat \<Rightarrow> (nat \<Rightarrow> bool) \<Rightarrow> data_heap \<Rightarrow> data_error + nat option \<times> data_heap" where
  "dispatch_transform_to_utf16be d mem h = dispatch_transform_to_utf16 d OSBigEndian mem h"

text \<open>\<open>junk\<close> is what the encoders' \<open>malloc\<close> returns, \<open>mem\<close> whether the others' succeeds.\<close>

fun run_transform ::
  "transform \<Rightarrow> nat \<Rightarrow> (nat \<Rightarrow> bool) \<Rightarrow> u8 list option \<Rightarrow> data_heap \<Rightarrow> data_error + nat option \<times> data_heap" where
  "run_transform From_base32 d mem junk h = dispatch_transform_from_base32 d mem h"
| "run_transform To_base32 d mem junk h = dispatch_transform_to_base32 d junk h"
| "run_transform From_base32hex d mem junk h = dispatch_transform_from_base32hex d mem h"
| "run_transform To_base32hex d mem junk h = dispatch_transform_to_base32hex d junk h"
| "run_transform From_base64 d mem junk h = dispatch_transform_from_base64 d mem h"
| "run_transform To_base64 d mem junk h = dispatch_transform_to_base64 d junk h"
| "run_transform From_utf16le d mem junk h = dispatch_transform_from_utf16le d mem h"
| "run_transform To_utf16le d mem junk h = dispatch_transform_to_utf16le d mem h"
| "run_transform From_utf16be d mem junk h = dispatch_transform_from_utf16be d mem h"
| "run_transform To_utf16be d mem junk h = dispatch_transform_to_utf16be d mem h"

record format_type =
  ft_type :: u64
  ft_input_mask :: u64
  ft_output_mask :: u64
  ft_decode :: "transform option"
  ft_encode :: "transform option"

definition DATA_FORMAT_NONE :: u64 where "DATA_FORMAT_NONE = 0x1"
definition DATA_FORMAT_UTF8 :: u64 where "DATA_FORMAT_UTF8 = 0x2"
definition DATA_FORMAT_UTF16LE :: u64 where "DATA_FORMAT_UTF16LE = 0x4"
definition DATA_FORMAT_UTF16BE :: u64 where "DATA_FORMAT_UTF16BE = 0x8"
definition DATA_FORMAT_UTF_ANY :: u64 where "DATA_FORMAT_UTF_ANY = 0x10"
definition DATA_FORMAT_BASE32 :: u64 where "DATA_FORMAT_BASE32 = 0x20"
definition DATA_FORMAT_BASE32HEX :: u64 where "DATA_FORMAT_BASE32HEX = 0x40"
definition DATA_FORMAT_BASE64 :: u64 where "DATA_FORMAT_BASE64 = 0x80"

definition base_mask :: u64 where
  "base_mask = DATA_FORMAT_NONE OR DATA_FORMAT_BASE32 OR DATA_FORMAT_BASE32HEX OR DATA_FORMAT_BASE64"

definition utf_mask :: u64 where
  "utf_mask = DATA_FORMAT_UTF8 OR DATA_FORMAT_UTF16BE OR DATA_FORMAT_UTF16LE"

definition data_format_type_none :: format_type where
  "data_format_type_none = \<lparr>ft_type = DATA_FORMAT_NONE, ft_input_mask = 0xffffffff, ft_output_mask = 0xffffffff,
     ft_decode = None, ft_encode = None\<rparr>"
definition data_format_type_base32 :: format_type where
  "data_format_type_base32 = \<lparr>ft_type = DATA_FORMAT_BASE32, ft_input_mask = base_mask, ft_output_mask = base_mask,
     ft_decode = Some From_base32, ft_encode = Some To_base32\<rparr>"
definition data_format_type_base32hex :: format_type where
  "data_format_type_base32hex = \<lparr>ft_type = DATA_FORMAT_BASE32HEX, ft_input_mask = base_mask, ft_output_mask = base_mask,
     ft_decode = Some From_base32hex, ft_encode = Some To_base32hex\<rparr>"
definition data_format_type_base64 :: format_type where
  "data_format_type_base64 = \<lparr>ft_type = DATA_FORMAT_BASE64, ft_input_mask = base_mask, ft_output_mask = base_mask,
     ft_decode = Some From_base64, ft_encode = Some To_base64\<rparr>"
definition data_format_type_utf16le :: format_type where
  "data_format_type_utf16le = \<lparr>ft_type = DATA_FORMAT_UTF16LE, ft_input_mask = utf_mask, ft_output_mask = utf_mask,
     ft_decode = Some From_utf16le, ft_encode = Some To_utf16le\<rparr>"
definition data_format_type_utf16be :: format_type where
  "data_format_type_utf16be = \<lparr>ft_type = DATA_FORMAT_UTF16BE, ft_input_mask = utf_mask, ft_output_mask = utf_mask,
     ft_decode = Some From_utf16be, ft_encode = Some To_utf16be\<rparr>"
definition data_format_type_utf8 :: format_type where
  "data_format_type_utf8 = \<lparr>ft_type = DATA_FORMAT_UTF8, ft_input_mask = utf_mask, ft_output_mask = utf_mask,
     ft_decode = None, ft_encode = None\<rparr>"
definition data_format_type_utf_any :: format_type where
  "data_format_type_utf_any = \<lparr>ft_type = DATA_FORMAT_UTF_ANY, ft_input_mask = 0, ft_output_mask = 0,
     ft_decode = None, ft_encode = None\<rparr>"

definition dispatch_transform_detect_utf :: "nat \<Rightarrow> data_heap \<Rightarrow> format_type option" where
  "dispatch_transform_detect_utf d h =
     (case dispatch_data_subrange_map d 0 2 h of None \<Rightarrow> None
      | Some p \<Rightarrow>
          (case unit_at p 0 of None \<Rightarrow> None
           | Some ch \<Rightarrow>
               Some (if ch = 0xfeff then data_format_type_utf16le
                     else if ch = 0xfffe then data_format_type_utf16be
                     else data_format_type_utf8)))"

text \<open>
  \<open>dispatch_data_create_with_transform\<close>; the inner \<open>None\<close> is \<open>DISPATCH_BAD_INPUT\<close> and the null
  object. An empty object is returned as it is, without a reference of its own.
\<close>

definition dispatch_data_create_with_transform ::
  "nat \<Rightarrow> format_type \<Rightarrow> format_type \<Rightarrow> (nat \<Rightarrow> bool) \<Rightarrow> u8 list option \<Rightarrow> u8 list option \<Rightarrow> data_heap
     \<Rightarrow> data_error + nat option \<times> data_heap" where
  "dispatch_data_create_with_transform d input output mem junk1 junk2 h =
     (case (if ft_type input = DATA_FORMAT_UTF_ANY then dispatch_transform_detect_utf d h else Some input) of
        None \<Rightarrow> Inr (None, h)
      | Some input \<Rightarrow>
          if ft_type input AND NOT (ft_input_mask output) \<noteq> 0 then Inr (None, h)
          else if ft_type output AND NOT (ft_output_mask input) \<noteq> 0 then Inr (None, h)
          else if dispatch_data_get_size d h = 0 then Inr (Some d, h)
          else (case (case ft_decode input of
                        Some f \<Rightarrow> run_transform f d mem junk1 h
                      | None \<Rightarrow> Inr (Some d, dispatch_data_retain d h)) of
                  Inl e \<Rightarrow> Inl e
                | Inr (None, h) \<Rightarrow> Inr (None, h)
                | Inr (Some temp1, h) \<Rightarrow>
                    (case (case ft_encode output of
                             Some f \<Rightarrow> run_transform f temp1 mem junk2 h
                           | None \<Rightarrow> Inr (Some temp1, dispatch_data_retain temp1 h)) of
                       Inl e \<Rightarrow> Inl e
                     | Inr (temp2, h) \<Rightarrow> Inr (temp2, dispatch_data_release temp1 h))))"

section \<open>Reading what was written\<close>

lemma bit_less:
  assumes "unat (w :: u32) < 2 ^ k" "bit w n"
  shows "n < k"
proof (rule ccontr)
  assume "\<not> n < k"
  then have "(2::nat) ^ k \<le> 2 ^ n" by simp
  with assms(1) have "unat w < 2 ^ n" by (rule less_le_trans)
  then have "unat w div 2 ^ n = 0" by (rule div_less)
  moreover have "bit (unat w) n" using assms(2) by (simp add: bit_unsigned_iff)
  ultimately show False by (simp add: bit_iff_odd)
qed

lemma utf8_masks:
  "(0x7 :: u32) = mask 3" "(0xf :: u32) = mask 4" "(0x1f :: u32) = mask 5" "(0x3f :: u32) = mask 6" "(0x7f :: u32) = mask 7"
  "(0xff :: u32) = mask 8"
  by (simp_all add: mask_eq_exp_minus_1)

lemma marker_bits:
  "bit (0x80 :: u32) n \<longleftrightarrow> n = 7" "bit (0xc0 :: u32) n \<longleftrightarrow> n = 7 \<or> n = 6" "bit (0xe0 :: u32) n \<longleftrightarrow> n = 7 \<or> n = 6 \<or> n = 5"
  "bit (0xf0 :: u32) n \<longleftrightarrow> n = 7 \<or> n = 6 \<or> n = 5 \<or> n = 4"
proof -
  have e: "(0x80 :: u32) = push_bit 7 (mask 1)" "(0xc0 :: u32) = push_bit 6 (mask 2)" "(0xe0 :: u32) = push_bit 5 (mask 3)"
    "(0xf0 :: u32) = push_bit 4 (mask 4)" by (simp_all add: mask_eq_exp_minus_1)
  note b = bit_push_bit_iff bit_mask_iff
  show "bit (0x80 :: u32) n \<longleftrightarrow> n = 7" unfolding e b by auto
  show "bit (0xc0 :: u32) n \<longleftrightarrow> n = 7 \<or> n = 6" unfolding e b by auto
  show "bit (0xe0 :: u32) n \<longleftrightarrow> n = 7 \<or> n = 6 \<or> n = 5" unfolding e b by auto
  show "bit (0xf0 :: u32) n \<longleftrightarrow> n = 7 \<or> n = 6 \<or> n = 5 \<or> n = 4" unfolding e b by auto
qed

lemma ucast_or_bits: "bit (ucast (a OR b :: u32) :: u8) n \<longleftrightarrow> n < 8 \<and> (bit a n \<or> bit b n)"
  by (auto simp: bit_simps)

text \<open>The value bits of the bytes of a sequence.\<close>

lemma value_bits:
  "bit (ucast (ucast (a OR b) :: u8) AND mask m :: u32) n \<longleftrightarrow> n < m \<and> n < 8 \<and> (bit (a :: u32) n \<or> bit b n)"
proof -
  have "bit (ucast (ucast (a OR b) :: u8) AND mask m :: u32) n \<longleftrightarrow> n < m \<and> n < 32 \<and> bit (ucast (a OR b) :: u8) n"
    by (auto simp: bit_and_iff bit_mask_iff bit_unsigned_iff)
  then show ?thesis unfolding ucast_or_bits by auto
qed

lemma bit_less_all: "unat (w :: u32) < 2 ^ k \<Longrightarrow> \<forall>n. bit w n \<longrightarrow> n < k"
  using bit_less by blast

lemma lead_bits:
  "unat w < 2 ^ 5 \<Longrightarrow> (ucast (ucast (0xc0 OR w) :: u8) AND 0x1f :: u32) = w"
  "unat w < 2 ^ 4 \<Longrightarrow> (ucast (ucast (0xe0 OR w) :: u8) AND 0xf :: u32) = w"
  "unat w < 2 ^ 3 \<Longrightarrow> (ucast (ucast (0xf0 OR w) :: u8) AND 0x7 :: u32) = w"
  subgoal by (rule bit_word_eqI, drule bit_less_all, simp only: utf8_masks value_bits marker_bits) fastforce
  subgoal by (rule bit_word_eqI, drule bit_less_all, simp only: utf8_masks value_bits marker_bits) fastforce
  subgoal by (rule bit_word_eqI, drule bit_less_all, simp only: utf8_masks value_bits marker_bits) fastforce
  done

lemma tail_bits: "(ucast (ucast (0x80 OR (w AND 0x3f)) :: u8) AND 0x3f :: u32) = w AND 0x3f"
  by (rule bit_word_eqI, simp only: utf8_masks value_bits marker_bits) (auto simp: bit_and_iff bit_mask_iff)

lemma join2: "push_bit 6 (drop_bit 6 w) OR (w AND 0x3f) = (w :: u32)"
  unfolding utf8_masks by (rule bit_word_eqI) (auto simp: bit_simps)

lemma marker_bits8:
  "bit (0x80 :: u8) n \<longleftrightarrow> n = 7" "bit (0xc0 :: u8) n \<longleftrightarrow> n = 7 \<or> n = 6" "bit (0xe0 :: u8) n \<longleftrightarrow> n = 7 \<or> n = 6 \<or> n = 5"
  "bit (0xf0 :: u8) n \<longleftrightarrow> n = 7 \<or> n = 6 \<or> n = 5 \<or> n = 4" "bit (0xf8 :: u8) n \<longleftrightarrow> n = 7 \<or> n = 6 \<or> n = 5 \<or> n = 4 \<or> n = 3"
proof -
  have e: "(0x80 :: u8) = push_bit 7 (mask 1)" "(0xc0 :: u8) = push_bit 6 (mask 2)" "(0xe0 :: u8) = push_bit 5 (mask 3)"
    "(0xf0 :: u8) = push_bit 4 (mask 4)" "(0xf8 :: u8) = push_bit 3 (mask 5)" by (simp_all add: mask_eq_exp_minus_1)
  note b = bit_push_bit_iff bit_mask_iff
  show "bit (0x80 :: u8) n \<longleftrightarrow> n = 7" unfolding e b by auto
  show "bit (0xc0 :: u8) n \<longleftrightarrow> n = 7 \<or> n = 6" unfolding e b by auto
  show "bit (0xe0 :: u8) n \<longleftrightarrow> n = 7 \<or> n = 6 \<or> n = 5" unfolding e b by auto
  show "bit (0xf0 :: u8) n \<longleftrightarrow> n = 7 \<or> n = 6 \<or> n = 5 \<or> n = 4" unfolding e b by auto
  show "bit (0xf8 :: u8) n \<longleftrightarrow> n = 7 \<or> n = 6 \<or> n = 5 \<or> n = 4 \<or> n = 3" unfolding e b by auto
qed

lemma and_eq_bits: "(a AND m = (c :: u8)) \<longleftrightarrow> (\<forall>n < 8. (bit a n \<and> bit m n) = bit c n)"
  by (auto simp: bit_eq_iff bit_and_iff)

lemma marker_eq:
  "(b :: u8) AND 0x80 = 0 \<longleftrightarrow> \<not> bit b 7" "(b :: u8) AND 0xe0 = 0xc0 \<longleftrightarrow> bit b 7 \<and> bit b 6 \<and> \<not> bit b 5"
  "(b :: u8) AND 0xf0 = 0xe0 \<longleftrightarrow> bit b 7 \<and> bit b 6 \<and> bit b 5 \<and> \<not> bit b 4"
  "(b :: u8) AND 0xf8 = 0xf0 \<longleftrightarrow> bit b 7 \<and> bit b 6 \<and> bit b 5 \<and> bit b 4 \<and> \<not> bit b 3"
  unfolding and_eq_bits marker_bits8 bit_0_eq bot_apply
  subgoal by (auto 0 3 dest: spec [of _ 7])
  subgoal by (auto 0 3 dest: spec [of _ 5] spec [of _ 6] spec [of _ 7])
  subgoal by (auto 0 3 dest: spec [of _ 4] spec [of _ 5] spec [of _ 6] spec [of _ 7])
  subgoal by (auto 0 3 dest: spec [of _ 3] spec [of _ 4] spec [of _ 5] spec [of _ 6] spec [of _ 7])
  done

lemma utf8_length_bits:
  "dispatch_transform_utf8_length b = (if \<not> bit b 7 then 1 else if \<not> bit b 6 then 0
     else if \<not> bit b 5 then 2 else if \<not> bit b 4 then 3 else if \<not> bit b 3 then 4 else 0)"
  unfolding dispatch_transform_utf8_length_def marker_eq by simp

lemma not_bit_less: "unat (w :: u32) < 2 ^ k \<Longrightarrow> k \<le> n \<Longrightarrow> \<not> bit w n"
  using bit_less [of w k n] by auto

lemma ucast_and_bits: "bit (ucast (a AND 0xff :: u32) :: u8) n \<longleftrightarrow> n < 8 \<and> bit a n"
  unfolding utf8_masks by (auto simp: bit_unsigned_iff bit_and_iff bit_mask_iff)

lemma utf8_length_lead:
  "unat w < 2 ^ 7 \<Longrightarrow> dispatch_transform_utf8_length (ucast (w AND 0xff :: u32)) = 1"
  "unat w < 2 ^ 5 \<Longrightarrow> dispatch_transform_utf8_length (ucast (0xc0 OR w :: u32)) = 2"
  "unat w < 2 ^ 4 \<Longrightarrow> dispatch_transform_utf8_length (ucast (0xe0 OR w :: u32)) = 3"
  "unat w < 2 ^ 3 \<Longrightarrow> dispatch_transform_utf8_length (ucast (0xf0 OR w :: u32)) = 4"
  unfolding utf8_length_bits ucast_or_bits ucast_and_bits marker_bits
  using not_bit_less [of w 7 7] not_bit_less [of w 5 5] not_bit_less [of w 4 4] not_bit_less [of w 3 3]
  by simp_all

lemma join_bits:
  "push_bit 6 (push_bit 6 (drop_bit 12 w) OR (drop_bit 6 w AND 0x3f)) OR (w AND 0x3f) = (w :: u32)"
  "push_bit 6 (push_bit 6 (push_bit 6 (drop_bit 18 w) OR (drop_bit 12 w AND 0x3f)) OR (drop_bit 6 w AND 0x3f)) OR (w AND 0x3f) = (w :: u32)"
proof -
  have j: "push_bit 6 (drop_bit (6 + k) w) OR (drop_bit k w AND 0x3f) = (drop_bit k w :: u32)" for k
    using join2 [of "drop_bit k w"] by (simp add: add.commute)
  show "push_bit 6 (push_bit 6 (drop_bit 12 w) OR (drop_bit 6 w AND 0x3f)) OR (w AND 0x3f) = w"
    using j [of 6] j [of 0] by simp
  then show "push_bit 6 (push_bit 6 (push_bit 6 (drop_bit 18 w) OR (drop_bit 12 w AND 0x3f)) OR (drop_bit 6 w AND 0x3f)) OR (w AND 0x3f) = w"
    using j [of 12] by simp
qed

lemma read_rest_simps:
  "read_utf8_rest 1 w (b # r) = Some (w OR (ucast b AND 0x3f))"
  "read_utf8_rest 2 w (b # c # r) = Some (push_bit 6 (w OR (ucast b AND 0x3f)) OR (ucast c AND 0x3f))"
  "read_utf8_rest 3 w (b # c # d # r)
    = Some (push_bit 6 (push_bit 6 (w OR (ucast b AND 0x3f)) OR (ucast c AND 0x3f)) OR (ucast d AND 0x3f))"
  by (simp_all add: numeral_2_eq_2 numeral_3_eq_3)

text \<open>The sequence written for a code point is read back, whatever follows.\<close>

lemma unat_drop_bit_less: "unat w < 2 ^ (n + k) \<Longrightarrow> unat (drop_bit k w :: u32) < 2 ^ n"
  unfolding unat_drop_bit power_add by (simp add: drop_bit_eq_div less_mult_imp_div_less)

lemma utf8_bytes_read:
  assumes "unat w < 2 ^ 21"
  shows "utf8_bytes w \<noteq> []" "unat (dispatch_transform_utf8_length (hd (utf8_bytes w))) = length (utf8_bytes w)"
    "dispatch_transform_read_utf8_sequence (utf8_bytes w @ rest) = Some w"
proof -
  have u: "w < 0x80 \<longleftrightarrow> unat w < 2 ^ 7" "w < 0x800 \<longleftrightarrow> unat w < 2 ^ 11" "w < 0x10000 \<longleftrightarrow> unat w < 2 ^ 16" "w < 0x200000 \<longleftrightarrow> unat w < 2 ^ 21"
    by (simp_all add: word_less_nat_alt)
  have "utf8_bytes w \<noteq> [] \<and> unat (dispatch_transform_utf8_length (hd (utf8_bytes w))) = length (utf8_bytes w) \<and>
    dispatch_transform_read_utf8_sequence (utf8_bytes w @ rest) = Some w"
  proof -
    consider "w < 0x80" | "\<not> w < 0x80" "w < 0x800" | "\<not> w < 0x800" "w < 0x10000" | "\<not> w < 0x10000" "w < 0x200000"
      using assms u(4) by blast
    then show ?thesis
    proof cases
      case 1
      then have l: "unat w < 2 ^ 7" using u(1) by simp
      have e: "utf8_bytes w = [ucast (w AND 0xff)]" using 1 by (simp add: utf8_bytes_def)
      have "(ucast (ucast (w AND 0xff) :: u8) AND 0x7f :: u32) = w"
        by (rule bit_word_eqI) (use bit_less_all [OF l] in \<open>fastforce simp: utf8_masks bit_and_iff bit_mask_iff bit_unsigned_iff\<close>)
      then show ?thesis unfolding e by (simp add: dispatch_transform_read_utf8_sequence_def utf8_length_lead(1) [OF l])
    next
      case 2
      then have l: "unat (drop_bit 6 w) < 2 ^ 5" using u(2) unat_drop_bit_less [of w 5 6] by simp
      have e: "utf8_bytes w = [ucast (0xc0 OR drop_bit 6 w), ucast (0x80 OR (w AND 0x3f))]" using 2 by (simp add: utf8_bytes_def)
      show ?thesis unfolding e
        by (simp add: dispatch_transform_read_utf8_sequence_def utf8_length_lead(2) [OF l] lead_bits(1) [OF l] read_rest_simps [simplified] tail_bits join2)
    next
      case 3
      then have l: "unat (drop_bit 12 w) < 2 ^ 4" using u(3) unat_drop_bit_less [of w 4 12] by simp
      have n: "\<not> w < 0x80" using 3(1) by (simp add: word_less_nat_alt)
      have e: "utf8_bytes w = [ucast (0xe0 OR drop_bit 12 w), ucast (0x80 OR (drop_bit 6 w AND 0x3f)), ucast (0x80 OR (w AND 0x3f))]"
        using 3 n by (simp add: utf8_bytes_def)
      show ?thesis unfolding e using join_bits(1) [of w]
        by (simp add: dispatch_transform_read_utf8_sequence_def utf8_length_lead(3) [OF l] lead_bits(2) [OF l] read_rest_simps tail_bits)
    next
      case 4
      then have l: "unat (drop_bit 18 w) < 2 ^ 3" using u(4) unat_drop_bit_less [of w 3 18] by simp
      have n: "\<not> w < 0x80" "\<not> w < 0x800" using 4(1) by (simp_all add: word_less_nat_alt)
      have e: "utf8_bytes w = [ucast (0xf0 OR drop_bit 18 w), ucast (0x80 OR (drop_bit 12 w AND 0x3f)),
         ucast (0x80 OR (drop_bit 6 w AND 0x3f)), ucast (0x80 OR (w AND 0x3f))]"
        using 4 n by (simp add: utf8_bytes_def)
      show ?thesis unfolding e using join_bits(2) [of w]
        by (simp add: dispatch_transform_read_utf8_sequence_def utf8_length_lead(4) [OF l] lead_bits(3) [OF l] read_rest_simps tail_bits)
    qed
  qed
  then show "utf8_bytes w \<noteq> []" "unat (dispatch_transform_utf8_length (hd (utf8_bytes w))) = length (utf8_bytes w)"
    "dispatch_transform_read_utf8_sequence (utf8_bytes w @ rest) = Some w" by blast+
qed

section \<open>The buffer\<close>

definition tb_ok :: "transform_buffer \<Rightarrow> bool" where
  "tb_ok b = (case tb_start b of None \<Rightarrow> tb_size b = 0
     | Some w \<Rightarrow> length w \<le> tb_size b \<and> tb_size b \<le> BUFFER_MALLOC_MAX)"

lemma tb_written_simps:
  "tb_written \<lparr>tb_data = d, tb_start = None, tb_size = n\<rparr> = []"
  "tb_written \<lparr>tb_data = d, tb_start = Some w, tb_size = n\<rparr> = w"
  by (simp_all add: tb_written_def)

lemma malloc_max_less: "n \<le> BUFFER_MALLOC_MAX \<Longrightarrow> n < SIZE_MOD"
  by (simp add: BUFFER_MALLOC_MAX_def SIZE_MOD_def)

lemma tb_remaining:
  assumes "tb_ok b"
  shows "(tb_size b + SIZE_MOD - length (tb_written b)) mod SIZE_MOD = tb_size b - length (tb_written b)"
proof -
  have le: "length (tb_written b) \<le> tb_size b" and lt: "tb_size b < SIZE_MOD"
    using assms malloc_max_less by (auto simp: tb_ok_def tb_written_def SIZE_MOD_def split: option.splits)
  have "tb_size b + SIZE_MOD - length (tb_written b) = tb_size b - length (tb_written b) + SIZE_MOD"
    using le by (rule add_diff_shift)
  moreover have "tb_size b - length (tb_written b) < SIZE_MOD" using lt by (rule le_less_trans [OF diff_le_self])
  ultimately show ?thesis by (simp only: mod_add_self2 mod_less)
qed

lemma buffer_room:
  assumes ok: "tb_ok b" and req: "0 < required" "required + sz < SIZE_MOD"
    and r: "dispatch_transform_buffer_new mem b required sz h = Inr (True, b', h')"
  shows "\<exists>w. tb_start b' = Some w \<and> length w + required \<le> tb_size b' \<and> tb_size b' \<le> BUFFER_MALLOC_MAX"
proof (cases "tb_size b - length (tb_written b) < required")
  case True
  then show ?thesis using r req
    by (auto simp: dispatch_transform_buffer_new_def tb_remaining [OF ok] Let_def not_less split: sum.splits if_splits)
next
  case False
  then have "b' = b" using r req by (simp add: dispatch_transform_buffer_new_def tb_remaining [OF ok] Let_def)
  then show ?thesis using False ok req by (auto simp: tb_ok_def tb_written_def split: option.splits)
qed

text \<open>
  The state of a transform that has produced \<open>out\<close>: part of it in the object collected so far,
  the rest in the buffer.
\<close>

definition utf_ok :: "data_heap \<Rightarrow> (nat \<Rightarrow> nat) \<Rightarrow> u8 list \<Rightarrow> utf_state \<Rightarrow> bool" where
  "utf_ok h0 ext out s = (\<exists>h. utf_heap s = Inr h \<and> data_inv h (ref_add ext (tb_data (utf_buffer s))) \<and> data_ext h0 h
     \<and> data_bytes h (tb_data (utf_buffer s)) @ tb_written (utf_buffer s) = out \<and> tb_ok (utf_buffer s))"

lemma collect_ok:
  assumes inv0: "data_inv h0 ext" and inv: "data_inv h (ref_add ext (tb_data b))" and ext: "data_ext h0 h"
    and len: "length (data_bytes h (tb_data b) @ tb_written b) < SIZE_MOD" "records_fit (length (data_bytes h (tb_data b) @ tb_written b))"
  shows "\<exists>data h'. transform_buffer_collect b h = Inr (data, h') \<and> data_inv h' (ref_add ext data) \<and> data_ext h0 h'
    \<and> data_bytes h' data = data_bytes h (tb_data b) @ tb_written b"
proof -
  consider "tb_start b = None" | "tb_start b = Some []" | w where "tb_start b = Some w" "w \<noteq> []" by (cases "tb_start b") auto
  then show ?thesis
  proof cases
    case 1
    then show ?thesis using inv ext by (simp add: transform_buffer_collect_def tb_written_def)
  next
    case 2
    let ?h = "h\<lparr>dh_events := FreeBuffer [] # dh_events h\<rparr>"
    have "data_inv ?h (ref_add ext (tb_data b))" by (rule data_inv_cong [OF inv]) simp_all
    moreover have "data_ext h0 ?h" using ext by (simp add: data_ext_def)
    moreover have "data_bytes ?h (tb_data b) = data_bytes h (tb_data b)" by (rule data_bytes_cong) simp
    ultimately show ?thesis using 2 by (simp add: transform_buffer_collect_def tb_written_def)
  next
    case 3
    have w: "tb_written b = w" using 3(1) by (simp add: tb_written_def)
    have "length (data_bytes h (tb_data b)) + length w < SIZE_MOD" "records_fit (length (data_bytes h (tb_data b)) + length w)"
      using len w by simp_all
    from append_leaf_ok [OF inv0 ext inv order_refl this] obtain val h1 joined h2 where
      "dispatch_data_create (Some w) (length w) None DESTRUCTOR_FREE True h = Inr (val, h1)"
      "dispatch_data_create_concat (tb_data b) val h1 = Inr (joined, h2)"
      "data_inv (dispatch_data_release (tb_data b) (dispatch_data_release val h2)) (ref_add ext joined)"
      "data_ext h0 (dispatch_data_release (tb_data b) (dispatch_data_release val h2))"
      "data_bytes (dispatch_data_release (tb_data b) (dispatch_data_release val h2)) joined
        = data_bytes h (tb_data b) @ take (length w) w" unfolding Let_def by blast
    then show ?thesis using 3 w by (simp add: transform_buffer_collect_def)
  qed
qed

lemma emit_ok:
  assumes inv0: "data_inv h0 ext" and s: "utf_ok h0 ext out s" and mem: "\<forall>n. mem n"
    and req: "0 < required" "length bytes \<le> required" "required + sz \<le> BUFFER_MALLOC_MAX"
    and out: "length out < SIZE_MOD" "records_fit (length out)"
  shows "\<exists>s'. utf_emit mem required sz bytes s = (True, s') \<and> utf_ok h0 ext (out @ bytes) s' \<and> utf_skip s' = utf_skip s"
proof -
  let ?b = "utf_buffer s"
  from s obtain h where h: "utf_heap s = Inr h" "data_inv h (ref_add ext (tb_data ?b))" "data_ext h0 h"
    "data_bytes h (tb_data ?b) @ tb_written ?b = out" "tb_ok ?b" by (auto simp: utf_ok_def)
  have lt: "required + sz < SIZE_MOD" using malloc_max_less [OF req(3)] .
  have "\<exists>b' h'. dispatch_transform_buffer_new mem ?b required sz h = Inr (True, b', h')
    \<and> data_inv h' (ref_add ext (tb_data b')) \<and> data_ext h0 h' \<and> data_bytes h' (tb_data b') @ tb_written b' = out"
  proof (cases "tb_size ?b - length (tb_written ?b) < required")
    case True
    from collect_ok [OF inv0 h(2,3)] out obtain data h' where c: "transform_buffer_collect ?b h = Inr (data, h')"
      "data_inv h' (ref_add ext data)" "data_ext h0 h'" "data_bytes h' data = out" unfolding h(4) by blast
    then show ?thesis using True req lt mem
      by (simp add: dispatch_transform_buffer_new_def tb_remaining [OF h(5)] Let_def tb_written_simps)
  next
    case False
    then show ?thesis using h req by (simp add: dispatch_transform_buffer_new_def tb_remaining [OF h(5)] Let_def)
  qed
  then obtain b' h' where n: "dispatch_transform_buffer_new mem ?b required sz h = Inr (True, b', h')"
    "data_inv h' (ref_add ext (tb_data b'))" "data_ext h0 h'" "data_bytes h' (tb_data b') @ tb_written b' = out" by blast
  from buffer_room [OF h(5) req(1) lt n(1)] obtain w where
    w: "tb_start b' = Some w" "length w + required \<le> tb_size b'" "tb_size b' \<le> BUFFER_MALLOC_MAX" by blast
  then have wr: "tb_written b' = w" by (simp add: tb_written_def)
  show ?thesis using h(1) n w req(2) wr
    by (simp add: utf_emit_def utf_ok_def tb_ok_def tb_written_def [of "b'\<lparr>tb_start := Some (w @ bytes)\<rparr>"] flip: append_assoc)
qed

lemma flush_ok:
  assumes inv0: "data_inv h0 ext" and s: "utf_ok h0 ext out s" and out: "length out < SIZE_MOD" "records_fit (length out)"
  shows "utf_ok h0 ext out (utf_flush mem s)" "tb_start (utf_buffer (utf_flush mem s)) = None"
    "utf_skip (utf_flush mem s) = utf_skip s"
proof -
  let ?b = "utf_buffer s"
  from s obtain h where h: "utf_heap s = Inr h" "data_inv h (ref_add ext (tb_data ?b))" "data_ext h0 h"
    "data_bytes h (tb_data ?b) @ tb_written ?b = out" "tb_ok ?b" by (auto simp: utf_ok_def)
  from collect_ok [OF inv0 h(2,3)] out obtain data h' where c: "transform_buffer_collect ?b h = Inr (data, h')"
    "data_inv h' (ref_add ext data)" "data_ext h0 h'" "data_bytes h' data = out" unfolding h(4) by blast
  have f: "utf_flush mem s = s\<lparr>utf_buffer := \<lparr>tb_data = data, tb_start = None, tb_size = 0\<rparr>, utf_heap := Inr h'\<rparr>"
    using h(1) c(1) by (simp add: utf_flush_def dispatch_transform_buffer_new_def Let_def)
  show "utf_ok h0 ext out (utf_flush mem s)" unfolding f using c by (simp add: utf_ok_def tb_ok_def tb_written_def)
  show "tb_start (utf_buffer (utf_flush mem s)) = None" "utf_skip (utf_flush mem s) = utf_skip s" unfolding f by simp_all
qed

section \<open>Text in code points\<close>

definition text8 :: "u32 list \<Rightarrow> u8 list" where "text8 cps = concat (map utf8_bytes cps)"
definition text16 :: "byte_order \<Rightarrow> u32 list \<Rightarrow> u8 list" where
  "text16 order cps = concat (map (\<lambda>w. units_bytes order (utf16_units w)) cps)"

lemma text_simps [simp]:
  "text8 [] = []" "text8 (w # cps) = utf8_bytes w @ text8 cps" "text8 (xs @ ys) = text8 xs @ text8 ys"
  "text16 order [] = []" "text16 order (w # cps) = units_bytes order (utf16_units w) @ text16 order cps"
  "text16 order (xs @ ys) = text16 order xs @ text16 order ys"
  by (simp_all add: text8_def text16_def)

lemma length_units_bytes: "length (units_bytes order us) = 2 * length us"
  by (induction us) (simp_all add: units_bytes_def unit_bytes_def)

lemma length_utf16: "length (units_bytes order (utf16_units w)) = (if 0x10000 \<le> w then 4 else 2)"
  unfolding length_units_bytes by (simp add: utf16_units_def Let_def)

lemma utf16_le_utf8: "scalar w \<Longrightarrow> length (units_bytes order (utf16_units w)) \<le> 2 * length (utf8_bytes w)"
  using utf8_bytes_read(1) [OF scalar_bounds, of w] unfolding length_utf16
  by (auto simp: utf8_bytes_def scalar_def word_less_nat_alt word_le_nat_alt split: if_splits)

lemma length_text16: "list_all scalar cps \<Longrightarrow> length (text16 order cps) \<le> 2 * length (text8 cps)"
  by (induction cps) (use utf16_le_utf8 [of _ order] in \<open>fastforce+\<close>)

lemma records_fit_less: "records_fit n \<Longrightarrow> n < SIZE_MOD"
  by (simp add: records_fit_def sizeof_range_record_def)

lemma put16_ok:
  assumes inv0: "data_inv h0 ext" and s: "utf_ok h0 ext out s" and mem: "\<forall>n. mem n" and w: "scalar w"
    and left: "4 + left * 2 \<le> BUFFER_MALLOC_MAX" and out: "records_fit (length out)"
  shows "\<exists>s'. to_utf16_put order mem w left s = (True, s') \<and> utf_ok h0 ext (out @ units_bytes order (utf16_units w)) s'
    \<and> utf_skip s' = utf_skip s"
proof -
  have n: "\<not> SIZE_MOD \<le> left * 2" using malloc_max_less [OF left] by simp
  have r: "\<not> (0xd800 \<le> w \<and> w < 0xdfff)" using w by (auto simp: scalar_def)
  note e = emit_ok [OF inv0 s mem _ _ _ records_fit_less [OF out] out]
  show ?thesis
  proof (cases "0x10000 \<le> w")
    case True
    then show ?thesis using e [of 4 "units_bytes order (utf16_units w)" "left * 2"] n r left
      by (simp add: to_utf16_put_def length_utf16)
  next
    case False
    then show ?thesis using e [of 2 "units_bytes order (utf16_units w)" "left * 2"] n r left
      by (simp add: to_utf16_put_def length_utf16)
  qed
qed

lemma to_utf16_loop_ok:
  assumes inv0: "data_inv h0 ext" and mem: "\<forall>n. mem n"
    and "utf_ok h0 ext out s" "list_all scalar cps" "sz = i + length (text8 cps)"
    and "4 + sz * 2 \<le> BUFFER_MALLOC_MAX" "records_fit (length out + 2 * length (text8 cps))"
  shows "\<exists>s'. to_utf16_loop d h order mem offset sz i (text8 cps) s = (True, s')
    \<and> utf_ok h0 ext (out @ text16 order cps) s' \<and> utf_skip s' = utf_skip s"
  using assms(3-)
proof (induction cps arbitrary: out s i)
  case Nil
  then show ?case by (simp add: to_utf16_loop.simps)
next
  case (Cons w cps)
  have w: "scalar w" and cps: "list_all scalar cps" using Cons.prems(2) by simp_all
  note r = utf8_bytes_read(1,2) [OF scalar_bounds [OF w]] utf8_bytes_read(3) [OF scalar_bounds [OF w], of "text8 cps"]
  let ?n = "length (utf8_bytes w)"
  obtain b rest where b: "utf8_bytes w @ text8 cps = b # rest" "hd (utf8_bytes w) = b" using r(1) by (cases "utf8_bytes w") auto
  have n: "unat (dispatch_transform_utf8_length b) = ?n" using r(2) b(2) by simp
  have sz: "sz = i + ?n + length (text8 cps)" using Cons.prems(3) by simp
  have n0: "?n \<noteq> 0" using r(1) by simp
  have left: "4 + (sz - (i + ?n)) * 2 \<le> BUFFER_MALLOC_MAX" using Cons.prems(4) sz by simp
  have out: "records_fit (length out)" using records_fit_mono [OF Cons.prems(5)] by simp
  from put16_ok [OF inv0 Cons.prems(1) mem w left out, of order] obtain s1 where
    s1: "to_utf16_put order mem w (sz - (i + ?n)) s = (True, s1)"
      "utf_ok h0 ext (out @ units_bytes order (utf16_units w)) s1" "utf_skip s1 = utf_skip s" by blast
  have fit: "records_fit (length (out @ units_bytes order (utf16_units w)) + 2 * length (text8 cps))"
    by (rule records_fit_mono [OF Cons.prems(5)]) (use utf16_le_utf8 [OF w, of order] in simp)
  from Cons.IH [OF s1(2) cps sz Cons.prems(4) fit] obtain s' where
    s': "to_utf16_loop d h order mem offset sz (i + ?n) (text8 cps) s1 = (True, s')"
      "utf_ok h0 ext ((out @ units_bytes order (utf16_units w)) @ text16 order cps) s'" "utf_skip s' = utf_skip s1" by blast
  have "to_utf16_loop d h order mem offset sz i (utf8_bytes w @ text8 cps) s
    = to_utf16_loop d h order mem offset sz (i + ?n) (text8 cps) s1"
  proof -
    have "\<not> sz < ?n + i" using sz by simp
    moreover have "drop ?n (b # rest) = text8 cps" using b(1) by (metis append_eq_conv_conj)
    moreover have "dispatch_transform_read_utf8_sequence (b # rest) = Some w" using r(3) b(1) by simp
    ultimately show ?thesis
      unfolding b(1) by (subst to_utf16_loop.simps) (simp add: n n0 [simplified] s1(1) Let_def)
  qed
  then show ?case using s' s1(3) by simp
qed

lemma to_utf16_block_ok:
  assumes inv0: "data_inv h0 ext" and mem: "\<forall>n. mem n" and s: "utf_ok h0 ext out s" "utf_skip s = 0"
    and cps: "list_all scalar cps" "bytes = text8 cps" "bytes \<noteq> []"
    and max: "4 + length bytes * 2 \<le> BUFFER_MALLOC_MAX" and fit: "records_fit (length out + 2 * length bytes + 2)"
  shows "\<exists>s'. to_utf16_block d h order mem s region offset bytes = (True, s') \<and> utf_skip s' = 0
    \<and> tb_start (utf_buffer s') = None \<and> utf_ok h0 ext (out @ (if offset = 0 then units_bytes order [0xfeff] else []) @ text16 order cps) s'"
proof -
  let ?bom = "if offset = 0 then units_bytes order [0xfeff] else []"
  have lb: "length ?bom \<le> 2" by (simp add: length_units_bytes)
  have mul: "os_mul_and_add_overflow (length bytes) 2 2 = Some (length bytes * 2 + 2)"
  proof -
    have "length bytes * 2 + 2 < SIZE_MOD" using max by (intro malloc_max_less) simp
    then show ?thesis by (simp add: os_mul_and_add_overflow_def)
  qed
  have o: "records_fit (length out)" using records_fit_mono [OF fit] by simp
  have "\<exists>s1. (if offset = 0 then (case os_mul_and_add_overflow (length bytes) 2 2 of None \<Rightarrow> (False, s)
        | Some dest_size \<Rightarrow> utf_emit mem dest_size 0 (units_bytes order [0xfeff]) s) else (True, s)) = (True, s1)
      \<and> utf_ok h0 ext (out @ ?bom) s1 \<and> utf_skip s1 = 0"
  proof (cases "offset = 0")
    case True
    then show ?thesis using emit_ok [OF inv0 s(1) mem, of "length bytes * 2 + 2" "units_bytes order [0xfeff]" 0] max
        records_fit_less [OF o] o s(2) by (simp add: mul length_units_bytes)
  next
    case False
    then show ?thesis using s by simp
  qed
  then obtain s1 where s1: "(if offset = 0 then (case os_mul_and_add_overflow (length bytes) 2 2 of None \<Rightarrow> (False, s)
        | Some dest_size \<Rightarrow> utf_emit mem dest_size 0 (units_bytes order [0xfeff]) s) else (True, s)) = (True, s1)"
      "utf_ok h0 ext (out @ ?bom) s1" "utf_skip s1 = 0" by blast
  have e: "s1\<lparr>utf_skip := 0\<rparr> = s1" using s1(3) by simp
  have fit1: "records_fit (length (out @ ?bom) + 2 * length (text8 cps))"
    by (rule records_fit_mono [OF fit]) (use lb cps(2) in simp)
  have max1: "4 + length bytes * 2 \<le> BUFFER_MALLOC_MAX" by (rule max)
  have sz: "length bytes = 0 + length (text8 cps)" using cps(2) by simp
  from to_utf16_loop_ok [OF inv0 mem s1(2) cps(1) sz max1 fit1, where d = d and h = h and order = order and offset = offset] obtain s2 where
    s2: "to_utf16_loop d h order mem offset (length bytes) 0 (text8 cps) s1 = (True, s2)"
      "utf_ok h0 ext ((out @ ?bom) @ text16 order cps) s2" "utf_skip s2 = utf_skip s1" by blast
  have "length (text16 order cps) \<le> 2 * length (text8 cps)" using cps(1) by (rule length_text16)
  then have fit2: "records_fit (length ((out @ ?bom) @ text16 order cps))"
    by (intro records_fit_mono [OF fit]) (use lb cps(2) in simp)
  have "to_utf16_block d h order mem s region offset bytes = (True, utf_flush mem s2)"
    unfolding to_utf16_block_def Let_def s1(1) prod.case bool.case s1(3) using cps(3) s2(1) by (simp add: e cps(2))
  then show ?thesis using flush_ok [OF inv0 s2(2) records_fit_less [OF fit2] fit2, of mem] s2(3) s1(3) by simp
qed

lemma max_fits: "n \<le> 4 * BUFFER_MALLOC_MAX \<Longrightarrow> records_fit n"
  by (simp add: records_fit_def sizeof_dispatch_data_s_def sizeof_range_record_def BUFFER_MALLOC_MAX_def SIZE_MOD_def)

text \<open>Every region is a text of its own: no sequence is split between regions.\<close>

definition regions_whole :: "(u32 list \<Rightarrow> u8 list) \<Rightarrow> data_heap \<Rightarrow> nat \<Rightarrow> bool" where
  "regions_whole text h d = (\<forall>(region, off, bytes) \<in> set (data_regions h d). \<exists>cps. list_all scalar cps \<and> bytes = text cps)"

lemma utf_init_ok: "data_inv h ext \<Longrightarrow> utf_ok h ext [] (utf_init h)" "utf_skip (utf_init h) = 0"
  using empty_bytes [of h] inv_wf [of h ext]
  by (auto simp: utf_ok_def utf_init_def tb_ok_def tb_written_simps ref_add_def)

lemma utf_finish_ok:
  assumes "utf_ok h0 ext out s" "tb_start (utf_buffer s) = None"
  shows "\<exists>d' h'. utf_finish mem (Inr (True, s)) = Inr (Some d', h') \<and> data_inv h' (ref_add ext d') \<and> data_ext h0 h'
    \<and> data_bytes h' d' = out"
proof -
  from assms obtain h where "utf_heap s = Inr h" "data_inv h (ref_add ext (tb_data (utf_buffer s)))" "data_ext h0 h"
    "data_bytes h (tb_data (utf_buffer s)) @ tb_written (utf_buffer s) = out" by (auto simp: utf_ok_def)
  moreover have "tb_written (utf_buffer s) = []" using assms(2) by (simp add: tb_written_def)
  ultimately show ?thesis by (simp add: utf_finish_def)
qed

lemma to_utf16_ok:
  assumes inv: "data_inv h ext" and o: "dh_obj h d = Some dd" and mem: "\<forall>n. mem n"
    and whole: "regions_whole text8 h d" and max: "4 + length (data_bytes h d) * 2 \<le> BUFFER_MALLOC_MAX" and ne: "data_bytes h d \<noteq> []"
  shows "\<exists>cps d' h'. list_all scalar cps \<and> data_bytes h d = text8 cps
    \<and> dispatch_transform_to_utf16 d order mem h = Inr (Some d', h') \<and> data_inv h' (ref_add ext d') \<and> data_ext h h'
    \<and> data_bytes h' d' = units_bytes order [0xfeff] @ text16 order cps"
proof -
  let ?f = "to_utf16_block d h order mem" and ?T = "data_bytes h d" and ?bom = "units_bytes order [0xfeff]"
  let ?P = "\<lambda>xs s. \<exists>cps. list_all scalar cps \<and> xs = text8 cps \<and> utf_skip s = 0 \<and> (xs \<noteq> [] \<longrightarrow> tb_start (utf_buffer s) = None)
    \<and> utf_ok h ext ((if xs = [] then [] else ?bom) @ text16 order cps) s"
  have v: "data_valid (d, h)" using inv o by (rule data_validI)
  obtain s' where s': "dispatch_data_apply d ?f (utf_init h) h = Inr (True, s')" "?P ?T s'"
  proof (rule dispatch_source.traverse_total [OF v, where f = ?f and s = "utf_init h" and P = ?P, unfolded prod.case])
    show "?P [] (utf_init h)" using utf_init_ok [of h] inv by (intro exI [of _ "[]"]) simp
  next
    fix xs s region bytes ys
    assume b: "?T = xs @ bytes @ ys" "bytes \<noteq> []" and reg: "(region, length xs, bytes) \<in> set (data_regions h d)" and "?P xs s"
    then obtain cps where p: "list_all scalar cps" "xs = text8 cps" "utf_skip s = 0"
      "utf_ok h ext ((if xs = [] then [] else ?bom) @ text16 order cps) s" by blast
    from whole reg obtain cps2 where c2: "list_all scalar cps2" "bytes = text8 cps2" by (auto simp: regions_whole_def)
    have len: "length xs + length bytes \<le> length ?T" using b(1) by simp
    let ?out = "(if xs = [] then [] else ?bom) @ text16 order cps"
    have lo: "length ?out \<le> 2 + 2 * length xs"
      using length_text16 [OF p(1), of order] p(2) by (auto simp: length_units_bytes)
    have fit: "records_fit (length ?out + 2 * length bytes + 2)" by (rule max_fits) (use lo len max in linarith)
    have m: "4 + length bytes * 2 \<le> BUFFER_MALLOC_MAX" using len max by linarith
    from to_utf16_block_ok [OF inv mem p(4,3) c2 b(2) m fit, of d h order region "length xs"] obtain s' where
      s': "?f s region (length xs) bytes = (True, s')" "utf_skip s' = 0" "tb_start (utf_buffer s') = None"
        "utf_ok h ext (?out @ (if length xs = 0 then ?bom else []) @ text16 order cps2) s'" by blast
    have out: "?out @ (if length xs = 0 then ?bom else []) @ text16 order cps2 = ?bom @ text16 order (cps @ cps2)"
    proof (cases "xs = []")
      case True
      then have "cps = []" using p(1,2) utf8_bytes_read(1) [OF scalar_bounds] by (cases cps) auto
      then show ?thesis using True by simp
    qed simp
    show "\<exists>s'. ?f s region (length xs) bytes = (True, s') \<and> ?P (xs @ bytes) s'"
      using s' p(1,2) c2 b(2) unfolding out by (intro exI [of _ s'] conjI exI [of _ "cps @ cps2"]) simp_all
  next
    fix s' assume "dispatch_data_apply d ?f (utf_init h) h = Inr (True, s')" "?P ?T s'"
    then show thesis by (rule that)
  qed
  from s'(2) ne obtain cps where c: "list_all scalar cps" "?T = text8 cps" "tb_start (utf_buffer s') = None"
    "utf_ok h ext (?bom @ text16 order cps) s'" by auto
  from utf_finish_ok [OF c(4,3), of mem] c(1,2) show ?thesis
    unfolding dispatch_transform_to_utf16_def s'(1) by blast
qed

section \<open>Units read back\<close>

lemma swap_swap: "dispatch_transform_swap_to_host (dispatch_transform_swap_from_host u order) order = u"
proof -
  have "OSSwapInt16 (OSSwapInt16 u) = u"
    unfolding OSSwapInt16_def by (rule bit_word_eqI) (auto simp: bit_simps)
  then show ?thesis by (simp add: dispatch_transform_swap_to_host_def dispatch_transform_swap_from_host_def)
qed

lemma unit_at_bytes:
  "unit_at (concat (map unit_bytes us)) i = (if i < length us then Some (us ! i) else None)"
proof (induction us arbitrary: i)
  case (Cons u us)
  have u: "ucast (ucast u :: u8) OR push_bit 8 (ucast (ucast (drop_bit 8 u) :: u8)) = u"
    by (rule bit_word_eqI) (auto simp: bit_simps)
  show ?case
  proof (cases i)
    case 0
    then show ?thesis using u by (simp add: unit_at_def unit_bytes_def)
  next
    case (Suc j)
    have l: "length (unit_bytes u) = 2" by (simp add: unit_bytes_def)
    have "2 * Suc j + 2 = 2 + (2 * j + 2)" "2 * Suc j = 2 + 2 * j" "2 * Suc j + 1 = 2 + (2 * j + 1)" by simp_all
    then have "unit_at (unit_bytes u @ xs) (Suc j) = unit_at xs j" for xs
      unfolding unit_at_def length_append l by (simp add: nth_append l)
    then show ?thesis using Cons.IH [of j] Suc by simp
  qed
qed (simp add: unit_at_def)

lemma unit_at_units:
  "unit_at (units_bytes order us) i = (if i < length us then Some (dispatch_transform_swap_from_host (us ! i) order) else None)"
  using unit_at_bytes [of "map (\<lambda>u. dispatch_transform_swap_from_host u order) us" i]
  by (simp add: units_bytes_def comp_def)

text \<open>A surrogate pair.\<close>

lemma ucast16: "unat w < 2 ^ 16 \<Longrightarrow> unat (ucast (w :: u32) :: u16) = unat w"
  by (simp add: unsigned_ucast_eq take_bit_nat_eq_self)

lemma ucast32: "unat (ucast (u :: u16) :: u32) = unat u"
  using unsigned_less [of u] by (simp add: unsigned_ucast_eq take_bit_nat_eq_self)

lemma u32_eqI: "unat (a :: u32) = unat b \<Longrightarrow> a = b"
  by (rule unsigned_word_eqI)

lemma join10: "push_bit 10 (drop_bit 10 w) OR (w AND 0x3ff) = (w :: u32)"
proof -
  have m: "(0x3ff :: u32) = mask 10" by (simp add: mask_eq_exp_minus_1)
  show ?thesis unfolding m by (rule bit_word_eqI) (auto simp: bit_simps)
qed

lemma and_3ff: "unat (w AND 0x3ff :: u32) = unat w mod 1024"
  using and_mask_mod [of w 10] by (simp add: mask_eq_exp_minus_1)

lemma surrogate_parts:
  fixes a :: u32
  assumes "unat a < 1024" "unat base = k * 1024" "k < 64"
  shows "unat (ucast (a + base) :: u16) = unat a + k * 1024" "unat (ucast (ucast (a + base) :: u16) :: u32) = unat a + k * 1024"
proof -
  have "unat (a + base) = unat a + k * 1024" using assms by (simp add: unat_word_ariths)
  moreover have "unat a + k * 1024 < 2 ^ 16" using assms by simp
  ultimately show "unat (ucast (a + base) :: u16) = unat a + k * 1024" using ucast16 [of "a + base"] by simp
  then show "unat (ucast (ucast (a + base) :: u16) :: u32) = unat a + k * 1024" by (simp only: ucast32)
qed

lemma surrogate_pair:
  assumes "scalar w" "0x10000 \<le> w" and u: "utf16_units w = [hi, lo]"
  shows "0xd800 \<le> hi" "hi \<le> 0xdbff" "0xdc00 \<le> lo" "lo \<le> 0xdfff" "hi \<noteq> 0xfffe" "hi \<noteq> 0xfeff"
    "(push_bit 10 (ucast hi - 0xd800 :: u32) OR (ucast lo AND 0x3ff)) + 0x10000 = w"
proof -
  define v where "v = w - 0x10000"
  have v: "unat v < 2 ^ 20" using assms(1,2) by (auto simp: v_def scalar_def unat_sub word_less_nat_alt)
  have w: "w = v + 0x10000" by (simp add: v_def)
  have a: "unat (drop_bit 10 v) < 1024" using unat_drop_bit_less [of v 10 10] v by simp
  have a3: "drop_bit 10 v AND 0x3ff = drop_bit 10 v"
    by (rule u32_eqI) (use a in \<open>simp add: and_3ff\<close>)
  have b: "unat (v AND 0x3ff) < 1024" by (simp add: and_3ff)
  have e: "hi = ucast (drop_bit 10 v + 0xd800)" "lo = ucast ((v AND 0x3ff) + 0xdc00)"
    using u assms(2) a3 by (simp_all add: utf16_units_def v_def [symmetric] Let_def)
  have hi: "unat hi = unat (drop_bit 10 v) + 54 * 1024" "unat (ucast hi :: u32) = unat (drop_bit 10 v) + 54 * 1024"
    using surrogate_parts [OF a, where base = "0xd800" and k = "54"] by (simp_all add: e)
  have lo: "unat lo = unat (v AND 0x3ff) + 55 * 1024" "unat (ucast lo :: u32) = unat (v AND 0x3ff) + 55 * 1024"
    using surrogate_parts [OF b, where base = "0xdc00" and k = "55"] by (simp_all add: e)
  show "0xd800 \<le> hi" "hi \<le> 0xdbff" "0xdc00 \<le> lo" "lo \<le> 0xdfff"
    using a b by (simp_all add: word_le_nat_alt hi(1) lo(1))
  then show "hi \<noteq> 0xfffe" "hi \<noteq> 0xfeff" by auto
  have h: "ucast hi - 0xd800 = drop_bit 10 v"
  proof (rule u32_eqI)
    have "0xd800 \<le> (ucast hi :: u32)" by (simp only: word_le_nat_alt hi(2)) simp
    then have "unat (ucast hi - 0xd800 :: u32) = unat (ucast hi :: u32) - 55296" by (simp add: unat_sub)
    then show "unat (ucast hi - 0xd800 :: u32) = unat (drop_bit 10 v)" by (simp add: hi)
  qed
  have l: "ucast lo AND 0x3ff = v AND 0x3ff"
  proof (rule u32_eqI)
    have "unat (ucast lo AND 0x3ff :: u32) = (unat (v AND 0x3ff) + 55 * 1024) mod 1024" by (simp only: and_3ff lo(2))
    moreover have "(n + 55 * 1024) mod 1024 = n mod (1024 :: nat)" for n by (rule mod_mult_self1)
    ultimately show "unat (ucast lo AND 0x3ff :: u32) = unat (v AND 0x3ff)" by (simp only: mod_less [OF b])
  qed
  show "(push_bit 10 (ucast hi - 0xd800 :: u32) OR (ucast lo AND 0x3ff)) + 0x10000 = w"
    unfolding h l join10 w ..
qed

lemma bmp_unit:
  assumes "scalar w" "\<not> 0x10000 \<le> w"
  shows "\<exists>u. utf16_units w = [u] \<and> ucast u = w \<and> \<not> (0xd800 \<le> u \<and> u \<le> 0xdbff) \<and> \<not> (0xdc00 \<le> u \<and> u \<le> 0xdfff)
    \<and> (u = 0xfeff \<longleftrightarrow> w = 0xfeff) \<and> (u = 0xfffe \<longleftrightarrow> w = 0xfffe)"
proof -
  have w: "unat w < 2 ^ 16" using assms(2) by (simp add: word_le_nat_alt)
  have m: "w AND 0xffff = w"
    by (rule u32_eqI) (use w and_mask_mod [of w 16] in \<open>simp add: mask_eq_exp_minus_1\<close>)
  have u: "unat (ucast w :: u16) = unat w" using ucast16 [OF w] .
  have "utf16_units w = [ucast w]" using assms(2) m by (simp add: utf16_units_def)
  moreover have "ucast (ucast w :: u16) = w" by (rule u32_eqI) (simp add: ucast32 u)
  moreover have "(ucast w = (0xfeff :: u16)) = (w = 0xfeff)" "(ucast w = (0xfffe :: u16)) = (w = 0xfffe)"
    by (auto simp: word_unat_eq_iff u)
  ultimately show ?thesis using assms(1) by (auto simp: scalar_def word_le_nat_alt u)
qed

section \<open>From UTF-16\<close>

lemma utf8_length_le: "scalar w \<Longrightarrow> length (utf8_bytes w) \<le> 4 \<and> length (utf8_bytes w) \<le> 2 * length (units_bytes order (utf16_units w))"
  unfolding length_utf16 by (auto simp: utf8_bytes_def scalar_def)

lemma put8_ok:
  assumes inv0: "data_inv h0 ext" and s: "utf_ok h0 ext out s" and mem: "\<forall>n. mem n" and w: "scalar w"
    and left: "4 + left * 2 \<le> BUFFER_MALLOC_MAX" and out: "records_fit (length out)"
  shows "\<exists>s'. from_utf16_put mem w left s = (True, s') \<and> utf_ok h0 ext (out @ utf8_bytes w) s' \<and> utf_skip s' = utf_skip s"
proof -
  have n: "\<not> SIZE_MOD \<le> left * 2" using malloc_max_less [OF left] by simp
  have "utf8_bytes w \<noteq> []" using utf8_bytes_read(1) [OF scalar_bounds [OF w]] .
  moreover have "length (utf8_bytes w) + left * 2 \<le> BUFFER_MALLOC_MAX" using utf8_length_le [OF w] left by (meson add_le_mono1 order_trans)
  ultimately show ?thesis
    using emit_ok [OF inv0 s mem _ order_refl _ records_fit_less [OF out] out, of "utf8_bytes w" "left * 2"] n
    by (simp add: from_utf16_put_def)
qed

definition units16 :: "u32 list \<Rightarrow> u16 list" where "units16 cps = concat (map utf16_units cps)"

lemma text16_units: "text16 order cps = units_bytes order (units16 cps)"
  by (induction cps) (simp_all add: units16_def units_bytes_def)

lemma units16_simps [simp]: "units16 [] = []" "units16 (w # cps) = utf16_units w @ units16 cps"
  by (simp_all add: units16_def)

lemma from_utf16_loop_ok:
  assumes inv0: "data_inv h0 ext" and mem: "\<forall>n. mem n"
    and "utf_ok h0 ext out s" "list_all scalar cps" "us = pre @ units16 cps" "sz = 2 * length us" "i = length pre"
    and "offset = 0 \<and> i = 0 \<longrightarrow> cps = [] \<or> hd cps \<noteq> 0xfeff \<and> hd cps \<noteq> 0xfffe"
    and "4 + sz \<le> BUFFER_MALLOC_MAX" "records_fit (length out + 2 * length (text16 order cps))"
  shows "\<exists>s'. from_utf16_loop d h order mem offset sz (length us) i (units_bytes order us) s = (True, s')
    \<and> utf_ok h0 ext (out @ text8 cps) s' \<and> utf_skip s' = utf_skip s"
  using assms(3-)
proof (induction cps arbitrary: out s i pre)
  case Nil
  then show ?case by (simp add: from_utf16_loop.simps)
next
  case (Cons w cps)
  have w: "scalar w" and cps: "list_all scalar cps" using Cons.prems(2) by simp_all
  have half: "\<not> sz div 2 < length us" using Cons.prems(4) by simp
  have out: "records_fit (length out)" using records_fit_mono [OF Cons.prems(8)] by simp
  have fit: "records_fit (length (out @ utf8_bytes w) + 2 * length (text16 order cps))"
    by (rule records_fit_mono [OF Cons.prems(8)]) (use utf8_length_le [OF w, of order] in simp)
  have left: "4 + (length us - k) * 2 \<le> BUFFER_MALLOC_MAX" for k using Cons.prems(4,7) by simp
  note put = put8_ok [OF inv0 Cons.prems(1) mem w left out]
  have first: "\<not> (offset = 0 \<and> i = 0 \<and> w = 0xfeff)" "\<not> (offset = 0 \<and> i = 0 \<and> w = 0xfffe)" using Cons.prems(6) by auto
  have rest: "offset = 0 \<and> i + k = 0 \<longrightarrow> cps = [] \<or> hd cps \<noteq> 0xfeff \<and> hd cps \<noteq> 0xfffe" if "0 < k" for k using that by simp
  show ?case
  proof (cases "0x10000 \<le> w")
    case False
    from bmp_unit [OF w False] obtain u where u: "utf16_units w = [u]" "ucast u = w" "\<not> (0xd800 \<le> u \<and> u \<le> 0xdbff)"
      "\<not> (0xdc00 \<le> u \<and> u \<le> 0xdfff)" "u = 0xfeff \<longleftrightarrow> w = 0xfeff" "u = 0xfffe \<longleftrightarrow> w = 0xfffe" by blast
    have us: "us = (pre @ [u]) @ units16 cps" "i < length us" "us ! i = u" "length (pre @ [u]) = i + 1"
      using Cons.prems(3,5) u(1) by simp_all
    have bom: "\<not> (u = 0xfffe \<and> offset = 0 \<and> i = 0)" "\<not> (u = 0xfeff \<and> offset = 0 \<and> i = 0)" using first u(5,6) by auto
    from put [of i] obtain s1 where s1: "from_utf16_put mem w (length us - i) s = (True, s1)"
      "utf_ok h0 ext (out @ utf8_bytes w) s1" "utf_skip s1 = utf_skip s" by blast
    from Cons.IH [OF s1(2) cps us(1) Cons.prems(4) us(4) [symmetric] rest Cons.prems(7) fit] obtain s' where
      s': "from_utf16_loop d h order mem offset sz (length us) (i + 1) (units_bytes order us) s1 = (True, s')"
        "utf_ok h0 ext ((out @ utf8_bytes w) @ text8 cps) s'" "utf_skip s' = utf_skip s1" by auto
    have "from_utf16_loop d h order mem offset sz (length us) i (units_bytes order us) s
      = from_utf16_loop d h order mem offset sz (length us) (i + 1) (units_bytes order us) s1"
      using us(2) by (subst from_utf16_loop.simps) (simp add: unit_at_units us(3) swap_swap Let_def half bom u(2-4) s1(1))
    then show ?thesis using s' s1(3) by simp
  next
    case True
    obtain hi lo where u: "utf16_units w = [hi, lo]" using True by (simp add: utf16_units_def Let_def)
    note p = surrogate_pair [OF w True u]
    have us: "us = (pre @ [hi, lo]) @ units16 cps" "i + 1 < length us" "us ! i = hi" "us ! (i + 1) = lo" "length (pre @ [hi, lo]) = i + 2"
      using Cons.prems(3,5) u by (simp_all add: nth_append)
    from put [of "i + 1"] obtain s1 where s1: "from_utf16_put mem w (length us - (i + 1)) s = (True, s1)"
      "utf_ok h0 ext (out @ utf8_bytes w) s1" "utf_skip s1 = utf_skip s" by blast
    from Cons.IH [OF s1(2) cps us(1) Cons.prems(4) us(5) [symmetric] rest Cons.prems(7) fit] obtain s' where
      s': "from_utf16_loop d h order mem offset sz (length us) (i + 2) (units_bytes order us) s1 = (True, s')"
        "utf_ok h0 ext ((out @ utf8_bytes w) @ text8 cps) s'" "utf_skip s' = utf_skip s1" by auto
    have i: "i < length us" "\<not> length us \<le> i" "\<not> length us \<le> i + 1" using us(2) by simp_all
    have "from_utf16_loop d h order mem offset sz (length us) i (units_bytes order us) s
      = from_utf16_loop d h order mem offset sz (length us) (i + 2) (units_bytes order us) s1"
      using i half p s1(1)
      by (subst from_utf16_loop.simps) (simp add: unit_at_units us(2,3) us(4) [simplified] swap_swap Let_def)
    then show ?thesis using s' s1(3) by simp
  qed
qed

definition strip_bom :: "u32 list \<Rightarrow> u32 list" where
  "strip_bom cps = (if cps \<noteq> [] \<and> hd cps = 0xfeff then tl cps else cps)"

lemma utf16_units_feff: "utf16_units 0xfeff = [0xfeff]" "utf16_units 0xfffe = [0xfffe]"
  by code_simp+

lemma from_utf16_region:
  assumes inv0: "data_inv h0 ext" and mem: "\<forall>n. mem n" and s: "utf_ok h0 ext out s" and cps: "list_all scalar cps"
    and sz: "sz = 2 * length (units16 cps)" and first: "offset = 0 \<longrightarrow> cps = [] \<or> hd cps \<noteq> 0xfffe"
    and max: "4 + sz \<le> BUFFER_MALLOC_MAX" and fit: "records_fit (length out + 2 * length (text16 order cps))"
  shows "\<exists>s'. from_utf16_loop d h order mem offset sz (length (units16 cps)) 0 (units_bytes order (units16 cps)) s = (True, s')
    \<and> utf_ok h0 ext (out @ text8 (if offset = 0 then strip_bom cps else cps)) s' \<and> utf_skip s' = utf_skip s"
proof (cases "offset = 0 \<and> cps \<noteq> [] \<and> hd cps = 0xfeff")
  case False
  have e: "(if offset = 0 then strip_bom cps else cps) = cps" using False by (auto simp: strip_bom_def)
  have f: "offset = 0 \<and> (0::nat) = 0 \<longrightarrow> cps = [] \<or> hd cps \<noteq> 0xfeff \<and> hd cps \<noteq> 0xfffe" using False first by auto
  have u: "units16 cps = [] @ units16 cps" "(0::nat) = length ([] :: u16 list)" by simp_all
  show ?thesis unfolding e by (rule from_utf16_loop_ok [OF inv0 mem s cps u(1) sz u(2) f max fit])
next
  case True
  then obtain rest where c: "cps = 0xfeff # rest" by (cases cps) auto
  have r: "list_all scalar rest" using cps c by simp
  have us: "units16 cps = [0xfeff] @ units16 rest" "1 = length [0xfeff :: u16]" by (simp_all add: c utf16_units_feff)
  have f: "offset = 0 \<and> (1::nat) = 0 \<longrightarrow> rest = [] \<or> hd rest \<noteq> 0xfeff \<and> hd rest \<noteq> 0xfffe" by simp
  have fit1: "records_fit (length out + 2 * length (text16 order rest))" by (rule records_fit_mono [OF fit]) (simp add: c)
  have "\<not> sz div 2 < length (units16 cps)" using sz by simp
  then have step: "from_utf16_loop d h order mem offset sz (length (units16 cps)) 0 (units_bytes order (units16 cps)) s
    = from_utf16_loop d h order mem offset sz (length (units16 cps)) 1 (units_bytes order (units16 cps)) s"
    by (subst from_utf16_loop.simps) (simp add: unit_at_units us(1) swap_swap Let_def True)
  have e: "(if offset = 0 then strip_bom cps else cps) = rest" using True c by (simp add: strip_bom_def)
  show ?thesis unfolding e step by (rule from_utf16_loop_ok [OF inv0 mem s r us(1) sz us(2) f max fit1])
qed

lemma from_utf16_block_ok:
  assumes inv0: "data_inv h0 ext" and mem: "\<forall>n. mem n" and s: "utf_ok h0 ext out s" "utf_skip s = 0"
    and cps: "list_all scalar cps" "bytes = text16 order cps" "bytes \<noteq> []"
    and first: "offset = 0 \<longrightarrow> hd cps \<noteq> 0xfffe"
    and max: "4 + length bytes \<le> BUFFER_MALLOC_MAX" and fit: "records_fit (length out + 2 * length bytes)"
  shows "\<exists>s'. from_utf16_block d h order mem s region offset bytes = (True, s') \<and> utf_skip s' = 0
    \<and> tb_start (utf_buffer s') = None \<and> utf_ok h0 ext (out @ text8 (if offset = 0 then strip_bom cps else cps)) s'"
proof -
  let ?n = "length bytes"
  have o: "records_fit (length out)" using records_fit_mono [OF fit] by simp
  have hm: "0 < howmany ?n 3 * 2" "howmany ?n 3 * 2 + 0 \<le> BUFFER_MALLOC_MAX"
  proof -
    have "?n \<noteq> 0" using cps(3) by simp
    then show "0 < howmany ?n 3 * 2" by (auto simp: howmany_def div_greater_zero_iff dvd_imp_le mod_eq_0_iff_dvd)
    have "howmany ?n 3 \<le> ?n div 3 + 1" by (simp add: howmany_def)
    then show "howmany ?n 3 * 2 + 0 \<le> BUFFER_MALLOC_MAX" using max by linarith
  qed
  have "\<exists>s1. (if offset = 0 then utf_emit mem (howmany ?n 3 * 2) 0 [] s else (True, s)) = (True, s1)
      \<and> utf_ok h0 ext out s1 \<and> utf_skip s1 = 0"
    using emit_ok [OF inv0 s(1) mem hm(1) _ hm(2) records_fit_less [OF o] o, of "[]"] s by auto
  then obtain s1 where s1: "(if offset = 0 then utf_emit mem (howmany ?n 3 * 2) 0 [] s else (True, s)) = (True, s1)"
      "utf_ok h0 ext out s1" "utf_skip s1 = 0" by blast
  have e: "s1\<lparr>utf_skip := 0\<rparr> = s1" using s1(3) by simp
  have n: "?n = 2 * length (units16 cps)" by (simp add: cps(2) text16_units length_units_bytes)
  have f: "offset = 0 \<longrightarrow> cps = [] \<or> hd cps \<noteq> 0xfffe" using first by simp
  have fit1: "records_fit (length out + 2 * length (text16 order cps))" using fit cps(2) by simp
  from from_utf16_region [OF inv0 mem s1(2) cps(1) n f max fit1, where d = d and h = h] obtain s2 where
    s2: "from_utf16_loop d h order mem offset ?n (length (units16 cps)) 0 (units_bytes order (units16 cps)) s1 = (True, s2)"
      "utf_ok h0 ext (out @ text8 (if offset = 0 then strip_bom cps else cps)) s2" "utf_skip s2 = utf_skip s1" by blast
  have le: "list_all scalar ws \<Longrightarrow> length (text8 ws) \<le> 2 * length (text16 order ws)" for ws
    by (induction ws) (use utf8_length_le [of _ order] in \<open>fastforce+\<close>)
  have "length (text8 (if offset = 0 then strip_bom cps else cps)) \<le> 2 * ?n"
  proof (cases "offset = 0 \<and> cps \<noteq> [] \<and> hd cps = 0xfeff")
    case True
    then obtain rest where c: "cps = 0xfeff # rest" by (cases cps) auto
    have "length (text8 rest) \<le> 2 * length (text16 order rest)" using le cps(1) c by simp
    then show ?thesis using True by (simp add: strip_bom_def c cps(2))
  next
    case False
    then show ?thesis using le [OF cps(1)] cps(2) by (auto simp: strip_bom_def)
  qed
  then have fit2: "records_fit (length (out @ text8 (if offset = 0 then strip_bom cps else cps)))"
    by (intro records_fit_mono [OF fit]) simp
  have m: "?n mod 2 = 0" "?n div 2 = length (units16 cps)" unfolding n by simp_all
  have pos: "\<not> ?n \<le> 0" using cps(3) by simp
  have "from_utf16_block d h order mem s region offset bytes = (True, utf_flush mem s2)"
    unfolding from_utf16_block_def Let_def s1(1) prod.case bool.case s1(3) using m pos s2(1)
    by (simp add: e text16_units [of order cps, folded cps(2)])
  then show ?thesis using flush_ok [OF inv0 s2(2) records_fit_less [OF fit2] fit2, of mem] s2(3) s1(3) by simp
qed

lemma from_utf16_ok:
  assumes inv: "data_inv h ext" and o: "dh_obj h d = Some dd" and mem: "\<forall>n. mem n"
    and whole: "regions_whole (text16 order) h d" and max: "4 + length (data_bytes h d) \<le> BUFFER_MALLOC_MAX" and ne: "data_bytes h d \<noteq> []"
    and bom: "take 2 (data_bytes h d) \<noteq> units_bytes order [0xfffe]"
  shows "\<exists>cps d' h'. list_all scalar cps \<and> data_bytes h d = text16 order cps
    \<and> dispatch_transform_from_utf16 d order mem h = Inr (Some d', h') \<and> data_inv h' (ref_add ext d') \<and> data_ext h h'
    \<and> data_bytes h' d' = text8 (strip_bom cps)"
proof -
  let ?f = "from_utf16_block d h order mem" and ?T = "data_bytes h d"
  let ?P = "\<lambda>xs s. \<exists>cps. list_all scalar cps \<and> xs = text16 order cps \<and> utf_skip s = 0 \<and> (xs \<noteq> [] \<longrightarrow> tb_start (utf_buffer s) = None)
    \<and> utf_ok h ext (text8 (strip_bom cps)) s"
  have v: "data_valid (d, h)" using inv o by (rule data_validI)
  have empty: "text16 order cps = [] \<longleftrightarrow> cps = []" for cps
  proof (cases cps)
    case (Cons w ws)
    have "length (units_bytes order (utf16_units w)) \<noteq> 0" unfolding length_utf16 by simp
    then show ?thesis using Cons by auto
  qed simp
  have le: "list_all scalar ws \<Longrightarrow> length (text8 ws) \<le> 2 * length (text16 order ws)" for ws
    by (induction ws) (use utf8_length_le [of _ order] in \<open>fastforce+\<close>)
  obtain s' where s': "dispatch_data_apply d ?f (utf_init h) h = Inr (True, s')" "?P ?T s'"
  proof (rule dispatch_source.traverse_total [OF v, where f = ?f and s = "utf_init h" and P = ?P, unfolded prod.case])
    show "?P [] (utf_init h)" using utf_init_ok [of h] inv by (intro exI [of _ "[]"]) (simp add: strip_bom_def)
  next
    fix xs s region bytes ys
    assume b: "?T = xs @ bytes @ ys" "bytes \<noteq> []" and reg: "(region, length xs, bytes) \<in> set (data_regions h d)" and "?P xs s"
    then obtain cps where p: "list_all scalar cps" "xs = text16 order cps" "utf_skip s = 0" "utf_ok h ext (text8 (strip_bom cps)) s" by blast
    from whole reg obtain cps2 where c2: "list_all scalar cps2" "bytes = text16 order cps2" by (auto simp: regions_whole_def)
    have len: "length xs + length bytes \<le> length ?T" using b(1) by simp
    have "length (text8 (strip_bom cps)) \<le> 2 * length xs"
    proof -
      have "length (text8 (strip_bom cps)) \<le> length (text8 cps)" by (cases cps) (simp_all add: strip_bom_def)
      then show ?thesis using le [OF p(1)] p(2) by simp
    qed
    then have fit: "records_fit (length (text8 (strip_bom cps)) + 2 * length bytes)"
      by (intro max_fits) (use len max in linarith)
    have m: "4 + length bytes \<le> BUFFER_MALLOC_MAX" using len max by linarith
    have first: "length xs = 0 \<longrightarrow> hd cps2 \<noteq> 0xfffe"
    proof (rule ccontr)
      assume "\<not> ?thesis"
      then have x: "xs = []" "hd cps2 = 0xfffe" by auto
      moreover have "cps2 \<noteq> []" using b(2) c2(2) by auto
      ultimately obtain rest where "cps2 = 0xfffe # rest" by (cases cps2) auto
      then have "take 2 ?T = units_bytes order [0xfffe]"
        using b(1) x c2(2) length_units_bytes [of order "[0xfffe]"] by (simp add: utf16_units_feff)
      then show False using bom by contradiction
    qed
    from from_utf16_block_ok [OF inv mem p(4,3) c2 b(2) first m fit, of d h region] obtain s' where
      s': "?f s region (length xs) bytes = (True, s')" "utf_skip s' = 0" "tb_start (utf_buffer s') = None"
        "utf_ok h ext (text8 (strip_bom cps) @ text8 (if length xs = 0 then strip_bom cps2 else cps2)) s'" by blast
    have out: "text8 (strip_bom cps) @ text8 (if length xs = 0 then strip_bom cps2 else cps2) = text8 (strip_bom (cps @ cps2))"
      using empty [of cps] p(2) by (cases cps) (auto simp: strip_bom_def)
    show "\<exists>s'. ?f s region (length xs) bytes = (True, s') \<and> ?P (xs @ bytes) s'"
      using s' p(1,2) c2 b(2) unfolding out by (intro exI [of _ s'] conjI exI [of _ "cps @ cps2"]) simp_all
  next
    fix s' assume "dispatch_data_apply d ?f (utf_init h) h = Inr (True, s')" "?P ?T s'"
    then show thesis by (rule that)
  qed
  from s'(2) ne obtain cps where c: "list_all scalar cps" "?T = text16 order cps" "tb_start (utf_buffer s') = None"
    "utf_ok h ext (text8 (strip_bom cps)) s'" by auto
  from utf_finish_ok [OF c(4,3), of mem] c(1,2) show ?thesis
    unfolding dispatch_transform_from_utf16_def s'(1) by blast
qed

section \<open>What the transforms compute\<close>

section \<open>The texts are those of the standard\<close>

text \<open>
  The writers of the code against \<open>Unicode_Encoding\<close>: the bits that they shift and mask are the
  digits of the code point, and the byte swap is the order of the octets.
\<close>

lemma u8_of_nat: "(ucast w :: u8) = of_nat (unat w)"
  by simp

lemma unat_tag: "unat (w :: u32) < 2 ^ k \<Longrightarrow> 2 ^ k dvd unat t \<Longrightarrow> unat (t OR w) = unat t + unat w"
  by (simp add: unsigned_or_eq or_tag)

lemma unat_low_digit: "unat (w AND 0x3f) = unat w mod 64" for w :: u32
  using unat_take_bit [of 6 w] by (simp add: take_bit_eq_mask mask_eq_exp_minus_1)

lemma utf8_bytes_unicode:
  assumes "scalar w"
  shows "utf8_bytes w = map of_nat (utf8_sequence (unat w))"
proof -
  have c: "unat w < 2 ^ 21" using assms by (rule scalar_bounds)
  have d: "unat (drop_bit 6 w) = unat w div 64" "unat (drop_bit 12 w) = unat w div 64 ^ 2"
    "unat (drop_bit 18 w) = unat w div 64 ^ 3"
    by (simp_all add: unat_drop_bit)
  have low: "unat (0x80 OR (x AND 0x3f)) = 0x80 + unat x mod 64" for x :: u32
    using unat_tag [of "x AND 0x3f" 6 "0x80"] by (simp add: unat_low_digit)
  have lead: "unat (0xc0 OR drop_bit 6 w) = 0xc0 + unat w div 64" if "unat w < 0x800"
    using unat_tag [of "drop_bit 6 w" 5 "0xc0"] that by (simp add: d less_mult_imp_div_less)
  have lead3: "unat (0xe0 OR drop_bit 12 w) = 0xe0 + unat w div 64 ^ 2" if "unat w < 0x10000"
    using unat_tag [of "drop_bit 12 w" 4 "0xe0"] that by (simp add: d less_mult_imp_div_less)
  have lead4: "unat (0xf0 OR drop_bit 18 w) = 0xf0 + unat w div 64 ^ 3"
    using unat_tag [of "drop_bit 18 w" 3 "0xf0"] c by (simp add: d less_mult_imp_div_less)
  have one: "unat (w AND 0xff) = unat w" if "unat w < 0x80"
    using unat_take_bit [of 8 w] that by (simp add: take_bit_eq_mask mask_eq_exp_minus_1)
  show ?thesis
    unfolding utf8_bytes_def utf8_sequence_def u8_of_nat word_less_nat_alt
    using c by (simp add: low one lead lead3 lead4 d del: of_nat_unat of_nat_add)
qed

lemma swapped_bytes: "unit_bytes (OSSwapInt16 u) = [ucast (drop_bit 8 u), ucast u]"
proof -
  have "(ucast (OSSwapInt16 u) :: u8) = ucast (drop_bit 8 u)"
    "(ucast (drop_bit 8 (OSSwapInt16 u)) :: u8) = ucast u"
    by (rule bit_word_eqI; auto simp: OSSwapInt16_def bit_simps dest: bit_imp_le_length)+
  then show ?thesis by (simp add: unit_bytes_def)
qed

definition octets :: "byte_order \<Rightarrow> nat \<Rightarrow> nat list" where
  "octets order = (case order of OSLittleEndian \<Rightarrow> octets_le | OSBigEndian \<Rightarrow> octets_be)"

lemma units_bytes_octets: "units_bytes order us = map of_nat (concat (map (\<lambda>u. octets order (unat u)) us))"
proof -
  have wrap: "(of_nat (n mod 256) :: u8) = of_nat n" for n
    by (rule word_unat_eq_iff [THEN iffD2]) (simp add: unat_of_nat)
  have low: "(of_nat (unat u mod 256) :: u8) = ucast u" for u :: u16
    unfolding wrap by (rule of_nat_unat)
  have high: "(of_nat (unat u div 256) :: u8) = ucast (drop_bit 8 u)" for u :: u16
    using of_nat_unat [of "drop_bit 8 u", where 'a = "8 word"] unat_drop_bit [of 8 u] by simp
  have "unit_bytes (dispatch_transform_swap_from_host u order) = map of_nat (octets order (unat u))" for u
    by (cases order) (simp_all only: dispatch_transform_swap_from_host_def octets_def octets_le_def octets_be_def
      byte_order.case byte_order.distinct if_True if_False list.map low high simp_thms
      swapped_bytes [unfolded unit_bytes_def] unit_bytes_def)
  then show ?thesis by (induction us) (simp_all add: units_bytes_def)
qed

lemma utf16_units_unicode:
  assumes "scalar w"
  shows "map unat (utf16_units w) = utf16_sequence (unat w)"
proof (cases "0x10000 \<le> w")
  case True
  define v where "v = w - 0x10000"
  have v: "unat v = unat w - 0x10000" using True unfolding v_def by (simp add: unat_sub)
  have "unat w < 0x110000" using assms by (simp add: scalar_def word_less_nat_alt)
  then have b: "unat v < 2 ^ 20" unfolding v by simp
  have digits: "unat (drop_bit 10 v AND 0x3ff) = unat v div 1024" "unat (v AND 0x3ff) = unat v mod 1024"
    using unat_take_bit [of 10 "drop_bit 10 v"] unat_take_bit [of 10 v] unat_drop_bit [of 10 v] b
    by (simp_all add: take_bit_eq_mask mask_eq_exp_minus_1 less_mult_imp_div_less)
  have sur: "unat (ucast (x + k) :: u16) = unat x + unat k" if "unat x + unat k < 2 ^ 16" for x k :: u32
    using that by (simp add: unat_add_no_wrap unsigned_ucast_eq take_bit_nat_eq_self)
  have "unat v div 1024 < 1024" using b by (simp add: less_mult_imp_div_less)
  then have "unat (ucast ((drop_bit 10 v AND 0x3ff) + 0xd800) :: u16) = 0xd800 + unat v div 1024"
    "unat (ucast ((v AND 0x3ff) + 0xdc00) :: u16) = 0xdc00 + unat v mod 1024"
    by (simp_all add: sur digits del: of_nat_unat)
  moreover have "\<not> unat w < 0x10000" using True by (simp add: word_le_nat_alt)
  ultimately show ?thesis using True
    by (simp only: utf16_units_def utf16_sequence_def Let_def v_def [symmetric] v if_True if_False list.map)
next
  case False
  then have "unat w < 0x10000" by (simp add: word_le_nat_alt)
  moreover from this have "unat (w AND 0xffff) = unat w"
    using unat_take_bit [of 16 w] by (simp only: take_bit_eq_mask mask_eq_exp_minus_1) simp
  then have "unat (ucast (w AND 0xffff) :: u16) = unat w"
    using \<open>unat w < 0x10000\<close> by (simp only: unsigned_ucast_eq take_bit_nat_def) simp
  ultimately show ?thesis using False by (simp only: utf16_units_def utf16_sequence_def if_True if_False list.map)
qed

definition unicode_utf16 :: "byte_order \<Rightarrow> u32 list \<Rightarrow> u8 list" where
  "unicode_utf16 order = (case order of OSLittleEndian \<Rightarrow> unicode_utf16le | OSBigEndian \<Rightarrow> unicode_utf16be)"

lemma text8_unicode: "list_all scalar cps \<Longrightarrow> text8 cps = unicode_utf8 cps"
  by (induction cps) (simp_all add: utf8_bytes_unicode unicode_utf8_def)

lemma text16_unicode: "list_all scalar cps \<Longrightarrow> text16 order cps = unicode_utf16 order cps"
proof (induction cps)
  case (Cons w cps)
  have w: "scalar w" using Cons.prems by simp
  have "units_bytes order (utf16_units w) = map of_nat (concat (map (octets order) (map unat (utf16_units w))))"
    by (simp add: units_bytes_octets comp_def)
  then have "units_bytes order (utf16_units w) = map of_nat (concat (map (octets order) (utf16_sequence (unat w))))"
    by (simp only: utf16_units_unicode [OF w])
  with Cons show ?case
    by (cases order) (simp_all add: unicode_utf16_def unicode_utf16be_def unicode_utf16le_def octets_def)
qed (cases order, simp_all add: unicode_utf16_def unicode_utf16be_def unicode_utf16le_def)

lemma bom_unicode: "units_bytes order [0xfeff] @ unicode_utf16 order cps = unicode_utf16 order (0xfeff # cps)"
  "units_bytes order [0xfffe] = unicode_utf16 order [0xfffe]"
  by (cases order; simp add: units_bytes_octets octets_def unicode_utf16_def unicode_utf16be_def unicode_utf16le_def
      utf16_sequence_def)+

lemma regions_whole_cong:
  "(\<And>cps. list_all scalar cps \<Longrightarrow> f cps = g cps) \<Longrightarrow> regions_whole f h d = regions_whole g h d"
  unfolding regions_whole_def by (intro ball_cong refl) (auto split: prod.splits)

lemma whole_unicode: "regions_whole unicode_utf8 h d = regions_whole text8 h d"
  "regions_whole (unicode_utf16 order) h d = regions_whole (text16 order) h d"
  by (rule regions_whole_cong, simp add: text8_unicode text16_unicode)+

text \<open>A text determines its code points.\<close>

lemma text8_inj: "list_all scalar xs \<Longrightarrow> list_all scalar ys \<Longrightarrow> text8 xs = text8 ys \<Longrightarrow> xs = ys"
proof (induction xs arbitrary: ys)
  case Nil
  then show ?case using utf8_bytes_read(1) [OF scalar_bounds] by (cases ys) auto
next
  case (Cons v xs)
  note r = utf8_bytes_read(1,3) [OF scalar_bounds]
  from Cons.prems r(1) [of v] obtain w zs where ys: "ys = w # zs" by (cases ys) auto
  have w: "scalar v" "scalar w" using Cons.prems ys by simp_all
  have "utf8_bytes v @ text8 xs = utf8_bytes w @ text8 zs" using Cons.prems ys by simp
  then have "v = w" using r(2) [OF w(1), of "text8 xs"] r(2) [OF w(2), of "text8 zs"] by simp
  then show ?case using Cons ys by simp
qed

lemma units_bytes_inj: "units_bytes order us = units_bytes order vs \<Longrightarrow> us = vs"
proof -
  assume eq: "units_bytes order us = units_bytes order vs"
  then have len: "length us = length vs" using length_units_bytes [of order us] length_units_bytes [of order vs] by simp
  moreover have "us ! i = vs ! i" if "i < length us" for i
  proof -
    have "dispatch_transform_swap_from_host (us ! i) order = dispatch_transform_swap_from_host (vs ! i) order"
      using unit_at_units [of order us i] unit_at_units [of order vs i] that len unfolding eq by simp
    then have "dispatch_transform_swap_to_host (dispatch_transform_swap_from_host (us ! i) order) order
      = dispatch_transform_swap_to_host (dispatch_transform_swap_from_host (vs ! i) order) order" by (rule arg_cong)
    then show ?thesis by (simp only: swap_swap)
  qed
  ultimately show ?thesis by (rule nth_equalityI)
qed

lemma pair_bounds: "n < 0x110000 \<Longrightarrow> 0xd800 + (n - 0x10000) div 1024 \<le> 0xdfff" for n :: nat
proof -
  assume "n < 0x110000"
  then have "n - 0x10000 < 1024 * 1024" by linarith
  then have "(n - 0x10000) div 1024 < 1024" by (rule less_mult_imp_div_less)
  then show ?thesis by linarith
qed

lemma utf16_sequence_cases:
  obtains "n < 0x10000" "utf16_sequence n = [n]"
  | "0x10000 \<le> n" "utf16_sequence n = [0xd800 + (n - 0x10000) div 1024, 0xdc00 + (n - 0x10000) mod 1024]"
  unfolding utf16_sequence_def by (meson not_less)

lemma utf16_sequence_first:
  assumes n: "n < 0x110000" "n < 0xd800 \<or> 0xdfff < n" and m: "m < 0x110000" "m < 0xd800 \<or> 0xdfff < m"
    and seq: "utf16_sequence n @ xs = utf16_sequence m @ ys"
  shows "n = m"
  using utf16_sequence_cases [of n]
proof cases
  case 1
  note u = 1
  show ?thesis using utf16_sequence_cases [of m]
  proof cases
    case 1
    show ?thesis using seq unfolding u(2) 1(2) append_Cons list.inject by (elim conjE)
  next
    case 2
    then have "n = 0xd800 + (m - 0x10000) div 1024" using seq unfolding u(2) 2(2) append_Cons list.inject by (elim conjE)
    then show ?thesis using pair_bounds [OF m(1)] n(2) by linarith
  qed
next
  case 2
  note u = 2
  show ?thesis using utf16_sequence_cases [of m]
  proof cases
    case 1
    then have "0xd800 + (n - 0x10000) div 1024 = m" using seq unfolding u(2) 1(2) append_Cons list.inject by (elim conjE)
    then show ?thesis using pair_bounds [OF n(1)] m(2) by linarith
  next
    case 2
    have "(n - 0x10000) div 1024 = (m - 0x10000) div 1024" "(n - 0x10000) mod 1024 = (m - 0x10000) mod 1024"
      using seq unfolding u(2) 2(2) append_Cons list.inject add_left_cancel by simp_all
    then have "n - 0x10000 = m - 0x10000"
      using div_mult_mod_eq [of "n - 0x10000" 1024] div_mult_mod_eq [of "m - 0x10000" 1024] by (metis (no_types))
    then show ?thesis using u(1) 2(1) by linarith
  qed
qed

lemma units16_inj: "list_all scalar xs \<Longrightarrow> list_all scalar ys \<Longrightarrow> units16 xs = units16 ys \<Longrightarrow> xs = ys"
proof (induction xs arbitrary: ys)
  case Nil
  then show ?case by (cases ys) (auto simp: utf16_units_def Let_def split: if_splits)
next
  case (Cons v xs)
  from Cons.prems obtain w zs where ys: "ys = w # zs"
    by (cases ys) (auto simp: utf16_units_def Let_def split: if_splits)
  have w: "scalar v" "scalar w" using Cons.prems ys by simp_all
  have eq: "map unat (utf16_units v @ units16 xs) = map unat (utf16_units w @ units16 zs)" using Cons.prems ys by simp
  then have seq: "utf16_sequence (unat v) @ map unat (units16 xs) = utf16_sequence (unat w) @ map unat (units16 zs)"
    by (simp only: map_append utf16_units_unicode [OF w(1)] utf16_units_unicode [OF w(2)])
  have b: "unat c < 0x110000" "unat c < 0xd800 \<or> 0xdfff < unat c" if "scalar c" for c
    using that by (auto simp: scalar_def word_less_nat_alt word_le_nat_alt)
  have "unat v = unat w" using b [OF w(1)] b [OF w(2)] seq by (rule utf16_sequence_first)
  then have "v = w" by (simp only: word_unat_eq_iff)
  then show ?case using Cons ys by simp
qed

lemma text16_inj: "list_all scalar xs \<Longrightarrow> list_all scalar ys \<Longrightarrow> text16 order xs = text16 order ys \<Longrightarrow> xs = ys"
  using units16_inj units_bytes_inj unfolding text16_units by blast

text \<open>
  C33. Transforming UTF-8 to UTF-16 in either byte order writes the UTF-16 encoding form of the
  Unicode Standard, given by arithmetic on code points, of a byte order mark and the code
  points, whatever number of regions the text is in, as long as no sequence is split between two
  regions; the references are exact and older objects are unchanged.
\<close>
theorem to_utf16_correct:
  assumes "data_inv h ext" "dh_obj h d = Some dd" "\<forall>n. mem n"
    and "list_all scalar cps" "cps \<noteq> []" "data_bytes h d = unicode_utf8 cps"
    and "regions_whole unicode_utf8 h d" "4 + length (data_bytes h d) * 2 \<le> BUFFER_MALLOC_MAX"
  shows "\<exists>d' h'. dispatch_transform_to_utf16 d order mem h = Inr (Some d', h')
    \<and> data_inv h' (ref_add ext d') \<and> data_ext h h'
    \<and> data_bytes h' d' = unicode_utf16 order (0xfeff # cps)"
proof -
  have t: "data_bytes h d = text8 cps" using assms(4,6) by (simp add: text8_unicode)
  have ne: "data_bytes h d \<noteq> []" unfolding t using text8_inj [OF assms(4), of "[]"] assms(5) by auto
  from to_utf16_ok [OF assms(1-3) assms(7) [unfolded whole_unicode] assms(8) ne, of order] obtain cps' d' h' where
    c: "list_all scalar cps'" "data_bytes h d = text8 cps'" and
    r: "dispatch_transform_to_utf16 d order mem h = Inr (Some d', h')" "data_inv h' (ref_add ext d')" "data_ext h h'"
      "data_bytes h' d' = units_bytes order [0xfeff] @ text16 order cps'" by blast
  have "cps' = cps" using c t assms(4) by (intro text8_inj) simp_all
  then show ?thesis using r assms(4) by (auto simp: text16_unicode bom_unicode(1))
qed

definition sample_utf8 :: "u8 list" where "sample_utf8 = [0xc3, 0xa9, 0xf0, 0x9f, 0x98, 0x80]"

lemma sample_unicode8: "unicode_utf8 [0x68] = [0x68]" "unicode_utf8 [0xe9, 0x1f600] = sample_utf8"
  "list_all scalar [0x68]" "list_all scalar [0xe9, 0x1f600]" "list_all scalar [0x68, 0xe9, 0x1f600]"
  "unicode_utf8 [0x68, 0xe9, 0x1f600] = [0x68] @ sample_utf8"
  by (simp_all add: unicode_defs scalar_def sample_utf8_def)

lemma sample_small: "4 + length (0x68 # sample_utf8) * 2 \<le> BUFFER_MALLOC_MAX" "length [0x68 :: u8] + length sample_utf8 < SIZE_MOD"
  by (simp_all add: sample_utf8_def BUFFER_MALLOC_MAX_def SIZE_MOD_def)

theorem to_utf16_correct_witness:
  "\<exists>d' h'. dispatch_transform_to_utf16 4 OSBigEndian (\<lambda>_. True) (text_heap [0x68] sample_utf8) = Inr (Some d', h')
    \<and> data_bytes h' d' = [0xfe, 0xff, 0, 0x68, 0, 0xe9, 0xd8, 0x3d, 0xde, 0]"
proof -
  have ne: "[0x68 :: u8] \<noteq> []" "sample_utf8 \<noteq> []" by (simp_all add: sample_utf8_def)
  have whole: "regions_whole unicode_utf8 (text_heap [0x68] sample_utf8) 4"
    using sample_unicode8 unfolding regions_whole_def text_heap_regions [OF ne(1)]
    by (auto intro: exI [of _ "[0x68]"] exI [of _ "[0xe9, 0x1f600]"])
  have out: "unicode_utf16 OSBigEndian [0xfeff, 0x68, 0xe9, 0x1f600] = [0xfe, 0xff, 0, 0x68, 0, 0xe9, 0xd8, 0x3d, 0xde, 0]"
    by (simp add: unicode_utf16_def unicode_defs)
  from to_utf16_correct [OF text_heap_inv [OF ne sample_small(2)] text_heap_obj(3), of "\<lambda>_. True", OF _ sample_unicode8(5) _ _ whole, of OSBigEndian]
  show ?thesis using sample_small(1) sample_unicode8(6) unfolding out by (simp add: text_heap_bytes) metis
qed

text \<open>
  C34. Transforming UTF-16 in either byte order to UTF-8 drops a leading byte order mark and
  writes the UTF-8 encoding form of the Unicode Standard, given by arithmetic on code points, of
  the code points, joining surrogate pairs, whatever number of regions the text is in, as long
  as no code point is split between two regions.
\<close>
theorem from_utf16_correct:
  assumes "data_inv h ext" "dh_obj h d = Some dd" "\<forall>n. mem n"
    and "list_all scalar cps" "cps \<noteq> []" "data_bytes h d = unicode_utf16 order cps"
    and "regions_whole (unicode_utf16 order) h d" "4 + length (data_bytes h d) \<le> BUFFER_MALLOC_MAX"
    and "take 2 (data_bytes h d) \<noteq> unicode_utf16 order [0xfffe]"
  shows "\<exists>d' h'. dispatch_transform_from_utf16 d order mem h = Inr (Some d', h')
    \<and> data_inv h' (ref_add ext d') \<and> data_ext h h'
    \<and> data_bytes h' d' = unicode_utf8 (strip_bom cps)"
proof -
  have t: "data_bytes h d = text16 order cps" using assms(4,6) by (simp add: text16_unicode)
  have ne: "data_bytes h d \<noteq> []" unfolding t using text16_inj [OF assms(4), of "[]"] assms(5) by auto
  from from_utf16_ok [OF assms(1-3) assms(7) [unfolded whole_unicode] assms(8) ne assms(9) [folded bom_unicode(2)]]
  obtain cps' d' h' where
    c: "list_all scalar cps'" "data_bytes h d = text16 order cps'" and
    r: "dispatch_transform_from_utf16 d order mem h = Inr (Some d', h')" "data_inv h' (ref_add ext d')" "data_ext h h'"
      "data_bytes h' d' = text8 (strip_bom cps')" by blast
  have "cps' = cps" using c t assms(4) by (intro text16_inj [of _ _ order]) simp_all
  moreover have "list_all scalar (strip_bom cps)" using assms(4) by (cases cps) (simp_all add: strip_bom_def)
  ultimately show ?thesis using r by (auto simp: text8_unicode)
qed

definition sample_utf16 :: "u8 list" where "sample_utf16 = [0xff, 0xfe, 0x68, 0]"
definition sample_utf16_end :: "u8 list" where "sample_utf16_end = [0x3d, 0xd8, 0, 0xde]"

lemma sample_unicode16: "unicode_utf16 OSLittleEndian [0xfeff, 0x68] = sample_utf16"
  "unicode_utf16 OSLittleEndian [0x1f600] = sample_utf16_end"
  "unicode_utf16 OSLittleEndian [0xfeff, 0x68, 0x1f600] = sample_utf16 @ sample_utf16_end"
  "list_all scalar [0xfeff, 0x68]" "list_all scalar [0x1f600]" "list_all scalar [0xfeff, 0x68, 0x1f600]"
  "sample_utf16 \<noteq> []" "sample_utf16_end \<noteq> []"
  "take 2 (sample_utf16 @ sample_utf16_end) \<noteq> unicode_utf16 OSLittleEndian [0xfffe]"
  by (simp_all add: unicode_utf16_def unicode_defs scalar_def sample_utf16_def sample_utf16_end_def)

theorem from_utf16_correct_witness:
  "\<exists>d' h'. dispatch_transform_from_utf16 4 OSLittleEndian (\<lambda>_. True) (text_heap sample_utf16 sample_utf16_end)
      = Inr (Some d', h')
    \<and> data_bytes h' d' = [0x68, 0xf0, 0x9f, 0x98, 0x80]"
proof -
  have s: "length sample_utf16 + length sample_utf16_end < SIZE_MOD" "4 + length (sample_utf16 @ sample_utf16_end) \<le> BUFFER_MALLOC_MAX"
    by (simp_all add: sample_utf16_def sample_utf16_end_def BUFFER_MALLOC_MAX_def SIZE_MOD_def)
  have whole: "regions_whole (unicode_utf16 OSLittleEndian) (text_heap sample_utf16 sample_utf16_end) 4"
    using sample_unicode16 unfolding regions_whole_def text_heap_regions [OF sample_unicode16(7)]
    by (auto intro: exI [of _ "[0xfeff, 0x68]"] exI [of _ "[0x1f600]"])
  have out: "unicode_utf8 (strip_bom [0xfeff, 0x68, 0x1f600]) = [0x68, 0xf0, 0x9f, 0x98, 0x80]"
    by (simp add: strip_bom_def unicode_defs)
  from from_utf16_correct [OF text_heap_inv [OF sample_unicode16(7,8) s(1)] text_heap_obj(3), of "\<lambda>_. True", OF _ sample_unicode16(6) _ _ whole]
  show ?thesis using s(2) sample_unicode16(3,9) unfolding out by (simp add: text_heap_bytes) metis
qed

section \<open>Read-ahead over two regions\<close>

lemma text_heap_map:
  assumes "xs \<noteq> []" "ys \<noteq> []" "length xs + length ys < SIZE_MOD" "0 < n"
  shows "dispatch_data_subrange_map 4 off n (text_heap xs ys)
    = (if off + n \<le> length (xs @ ys) then Some (take n (drop off (xs @ ys))) else None)"
  using subrange_map_ok [OF text_heap_inv [OF assms(1-3)] text_heap_obj(3) assms(4)] by (simp add: text_heap_bytes)

text \<open>
  C35. On a UTF-8 text that is split inside a sequence and ends inside another, the transform to
  UTF-16 reads ahead at an offset that forgets the bytes it skipped, takes a continuation byte
  for the start of a sequence and reads beyond the mapped bytes.
\<close>
theorem to_utf16_reads_out_of_bounds:
  "dispatch_transform_to_utf16 4 OSLittleEndian (\<lambda>_. True) (text_heap [0xc3] [0xa9, 0xc3]) = Inl OutOfBounds"
proof -
  let ?h = "text_heap [0xc3] [0xa9, 0xc3]" and ?m = "\<lambda>_. True"
  have inv: "data_inv ?h sample_refs" by (rule text_heap_inv) (simp_all add: SIZE_MOD_def)
  have map: "dispatch_data_subrange_map 4 off 2 ?h = (if off + 2 \<le> 3 then Some (take 2 (drop off [0xc3, 0xa9, 0xc3])) else None)" for off
    by (subst text_heap_map) (simp_all add: SIZE_MOD_def)
  have max: "2 + (0::nat) \<le> BUFFER_MALLOC_MAX" "4 + (0::nat) \<le> BUFFER_MALLOC_MAX" by (simp_all add: BUFFER_MALLOC_MAX_def)
  have fit: "length ([] :: u8 list) < SIZE_MOD" "records_fit (length ([] :: u8 list))" "records_fit 2" "(2::nat) < SIZE_MOD" "records_fit 4" "(4::nat) < SIZE_MOD"
    by (simp_all add: SIZE_MOD_def)
  from emit_ok [OF inv utf_init_ok(1) [OF inv], of ?m 4 "units_bytes OSLittleEndian [0xfeff]" 0] max fit obtain s1 where
    s1: "utf_emit ?m 4 0 (units_bytes OSLittleEndian [0xfeff]) (utf_init ?h) = (True, s1)"
      "utf_ok ?h sample_refs (units_bytes OSLittleEndian [0xfeff]) s1" "utf_skip s1 = 0"
    using utf_init_ok(2) by (auto simp: length_units_bytes)
  have len: "length (units_bytes OSLittleEndian [0xfeff]) = 2" by (simp add: length_units_bytes)
  have sc: "scalar 0xe9" by code_simp
  let ?s1 = "s1\<lparr>utf_skip := 0\<rparr>\<lparr>utf_skip := 0 + (2 - (1 - 0))\<rparr>"
  have ok1: "utf_ok ?h sample_refs (units_bytes OSLittleEndian [0xfeff]) ?s1" using s1(2) by (simp add: utf_ok_def)
  have left: "4 + 0 * 2 \<le> BUFFER_MALLOC_MAX" using max by simp
  have fit2: "records_fit (length (units_bytes OSLittleEndian [0xfeff]))" unfolding len by (rule fit(3))
  from put16_ok [OF inv ok1 _ sc left fit2, of ?m] obtain s2 where
    s2: "to_utf16_put OSLittleEndian ?m 0xe9 0 ?s1 = (True, s2)" "utf_skip s2 = 1"
      "utf_ok ?h sample_refs (units_bytes OSLittleEndian [0xfeff] @ units_bytes OSLittleEndian (utf16_units 0xe9)) s2" by auto
  have u: "dispatch_transform_utf8_length 0xc3 = 2" "dispatch_transform_read_utf8_sequence [0xc3, 0xa9] = Some 0xe9"
    "dispatch_transform_read_utf8_sequence [0xa9, 0xc3] = None" by code_simp+
  have mul: "os_mul_and_add_overflow 1 2 2 = Some 4" by (simp add: os_mul_and_add_overflow_def SIZE_MOD_def)
  have m0: "0 mod SIZE_MOD = 0" "SIZE_MOD \<noteq> Suc 0" by (simp_all add: SIZE_MOD_def)
  have loop1: "to_utf16_loop 4 ?h OSLittleEndian ?m 0 1 0 [0xc3] (s1\<lparr>utf_skip := 0\<rparr>) = (True, s2)"
    using s2(1) by (subst to_utf16_loop.simps) (simp add: u map m0)
  have one: "to_utf16_block 4 ?h OSLittleEndian ?m (utf_init ?h) 2 0 [0xc3] = (True, utf_flush ?m s2)"
    by (simp add: to_utf16_block_def mul [unfolded One_nat_def] s1 Let_def loop1 [unfolded One_nat_def])
  have len2: "length (units_bytes OSLittleEndian [0xfeff] @ units_bytes OSLittleEndian (utf16_units 0xe9)) = 4"
    by (simp add: length_units_bytes utf16_units_def)
  note fl = flush_ok [OF inv s2(3), unfolded len2, OF fit(6,5), of ?m]
  have loop2: "to_utf16_loop 4 ?h OSLittleEndian ?m 1 1 0 [0xc3] s = (False, s\<lparr>utf_heap := Inl OutOfBounds\<rparr>)" for s
    by (subst to_utf16_loop.simps) (simp add: u map m0)
  have two: "to_utf16_block 4 ?h OSLittleEndian ?m (utf_flush ?m s2) 3 1 [0xa9, 0xc3]
      = (False, utf_flush ?m s2\<lparr>utf_skip := 0, utf_heap := Inl OutOfBounds\<rparr>)"
    by (simp add: to_utf16_block_def Let_def fl(3) s2(2) loop2 [unfolded One_nat_def])
  have run: "run_applier (to_utf16_block 4 ?h OSLittleEndian ?m) (utf_init ?h) (data_regions ?h 4)
      = (False, utf_flush ?m s2\<lparr>utf_skip := 0, utf_heap := Inl OutOfBounds\<rparr>)"
    by (subst text_heap_regions) (simp_all add: one two [unfolded One_nat_def])
  then show ?thesis
    using dispatch_source.traverse_regions [OF data_validI [OF inv text_heap_obj(3)], unfolded prod.case, of "to_utf16_block 4 ?h OSLittleEndian ?m"]
    by (simp add: dispatch_transform_to_utf16_def utf_finish_def utf_flush_def Let_def)
qed

theorem transform_buffer_has_room:
  assumes "tb_ok b" "0 < required" "required + sz < SIZE_MOD"
    and "dispatch_transform_buffer_new mem b required sz h = Inr (True, b', h')"
  shows "\<exists>w. tb_start b' = Some w \<and> length w + required \<le> tb_size b' \<and> tb_size b' \<le> BUFFER_MALLOC_MAX"
  using buffer_room [OF assms] .

theorem transform_buffer_has_room_witness:
  "\<exists>b' h' w. dispatch_transform_buffer_new (\<lambda>_. True) \<lparr>tb_data = 0, tb_start = None, tb_size = 0\<rparr> 4 10 sample_heap = Inr (True, b', h')
    \<and> tb_start b' = Some w \<and> length w + 4 \<le> tb_size b'"
proof -
  let ?b = "\<lparr>tb_data = 0, tb_start = None, tb_size = 0\<rparr>" and ?b' = "\<lparr>tb_data = 0, tb_start = Some [], tb_size = 14\<rparr>"
  have "dispatch_transform_buffer_new (\<lambda>_. True) ?b 4 10 sample_heap = Inr (True, ?b', sample_heap)"
    by (simp add: dispatch_transform_buffer_new_def transform_buffer_collect_def tb_written_simps SIZE_MOD_def BUFFER_MALLOC_MAX_def)
  moreover have "tb_ok ?b" by (simp add: tb_ok_def)
  moreover have "(4::nat) + 10 < SIZE_MOD" by (simp add: SIZE_MOD_def)
  ultimately show ?thesis using transform_buffer_has_room [of ?b 4 10 "\<lambda>_. True" sample_heap ?b' sample_heap] by auto
qed

section \<open>dispatch_data_create_with_transform\<close>

text \<open>An operand that is passed through: retained, used and released again.\<close>

lemma release_keeps:
  assumes inv0: "data_inv h ext" and ext: "data_ext h h1" and inv: "data_inv h1 (ref_add (ref_add ext d) t)"
  shows "data_inv (dispatch_data_release d h1) (ref_add ext t)" "data_ext h (dispatch_data_release d h1)"
    "data_bytes (dispatch_data_release d h1) t = data_bytes h1 t" "dh_obj (dispatch_data_release d h1) t = dh_obj h1 t"
proof -
  have "data_inv h1 (ref_add (ref_add ext t) d)" using inv by (subst ref_add_commute)
  note r = drop_added [OF this]
  show inv2: "data_inv (dispatch_data_release d h1) (ref_add ext t)" by (rule r(1))
  show "data_ext h (dispatch_data_release d h1)" by (rule survive [OF inv0 ext r(2) inv2 ref_add_le])
  obtain x where x: "dh_obj (dispatch_data_release d h1) t = Some x" using held_live [OF inv2] by blast
  show "data_bytes (dispatch_data_release d h1) t = data_bytes h1 t"
    using data_bytes_ext [OF inv_wf [OF inv2] r(2) x] by simp
  show "dh_obj (dispatch_data_release d h1) t = dh_obj h1 t" using r(2) x by (simp add: data_ext_def)
qed

lemma masks_base:
  "ft_type data_format_type_none \<noteq> DATA_FORMAT_UTF_ANY" "ft_type data_format_type_base64 \<noteq> DATA_FORMAT_UTF_ANY"
  "ft_type data_format_type_none AND NOT (ft_input_mask data_format_type_base64) = 0"
  "ft_type data_format_type_base64 AND NOT (ft_output_mask data_format_type_none) = 0"
  "ft_type data_format_type_base64 AND NOT (ft_input_mask data_format_type_none) = 0"
  "ft_type data_format_type_none AND NOT (ft_output_mask data_format_type_base64) = 0"
  by code_simp+

lemma formats_base:
  "ft_decode data_format_type_none = None" "ft_encode data_format_type_none = None"
  "ft_decode data_format_type_base64 = Some From_base64" "ft_encode data_format_type_base64 = Some To_base64"
  by (simp_all add: data_format_type_none_def data_format_type_base64_def)

lemma encode_with_transform:
  assumes inv: "data_inv h ext" and o: "dh_obj h d = Some dd" and sz: "dd_size dd \<noteq> 0"
    and lt: "howmany (dd_size dd) 3 * 4 < SIZE_MOD" and dest: "length dest = howmany (dd_size dd) 3 * 4"
  shows "\<exists>t h1. dispatch_data_create_with_transform d data_format_type_none data_format_type_base64 mem j (Some dest) h = Inr (Some t, h1)
    \<and> data_inv h1 (ref_add ext t) \<and> data_ext h h1 \<and> data_bytes h1 t = base64_ref (data_bytes h d) \<and> data_flat h1 t"
proof -
  let ?h = "dispatch_data_retain d h"
  have inv1: "data_inv ?h (ref_add ext d)" by (rule retain_reference_inv [OF inv o])
  have o1: "dh_obj ?h d = Some dd" using o by simp
  have e1: "data_ext h ?h" by (simp add: data_ext_def)
  have b1: "data_bytes ?h d = data_bytes h d" by (rule data_bytes_cong) simp
  from to_base64_ok [OF inv1 o1 lt dest] obtain t h1 where
    t: "dispatch_transform_to_base64 d (Some dest) ?h = Inr (Some t, h1)" "data_inv h1 (ref_add (ref_add ext d) t)"
      "data_ext ?h h1" "data_bytes h1 t = base64_ref (data_bytes ?h d)" "data_flat h1 t" by blast
  note k = release_keeps [OF inv data_ext_trans [OF e1 t(3)] t(2)]
  have "dispatch_data_create_with_transform d data_format_type_none data_format_type_base64 mem j (Some dest) h
    = Inr (Some t, dispatch_data_release d h1)"
    using o sz t(1) by (simp add: dispatch_data_create_with_transform_def masks_base formats_base dispatch_data_get_size_def)
  then show ?thesis using k t(4,5) b1 by (simp add: data_flat_def)
qed

lemma decode_with_transform:
  assumes inv: "data_inv h ext" and o: "dh_obj h t = Some td" and sz: "dd_size td \<noteq> 0" and mem: "\<And>off. mem off"
    and chars: "filter (\<lambda>b. \<not> whitespace b) (data_bytes h t) = base64_ref xs"
    and pad: "padding_together h t" and fit: "records_fit (length (data_bytes h t))"
  shows "\<exists>d' h2. dispatch_data_create_with_transform t data_format_type_base64 data_format_type_none mem j1 j2 h = Inr (Some d', h2)
    \<and> data_inv h2 (ref_add ext d') \<and> data_ext h h2 \<and> data_bytes h2 d' = xs"
proof -
  from from_base64_ok [where mem = mem, OF inv o mem chars pad fit] obtain d' h1 where
    d: "dispatch_transform_from_base64 t mem h = Inr (Some d', h1)" "data_inv h1 (ref_add ext d')" "data_ext h h1" "data_bytes h1 d' = xs" by blast
  obtain dd where o1: "dh_obj h1 d' = Some dd" using held_live [OF d(2)] by blast
  let ?h = "dispatch_data_retain d' h1"
  have e: "data_ext h ?h" using d(3) by (simp add: data_ext_def)
  note k = release_keeps [OF inv e retain_reference_inv [OF d(2) o1]]
  have "data_bytes ?h d' = data_bytes h1 d'" by (rule data_bytes_cong) simp
  moreover have "dispatch_data_create_with_transform t data_format_type_base64 data_format_type_none mem j1 j2 h
    = Inr (Some d', dispatch_data_release d' ?h)"
    using o sz d(1) by (simp add: dispatch_data_create_with_transform_def masks_base formats_base dispatch_data_get_size_def)
  ultimately show ?thesis using k d(4) by simp
qed

text \<open>
  C30. dispatch_data_create_with_transform to base64 and back gives an object with the bytes of
  the first: the formats are compatible, the operands are retained and released in balance,
  older objects keep their contents, and the caller ends up with one reference to each of the
  two results.
\<close>
theorem with_transform_round_trip:
  assumes "data_inv h ext" "dh_obj h d = Some dd" "dd_size dd \<noteq> 0" "\<And>off. mem off"
    and "records_fit (howmany (dd_size dd) 3 * 4)" "length dest = howmany (dd_size dd) 3 * 4"
  shows "\<exists>t h1 d' h2.
    dispatch_data_create_with_transform d data_format_type_none data_format_type_base64 mem j (Some dest) h = Inr (Some t, h1)
    \<and> dispatch_data_create_with_transform t data_format_type_base64 data_format_type_none mem j1 j2 h1 = Inr (Some d', h2)
    \<and> data_inv h2 (ref_add (ref_add ext t) d') \<and> data_ext h h2 \<and> data_bytes h2 d' = data_bytes h d"
proof -
  from encode_with_transform [OF assms(1-3) records_fit_less [OF assms(5)] assms(6), of mem j] obtain t h1 where
    t: "dispatch_data_create_with_transform d data_format_type_none data_format_type_base64 mem j (Some dest) h = Inr (Some t, h1)"
      "data_inv h1 (ref_add ext t)" "data_ext h h1" "data_bytes h1 t = base64_ref (data_bytes h d)" "data_flat h1 t" by blast
  obtain td where o: "dh_obj h1 t = Some td" using held_live [OF t(2)] by blast
  have len: "length (data_bytes h1 t) = howmany (dd_size dd) 3 * 4"
    using length_data_bytes [OF inv_wf [OF assms(1)] assms(2)] by (simp add: t(4) length_base64)
  have "howmany (dd_size dd) 3 \<noteq> 0" using assms(3) by (auto simp: howmany_def)
  then have sz: "dd_size td \<noteq> 0" using length_data_bytes [OF inv_wf [OF t(2)] o] len by simp
  have chars: "filter (\<lambda>b. \<not> whitespace b) (data_bytes h1 t) = base64_ref (data_bytes h d)"
    unfolding t(4) by (rule base64_ref_not_white)
  have fit: "records_fit (length (data_bytes h1 t))" using assms(5) by (simp only: len)
  from decode_with_transform [where mem = mem, OF t(2) o sz assms(4) chars flat_together [OF t(5)] fit, of j1 j2] t(1,3)
  show ?thesis by (blast intro: data_ext_trans)
qed

theorem with_transform_round_trip_witness:
  "\<exists>t h1 d' h2.
    dispatch_data_create_with_transform 4 data_format_type_none data_format_type_base64 (\<lambda>_. True) None (Some (replicate 8 0)) sample_heap = Inr (Some t, h1)
    \<and> dispatch_data_create_with_transform t data_format_type_base64 data_format_type_none (\<lambda>_. True) None None h1 = Inr (Some d', h2)
    \<and> data_bytes h2 d' = [3, 4, 5, 6]"
proof -
  have n: "howmany 4 3 * 4 = 8" "records_fit 8" "(4::nat) \<noteq> 0" by (simp_all add: howmany_def)
  show ?thesis
    using with_transform_round_trip [OF sample_heap_inv sample_heap_obj(3), of "\<lambda>_. True",
        unfolded dispatch_data.simps n(1) sample_heap_bytes, OF n(3) TrueI n(2) length_replicate] by blast
qed

theorem with_transform_rejects_other_family:
  assumes "input \<in> {data_format_type_none, data_format_type_base32, data_format_type_base32hex, data_format_type_base64} \<and>
      output \<in> {data_format_type_utf8, data_format_type_utf16le, data_format_type_utf16be, data_format_type_utf_any}
    \<or> input \<in> {data_format_type_utf8, data_format_type_utf16le, data_format_type_utf16be} \<and>
      output \<in> {data_format_type_base32, data_format_type_base32hex, data_format_type_base64, data_format_type_none, data_format_type_utf_any}"
  shows "dispatch_data_create_with_transform d input output mem junk1 junk2 h = Inr (None, h)"
proof -
  let ?bad = "\<lambda>i out. ft_type i \<noteq> DATA_FORMAT_UTF_ANY \<and> (ft_type i AND NOT (ft_input_mask out) \<noteq> 0 \<or> ft_type out AND NOT (ft_output_mask i) \<noteq> 0)"
  have "list_all (\<lambda>i. list_all (?bad i) [data_format_type_utf8, data_format_type_utf16le, data_format_type_utf16be, data_format_type_utf_any])
      [data_format_type_none, data_format_type_base32, data_format_type_base32hex, data_format_type_base64]"
    "list_all (\<lambda>i. list_all (?bad i) [data_format_type_base32, data_format_type_base32hex, data_format_type_base64, data_format_type_none, data_format_type_utf_any])
      [data_format_type_utf8, data_format_type_utf16le, data_format_type_utf16be]" by code_simp+
  then have "?bad input output" using assms unfolding list_all_iff list.set by blast
  then show ?thesis by (auto simp: dispatch_data_create_with_transform_def)
qed

theorem with_transform_rejects_other_family_witness:
  "dispatch_data_create_with_transform 4 data_format_type_utf8 data_format_type_base64 (\<lambda>_. True) None None sample_heap = Inr (None, sample_heap)"
  by (rule with_transform_rejects_other_family) simp

end
