(* ===== verification/Thread_Lists.thy ===== *)
theory Thread_Lists
  imports Dispatch_Prelude
begin

text \<open>
  The program counters of a fixed number of threads as a list, and how many of them are in a
  given part of the code; shared by the semaphore and the group.
\<close>

definition at_pc :: "('pc \<Rightarrow> bool) \<Rightarrow> 'pc list \<Rightarrow> nat" where
  "at_pc P pcs = length (filter P pcs)"

lemma at_pc_update:
  assumes "i < length pcs"
  shows "at_pc P (pcs[i := pc]) + of_bool (P (pcs ! i)) = at_pc P pcs + of_bool (P pc)"
  using assms
proof (induction pcs arbitrary: i)
  case (Cons q pcs)
  then show ?case by (cases i) (fastforce simp: at_pc_def)+
qed simp

lemma at_pc_moves:
  assumes "i < length pcs" "pcs ! i = q"
  shows "P q \<Longrightarrow> P pc \<Longrightarrow> at_pc P (pcs[i := pc]) = at_pc P pcs"
    and "\<not> P q \<Longrightarrow> \<not> P pc \<Longrightarrow> at_pc P (pcs[i := pc]) = at_pc P pcs"
    and "\<not> P q \<Longrightarrow> P pc \<Longrightarrow> at_pc P (pcs[i := pc]) = Suc (at_pc P pcs)"
    and "P q \<Longrightarrow> \<not> P pc \<Longrightarrow> at_pc P pcs = Suc (at_pc P (pcs[i := pc]))"
  using at_pc_update [OF assms(1), of P pc] assms(2) by simp_all

lemma at_pc_le: "at_pc P pcs \<le> length pcs"
  by (simp add: at_pc_def)

lemma at_pc_pos: "0 < at_pc P pcs \<longleftrightarrow> (\<exists>i < length pcs. P (pcs ! i))"
  by (auto simp: at_pc_def filter_empty_conv Bex_def in_set_conv_nth)

lemma at_pc_none: "(\<And>i. i < length pcs \<Longrightarrow> \<not> P (pcs ! i)) \<Longrightarrow> at_pc P pcs = 0"
  using at_pc_pos [of P pcs] by auto

lemma at_pc_replicate: "\<not> P pc \<Longrightarrow> at_pc P (replicate n pc) = 0"
  by (simp add: at_pc_def)

text \<open>What the threads hold together, thread by thread.\<close>

definition pc_sum :: "('pc \<Rightarrow> 'b::comm_monoid_add) \<Rightarrow> 'pc list \<Rightarrow> 'b" where
  "pc_sum f pcs = sum_list (map f pcs)"

lemma pc_sum_update:
  assumes "i < length pcs"
  shows "pc_sum f (pcs[i := pc]) + f (pcs ! i) = pc_sum f pcs + f pc"
  using assms
proof (induction pcs arbitrary: i)
  case (Cons q pcs)
  show ?case
  proof (cases i)
    case (Suc j)
    then have "pc_sum f (pcs[j := pc]) + f (pcs ! j) = pc_sum f pcs + f pc" using Cons by simp
    then show ?thesis using Suc by (simp add: pc_sum_def add.assoc)
  qed (simp add: pc_sum_def add.commute add.left_commute)
qed simp

lemma pc_sum_zero: "(\<And>pc. pc \<in> set pcs \<Longrightarrow> f pc = 0) \<Longrightarrow> pc_sum f pcs = 0"
  by (induction pcs) (simp_all add: pc_sum_def)

lemma pc_sum_replicate: "f pc = 0 \<Longrightarrow> pc_sum f (replicate n pc) = 0"
  by (rule pc_sum_zero) simp

lemma pc_sum_nonneg: "(\<And>pc. 0 \<le> (f pc :: int)) \<Longrightarrow> 0 \<le> pc_sum f pcs"
  unfolding pc_sum_def by (rule sum_list_nonneg) auto

lemma pc_sum_member:
  assumes "\<And>pc. 0 \<le> (f pc :: int)" "i < length pcs"
  shows "f (pcs ! i) \<le> pc_sum f pcs"
  unfolding pc_sum_def using assms
  by (intro member_le_sum_list) (auto simp: nth_mem)

lemma pc_sum_mono: "(\<And>pc. pc \<in> set pcs \<Longrightarrow> (f pc :: int) \<le> g pc) \<Longrightarrow> pc_sum f pcs \<le> pc_sum g pcs"
  unfolding pc_sum_def by (rule sum_list_mono)

lemma pc_sum_Cons: "pc_sum f (pc # pcs) = f pc + pc_sum f pcs"
  by (simp add: pc_sum_def)

end
