(* ===== verification/Dispatch_Time.thy ===== *)
theory Dispatch_Time
  imports Dispatch_Prelude
begin

text \<open>
  \<open>time.c\<close> and \<open>shims/time.h\<close> (x86_64: Mach time is in nanoseconds): the encoding of points in time
  as \<open>dispatch_time_t\<close>, adding an interval, the time left. The clocks are read once per call.
\<close>

section \<open>Clocks and the operations\<close>

text \<open>What \<open>mach_absolute_time\<close> and \<open>gettimeofday\<close> return.\<close>

record clocks =
  clk_absolute :: u64
  clk_sec :: u64
  clk_usec :: u64

definition NSEC_PER_SEC :: u64 where "NSEC_PER_SEC = 1000000000"
definition NSEC_PER_USEC :: u64 where "NSEC_PER_USEC = 1000"

definition DISPATCH_TIME_NOW :: u64 where "DISPATCH_TIME_NOW = 0"
definition DISPATCH_TIME_FOREVER :: u64 where "DISPATCH_TIME_FOREVER = -1"

definition dispatch_get_nanoseconds :: "clocks \<Rightarrow> u64" where
  "dispatch_get_nanoseconds clk = clk_sec clk * NSEC_PER_SEC + clk_usec clk * NSEC_PER_USEC"

definition dispatch_absolute_time :: "clocks \<Rightarrow> u64" where
  "dispatch_absolute_time clk = clk_absolute clk"

definition dispatch_approximate_time :: "clocks \<Rightarrow> u64" where
  "dispatch_approximate_time clk = dispatch_absolute_time clk"

definition dispatch_time_mach2nano :: "u64 \<Rightarrow> u64" where "dispatch_time_mach2nano machtime = machtime"
definition dispatch_time_nano2mach :: "u64 \<Rightarrow> u64" where "dispatch_time_nano2mach nsec = nsec"

definition dispatch_time :: "clocks \<Rightarrow> u64 \<Rightarrow> u64 \<Rightarrow> u64" where
  "dispatch_time clk inval delta =
     (if inval = DISPATCH_TIME_FOREVER then DISPATCH_TIME_FOREVER
      else if sint inval < 0 then
        (if 0 \<le> sint delta then
           (let inval = inval - delta
            in if 0 \<le> sint inval then DISPATCH_TIME_FOREVER else inval)
         else
           (let inval = inval + - delta
            in if -1 \<le> sint inval then -2 else inval))
      else
        (let inval = (if inval = 0 then dispatch_absolute_time clk else inval)
         in if 0 \<le> sint delta then
              (let inval = inval + dispatch_time_nano2mach delta
               in if sint inval \<le> 0 then DISPATCH_TIME_FOREVER else inval)
            else
              (let inval = inval - dispatch_time_nano2mach (- delta)
               in if sint inval < 1 then 1 else inval)))"

text \<open>The \<open>timespec\<close> is a pair of seconds and nanoseconds, \<open>None\<close> for the null pointer.\<close>

definition dispatch_walltime :: "clocks \<Rightarrow> (u64 \<times> u64) option \<Rightarrow> u64 \<Rightarrow> u64" where
  "dispatch_walltime clk inval delta =
     (let nsec = (case inval of Some (tv_sec, tv_nsec) \<Rightarrow> tv_sec * 1000000000 + tv_nsec
                  | None \<Rightarrow> dispatch_get_nanoseconds clk);
          nsec = nsec + delta
      in if sint nsec \<le> 1 then (if 0 \<le> sint delta then DISPATCH_TIME_FOREVER else -2)
         else - nsec)"

definition dispatch_timeout :: "clocks \<Rightarrow> u64 \<Rightarrow> u64" where
  "dispatch_timeout clk w =
     (if w = DISPATCH_TIME_FOREVER then DISPATCH_TIME_FOREVER
      else if w = 0 then 0
      else if sint w < 0 then
        (let w = - w; now = dispatch_get_nanoseconds clk in if w \<le> now then 0 else w - now)
      else
        (let now = dispatch_absolute_time clk
         in if w \<le> now then 0 else dispatch_time_mach2nano (w - now)))"

definition dispatch_time_nanoseconds_since_epoch :: "clocks \<Rightarrow> u64 \<Rightarrow> u64" where
  "dispatch_time_nanoseconds_since_epoch clk w =
     (if w = DISPATCH_TIME_FOREVER then DISPATCH_TIME_FOREVER
      else if sint w < 0 then - w
      else dispatch_get_nanoseconds clk + dispatch_timeout clk w)"

section \<open>Points in time\<close>

text \<open>What a \<open>dispatch_time_t\<close> stands for, and the contract of adding an interval: it saturates.\<close>

datatype point = Forever | Now | Wall int | Mach int

definition point_of :: "u64 \<Rightarrow> point" where
  "point_of t = (if t = -1 then Forever else if t = 0 then Now
     else if sint t < 0 then Wall (- sint t) else Mach (sint t))"

definition mach_after :: "int \<Rightarrow> int \<Rightarrow> point" where
  "mach_after m d = (if 2 ^ 63 \<le> m + d then Forever else if m + d < 1 then Mach 1 else Mach (m + d))"

fun point_after :: "int \<Rightarrow> point \<Rightarrow> int \<Rightarrow> point" where
  "point_after now Forever d = Forever"
| "point_after now Now d = mach_after now d"
| "point_after now (Wall w) d = (if 2 ^ 63 < w + d then Forever else if w + d \<le> 1 then Wall 2 else Wall (w + d))"
| "point_after now (Mach m) d = mach_after m d"

section \<open>Signed readings\<close>

definition wrap64 :: "int \<Rightarrow> int" where
  "wrap64 k = (if 2 ^ 63 \<le> k then k - 2 ^ 64 else if k < - (2 ^ 63) then k + 2 ^ 64 else k)"

lemma signed_take_bit_wrap:
  assumes "- (2 ^ 64) \<le> k" "k < 2 ^ 64"
  shows "signed_take_bit 63 k = wrap64 (k :: int)"
proof -
  have e: "signed_take_bit 63 k = (k + 2 ^ 63) mod 2 ^ 64 - 2 ^ 63"
    by (simp add: signed_take_bit_eq_take_bit_shift take_bit_eq_mod)
  define x where "x = k + 2 ^ 63"
  consider "x < 0" | "0 \<le> x" "x < 2 ^ 64" | "2 ^ 64 \<le> x" by linarith
  then have "x mod 2 ^ 64 = (if x < 0 then x + 2 ^ 64 else if x < 2 ^ 64 then x else x - 2 ^ 64)"
  proof cases
    case 1
    have "x mod 2 ^ 64 = (x + 2 ^ 64) mod 2 ^ 64" by (simp only: mod_add_self2)
    moreover have "0 \<le> x + 2 ^ 64" "x + 2 ^ 64 < 2 ^ 64" using 1 assms by (simp_all add: x_def)
    ultimately show ?thesis using 1 by (simp only: mod_pos_pos_trivial if_True)
  next
    case 2
    then show ?thesis by simp
  next
    case 3
    have "x mod 2 ^ 64 = (x - 2 ^ 64 + 2 ^ 64) mod 2 ^ 64" by (simp only: diff_add_cancel)
    also have "\<dots> = (x - 2 ^ 64) mod 2 ^ 64" by (simp only: mod_add_self2)
    moreover have "0 \<le> x - 2 ^ 64" "x - 2 ^ 64 < 2 ^ 64" using 3 assms by (simp_all add: x_def)
    ultimately have "x mod 2 ^ 64 = x - 2 ^ 64" by (simp only: mod_pos_pos_trivial)
    then show ?thesis using 3 by simp
  qed
  then show ?thesis unfolding e wrap64_def using assms by (simp add: x_def)
qed

lemma sint_range: "- (2 ^ 63) \<le> sint (w :: u64)" "sint (w :: u64) < 2 ^ 63"
  using sint_ge [of w] sint_lt [of w] by simp_all

lemma sint_wrap:
  "sint (a + b :: u64) = wrap64 (sint a + sint b)" "sint (a - b :: u64) = wrap64 (sint a - sint b)"
  "sint (- b :: u64) = wrap64 (- sint b)"
  using sint_range [of a] sint_range [of b]
  by (simp_all add: sint_word_ariths signed_take_bit_wrap)

lemma sint_eq: "w = (v :: u64) \<longleftrightarrow> sint w = sint v"
  by (auto intro: signed_word_eqI)

lemma point_of_sint: "point_of t = (if sint t = -1 then Forever else if sint t = 0 then Now
    else if sint t < 0 then Wall (- sint t) else Mach (sint t))"
  unfolding point_of_def by (simp add: sint_eq)

section \<open>Adding an interval\<close>

text \<open>
  C36. Adding an interval to a dispatch_time_t saturates: it stays on its clock, a result past
  the end of the clock is forever, one before its start is the earliest point of the clock, and
  forever stays forever.
\<close>
theorem dispatch_time_refines:
  assumes "0 < sint (clk_absolute clk)"
  shows "point_of (dispatch_time clk t delta) = point_after (sint (clk_absolute clk)) (point_of t) (sint delta)"
proof -
  note r = sint_range [of t] sint_range [of delta] sint_range [of "clk_absolute clk"]
  consider "sint t = -1" | "sint t = 0" | "sint t < -1" | "0 < sint t" by linarith
  then show ?thesis
  proof cases
    case 1
    then show ?thesis by (simp add: dispatch_time_def point_of_sint DISPATCH_TIME_FOREVER_def sint_eq)
  next
    case 2
    then have "t = 0" by (simp add: sint_eq)
    then show ?thesis using r assms
      by (auto simp: dispatch_time_def point_of_sint DISPATCH_TIME_FOREVER_def mach_after_def Let_def
          dispatch_absolute_time_def dispatch_time_nano2mach_def sint_wrap wrap64_def)
  next
    case 3
    then have "t \<noteq> -1" by (auto simp: sint_eq)
    then show ?thesis using r 3
      by (auto simp: dispatch_time_def point_of_sint DISPATCH_TIME_FOREVER_def Let_def sint_wrap wrap64_def)
  next
    case 4
    then have "t \<noteq> -1" "t \<noteq> 0" by (auto simp: sint_eq)
    then show ?thesis using r 4
      by (auto simp: dispatch_time_def point_of_sint DISPATCH_TIME_FOREVER_def Let_def mach_after_def
          dispatch_time_nano2mach_def sint_wrap wrap64_def)
  qed
qed

theorem dispatch_time_refines_witness:
  "point_of (dispatch_time \<lparr>clk_absolute = 100, clk_sec = 0, clk_usec = 0\<rparr> 5 (-7)) = Mach 1"
proof -
  have "sint (-7 :: u64) = -7" "sint (5 :: u64) = 5" "sint (100 :: u64) = 100" by code_simp+
  then show ?thesis
    using dispatch_time_refines [of "\<lparr>clk_absolute = 100, clk_sec = 0, clk_usec = 0\<rparr>" 5 "-7"]
    by (simp add: point_of_def mach_after_def)
qed

theorem timeout_is_the_interval:
  assumes "0 \<le> sint delta" "0 < sint (clk_absolute clk)" "1 < sint (dispatch_get_nanoseconds clk)"
    and "sint (clk_absolute clk) + sint delta < 2 ^ 63" "sint (dispatch_get_nanoseconds clk) + sint delta < 2 ^ 63"
  shows "dispatch_timeout clk (dispatch_time clk DISPATCH_TIME_NOW delta) = delta
    \<and> dispatch_timeout clk (dispatch_walltime clk None delta) = delta"
proof -
  let ?a = "clk_absolute clk" and ?n = "dispatch_get_nanoseconds clk"
  have u: "uint a = sint a" if "0 \<le> sint a" for a :: u64
    using that sint_range [of a] by (simp add: uint_sint take_bit_int_eq_self)
  have le: "a \<le> b \<longleftrightarrow> sint a \<le> sint b" if "0 \<le> sint a" "0 \<le> sint b" for a b :: u64
    using that by (simp add: word_le_def u)
  have zero: "delta = 0 \<longleftrightarrow> sint delta = 0" by (simp add: sint_eq)
  have s: "sint (?a + delta) = sint ?a + sint delta" "sint (?n + delta) = sint ?n + sint delta"
    "sint (- (?n + delta)) = - (sint ?n + sint delta)"
    using assms by (simp_all add: sint_wrap wrap64_def)
  have ne: "?a + delta \<noteq> 0" "?a + delta \<noteq> -1" "- (?n + delta) \<noteq> 0" "- (?n + delta) \<noteq> -1"
    using assms unfolding sint_eq s by simp_all
  have "dispatch_time clk DISPATCH_TIME_NOW delta = ?a + delta"
    using assms s by (simp add: dispatch_time_def DISPATCH_TIME_NOW_def DISPATCH_TIME_FOREVER_def Let_def dispatch_absolute_time_def
        dispatch_time_nano2mach_def)
  moreover have "dispatch_timeout clk (?a + delta) = delta"
    using assms s ne le [of "?a + delta" ?a] zero
    by (simp add: dispatch_timeout_def DISPATCH_TIME_FOREVER_def dispatch_absolute_time_def dispatch_time_mach2nano_def Let_def)
  moreover have "dispatch_walltime clk None delta = - (?n + delta)"
    using assms s by (simp add: dispatch_walltime_def Let_def)
  moreover have "dispatch_timeout clk (- (?n + delta)) = delta"
  proof -
    define x where "x = ?n + delta"
    have neg: "sint (- x) < 0" using assms by (simp only: s x_def)
    have ne2: "- x \<noteq> 0" "- x \<noteq> -1" using ne by (simp_all only: x_def not_False_eq_True)
    have x: "x \<le> ?n \<longleftrightarrow> delta = 0" "x - ?n = delta" using assms s le [of "?n + delta" ?n] zero by (simp_all add: x_def)
    have "dispatch_timeout clk (- x) = delta"
      unfolding dispatch_timeout_def DISPATCH_TIME_FOREVER_def Let_def using ne2 neg x by simp
    then show ?thesis by (simp only: x_def)
  qed
  ultimately show ?thesis by simp
qed

theorem timeout_is_the_interval_witness:
  "dispatch_timeout \<lparr>clk_absolute = 100, clk_sec = 1, clk_usec = 5\<rparr>
     (dispatch_time \<lparr>clk_absolute = 100, clk_sec = 1, clk_usec = 5\<rparr> DISPATCH_TIME_NOW 7) = 7"
proof -
  have "sint (7 :: u64) = 7" "sint (100 :: u64) = 100" "sint (1000005000 :: u64) = 1000005000" by code_simp+
  then show ?thesis
    using timeout_is_the_interval [of 7 "\<lparr>clk_absolute = 100, clk_sec = 1, clk_usec = 5\<rparr>"]
    by (simp add: dispatch_get_nanoseconds_def NSEC_PER_SEC_def NSEC_PER_USEC_def)
qed

end
