(* ===== verification/Semaphore.thy ===== *)
theory Semaphore
  imports Thread_Lists Dispatch_Time
begin

text \<open>
  \<open>dispatch_semaphore_t\<close> of \<open>semaphore.c\<close> on Mach semaphores: the atomic operations on
  \<open>dsema_value\<close>, the slow paths around the kernel semaphore, and their interleavings by any number
  of threads. \<open>dsema_value\<close> is a \<open>long\<close>: an integer that wraps at 64 bits.
\<close>

section \<open>The operations\<close>

record semaphore =
  sm_value :: int
  sm_orig :: int
  sm_port :: bool
  sm_kernel :: nat

definition LONG_MIN :: int where "LONG_MIN = - (2 ^ 63)"
definition LONG_MAX :: int where "LONG_MAX = 2 ^ 63 - 1"

text \<open>\<open>None\<close> is \<open>DISPATCH_BAD_INPUT\<close>. The port of the kernel semaphore is made on first use.\<close>

definition dispatch_semaphore_class_init :: "int \<Rightarrow> semaphore" where
  "dispatch_semaphore_class_init v = \<lparr>sm_value = v, sm_orig = 0, sm_port = False, sm_kernel = 0\<rparr>"

definition dispatch_semaphore_create :: "int \<Rightarrow> semaphore option" where
  "dispatch_semaphore_create v =
     (if v < 0 then None else Some ((dispatch_semaphore_class_init v)\<lparr>sm_orig := v\<rparr>))"

definition dispatch_semaphore_create_port :: "semaphore \<Rightarrow> semaphore" where
  "dispatch_semaphore_create_port s = (if sm_port s then s else s\<lparr>sm_port := True\<rparr>)"

text \<open>The class disposal destroys the port; \<open>None\<close> is the crash of the check before it.\<close>

definition dispatch_semaphore_class_dispose :: "semaphore \<Rightarrow> semaphore" where
  "dispatch_semaphore_class_dispose s = s\<lparr>sm_port := False, sm_kernel := 0\<rparr>"

definition dispatch_semaphore_dispose :: "semaphore \<Rightarrow> semaphore option" where
  "dispatch_semaphore_dispose s =
     (if sm_value s < sm_orig s then None else Some (dispatch_semaphore_class_dispose s))"

datatype signal_result = SignalReturn | SignalCrash | SignalSlow

definition dispatch_semaphore_signal :: "semaphore \<Rightarrow> signal_result \<times> semaphore" where
  "dispatch_semaphore_signal s =
     (let v = wrap64 (sm_value s + 1); s = s\<lparr>sm_value := v\<rparr>
      in if 0 < v then (SignalReturn, s)
         else if v = LONG_MIN then (SignalCrash, s)
         else (SignalSlow, s))"

definition dispatch_semaphore_signal_slow :: "semaphore \<Rightarrow> semaphore" where
  "dispatch_semaphore_signal_slow s =
     (let s = dispatch_semaphore_create_port s in s\<lparr>sm_kernel := Suc (sm_kernel s)\<rparr>)"

text \<open>True when the wait has succeeded without the kernel.\<close>

definition dispatch_semaphore_wait :: "semaphore \<Rightarrow> bool \<times> semaphore" where
  "dispatch_semaphore_wait s =
     (let v = wrap64 (sm_value s - 1) in (0 \<le> v, s\<lparr>sm_value := v\<rparr>))"

text \<open>
  \<open>_dispatch_semaphore_wait_slow\<close> between two accesses to shared state: \<open>WEnter\<close> before the port
  is made, \<open>WTimed\<close> in \<open>semaphore_timedwait\<close>, \<open>WUndo orig\<close> in the loop that gives the decrement back,
  \<open>WDrain\<close> in \<open>semaphore_wait\<close>. A wake-up from the kernel takes one of its signals.
\<close>

datatype wait_pc = WEnter u64 | WTimed u64 | WUndo int | WDrain

datatype wait_result = WaitMore wait_pc | WaitSuccess | WaitTimedOut

definition wait_enter :: "u64 \<Rightarrow> semaphore \<Rightarrow> wait_result \<times> semaphore" where
  "wait_enter timeout s =
     (let s = dispatch_semaphore_create_port s
      in (WaitMore (if timeout = DISPATCH_TIME_NOW then WUndo (sm_value s)
                    else if timeout = DISPATCH_TIME_FOREVER then WDrain
                    else WTimed timeout), s))"

text \<open>What the kernel answers: woken, timed out, or interrupted.\<close>

datatype kern_return = KERN_SUCCESS | KERN_OPERATION_TIMED_OUT | KERN_ABORTED

definition wait_timed :: "kern_return \<Rightarrow> u64 \<Rightarrow> semaphore \<Rightarrow> wait_result \<times> semaphore" where
  "wait_timed kr timeout s =
     (case kr of
        KERN_ABORTED \<Rightarrow> (WaitMore (WTimed timeout), s)
      | KERN_SUCCESS \<Rightarrow> (WaitSuccess, s\<lparr>sm_kernel := sm_kernel s - 1\<rparr>)
      | KERN_OPERATION_TIMED_OUT \<Rightarrow> (WaitMore (WUndo (sm_value s)), s))"

text \<open>One round of the compare-and-swap loop; \<open>weak\<close> says that it fails spuriously.\<close>

definition wait_undo :: "bool \<Rightarrow> int \<Rightarrow> semaphore \<Rightarrow> wait_result \<times> semaphore" where
  "wait_undo weak orig s =
     (if orig < 0 then
        (if sm_value s = orig \<and> \<not> weak then (WaitTimedOut, s\<lparr>sm_value := orig + 1\<rparr>)
         else (WaitMore (WUndo (sm_value s)), s))
      else (WaitMore WDrain, s))"

definition wait_drain :: "kern_return \<Rightarrow> semaphore \<Rightarrow> wait_result \<times> semaphore" where
  "wait_drain kr s =
     (case kr of KERN_ABORTED \<Rightarrow> (WaitMore WDrain, s)
      | _ \<Rightarrow> (WaitSuccess, s\<lparr>sm_kernel := sm_kernel s - 1\<rparr>))"

section \<open>Threads\<close>

datatype sema_pc = SIdle | SSignal | SWait wait_pc

text \<open>
  The semaphore, the threads that use it, whether the process crashed, and two ghost counters:
  the signals given and the waits that succeeded.
\<close>

record sema_config =
  sc_sema :: semaphore
  sc_pcs :: "sema_pc list"
  sc_crashed :: bool
  sc_signals :: int
  sc_acquired :: int

definition finish_wait :: "sema_config \<Rightarrow> nat \<Rightarrow> wait_result \<times> semaphore \<Rightarrow> sema_config" where
  "finish_wait c i r = (case r of
     (WaitMore pc, s) \<Rightarrow> c\<lparr>sc_sema := s, sc_pcs := (sc_pcs c)[i := SWait pc]\<rparr>
   | (WaitSuccess, s) \<Rightarrow> c\<lparr>sc_sema := s, sc_pcs := (sc_pcs c)[i := SIdle], sc_acquired := sc_acquired c + 1\<rparr>
   | (WaitTimedOut, s) \<Rightarrow> c\<lparr>sc_sema := s, sc_pcs := (sc_pcs c)[i := SIdle]\<rparr>)"

inductive sema_step :: "sema_config \<Rightarrow> sema_config \<Rightarrow> bool" where
  signal_fast: "i < length (sc_pcs c) \<Longrightarrow> \<not> sc_crashed c \<Longrightarrow> sc_pcs c ! i = SIdle \<Longrightarrow>
    dispatch_semaphore_signal (sc_sema c) = (SignalReturn, s) \<Longrightarrow>
    sema_step c (c\<lparr>sc_sema := s, sc_signals := sc_signals c + 1\<rparr>)"
| signal_crash: "i < length (sc_pcs c) \<Longrightarrow> \<not> sc_crashed c \<Longrightarrow> sc_pcs c ! i = SIdle \<Longrightarrow>
    dispatch_semaphore_signal (sc_sema c) = (SignalCrash, s) \<Longrightarrow>
    sema_step c (c\<lparr>sc_sema := s, sc_crashed := True\<rparr>)"
| signal_slow: "i < length (sc_pcs c) \<Longrightarrow> \<not> sc_crashed c \<Longrightarrow> sc_pcs c ! i = SIdle \<Longrightarrow>
    dispatch_semaphore_signal (sc_sema c) = (SignalSlow, s) \<Longrightarrow>
    sema_step c (c\<lparr>sc_sema := s, sc_pcs := (sc_pcs c)[i := SSignal], sc_signals := sc_signals c + 1\<rparr>)"
| signal_post: "i < length (sc_pcs c) \<Longrightarrow> \<not> sc_crashed c \<Longrightarrow> sc_pcs c ! i = SSignal \<Longrightarrow>
    sema_step c (c\<lparr>sc_sema := dispatch_semaphore_signal_slow (sc_sema c), sc_pcs := (sc_pcs c)[i := SIdle]\<rparr>)"
| wait_fast: "i < length (sc_pcs c) \<Longrightarrow> \<not> sc_crashed c \<Longrightarrow> sc_pcs c ! i = SIdle \<Longrightarrow>
    dispatch_semaphore_wait (sc_sema c) = (True, s) \<Longrightarrow>
    sema_step c (c\<lparr>sc_sema := s, sc_acquired := sc_acquired c + 1\<rparr>)"
| wait_slow: "i < length (sc_pcs c) \<Longrightarrow> \<not> sc_crashed c \<Longrightarrow> sc_pcs c ! i = SIdle \<Longrightarrow>
    dispatch_semaphore_wait (sc_sema c) = (False, s) \<Longrightarrow>
    sema_step c (c\<lparr>sc_sema := s, sc_pcs := (sc_pcs c)[i := SWait (WEnter timeout)]\<rparr>)"
| enter: "i < length (sc_pcs c) \<Longrightarrow> \<not> sc_crashed c \<Longrightarrow> sc_pcs c ! i = SWait (WEnter timeout) \<Longrightarrow>
    sema_step c (finish_wait c i (wait_enter timeout (sc_sema c)))"
| timed: "i < length (sc_pcs c) \<Longrightarrow> \<not> sc_crashed c \<Longrightarrow> sc_pcs c ! i = SWait (WTimed timeout) \<Longrightarrow>
    kr = KERN_SUCCESS \<longrightarrow> 0 < sm_kernel (sc_sema c) \<Longrightarrow>
    sema_step c (finish_wait c i (wait_timed kr timeout (sc_sema c)))"
| undo: "i < length (sc_pcs c) \<Longrightarrow> \<not> sc_crashed c \<Longrightarrow> sc_pcs c ! i = SWait (WUndo orig) \<Longrightarrow>
    sema_step c (finish_wait c i (wait_undo weak orig (sc_sema c)))"
| drain: "i < length (sc_pcs c) \<Longrightarrow> \<not> sc_crashed c \<Longrightarrow> sc_pcs c ! i = SWait WDrain \<Longrightarrow>
    kr \<noteq> KERN_OPERATION_TIMED_OUT \<Longrightarrow> kr = KERN_SUCCESS \<longrightarrow> 0 < sm_kernel (sc_sema c) \<Longrightarrow>
    sema_step c (finish_wait c i (wait_drain kr (sc_sema c)))"

inductive_cases sema_stepE: "sema_step c c'"

definition sema_init :: "semaphore \<Rightarrow> nat \<Rightarrow> sema_config" where
  "sema_init s n = \<lparr>sc_sema = s, sc_pcs = replicate n SIdle, sc_crashed = False, sc_signals = 0, sc_acquired = 0\<rparr>"

inductive sema_reachable :: "int \<Rightarrow> nat \<Rightarrow> sema_config \<Rightarrow> bool" for v n where
  init: "dispatch_semaphore_create v = Some s \<Longrightarrow> sema_reachable v n (sema_init s n)"
| step: "sema_reachable v n c \<Longrightarrow> sema_step c c' \<Longrightarrow> sema_reachable v n c'"

section \<open>No wake-up is lost\<close>

fun is_waiting :: "sema_pc \<Rightarrow> bool" where
  "is_waiting (SWait pc) = True"
| "is_waiting pc = False"

definition sema_waiting :: "sema_config \<Rightarrow> nat" where "sema_waiting c = at_pc is_waiting (sc_pcs c)"
definition sema_signalling :: "sema_config \<Rightarrow> nat" where "sema_signalling c = at_pc (\<lambda>pc. pc = SSignal) (sc_pcs c)"

text \<open>
  The threads in the slow path are those the value owes, those for whom the kernel holds a signal
  and those for whom a signaller is about to post one.
\<close>

definition sema_inv :: "sema_config \<Rightarrow> bool" where
  "sema_inv c = (LONG_MIN < sm_value (sc_sema c) \<and> sm_value (sc_sema c) \<le> LONG_MAX \<and>
     int (sema_waiting c) = max 0 (- sm_value (sc_sema c)) + int (sm_kernel (sc_sema c)) + int (sema_signalling c) \<and>
     sm_value (sc_sema c) + int (sema_waiting c) = sm_orig (sc_sema c) + sc_signals c - sc_acquired c)"

lemma wait_result_inv:
  assumes i: "i < length (sc_pcs c)" "sc_pcs c ! i = SWait pc" and inv: "sema_inv c"
    and r: "case r of (WaitMore pc', s) \<Rightarrow> sm_value s = sm_value (sc_sema c) \<and> sm_kernel s = sm_kernel (sc_sema c)
        | (WaitSuccess, s) \<Rightarrow> sm_value s = sm_value (sc_sema c) \<and> 0 < sm_kernel (sc_sema c) \<and> sm_kernel s = sm_kernel (sc_sema c) - 1
        | (WaitTimedOut, s) \<Rightarrow> sm_value (sc_sema c) < 0 \<and> sm_value s = sm_value (sc_sema c) + 1 \<and> sm_kernel s = sm_kernel (sc_sema c)"
    and orig: "sm_orig (snd r) = sm_orig (sc_sema c)"
  shows "sema_inv (finish_wait c i r)"
proof -
  obtain wr s where rs: "r = (wr, s)" by (cases r)
  note m = at_pc_moves [OF i]
  show ?thesis
  proof (cases wr)
    case (WaitMore pc')
    then show ?thesis using inv r orig m(1) [of is_waiting "SWait pc'"] m(2) [of "\<lambda>pc. pc = SSignal" "SWait pc'"]
      by (simp add: rs finish_wait_def sema_inv_def sema_waiting_def sema_signalling_def)
  next
    case WaitSuccess
    then show ?thesis using inv r orig m(4) [of is_waiting SIdle] m(2) [of "\<lambda>pc. pc = SSignal" SIdle]
      by (simp add: rs finish_wait_def sema_inv_def sema_waiting_def sema_signalling_def)
  next
    case WaitTimedOut
    then show ?thesis using inv r orig m(4) [of is_waiting SIdle] m(2) [of "\<lambda>pc. pc = SSignal" SIdle]
      by (auto simp: rs finish_wait_def sema_inv_def sema_waiting_def sema_signalling_def LONG_MAX_def)
  qed
qed

lemma wrap64_near: "LONG_MIN \<le> v \<Longrightarrow> v \<le> LONG_MAX \<Longrightarrow> wrap64 v = v"
  by (simp add: wrap64_def LONG_MIN_def LONG_MAX_def)

lemma port_simps [simp]:
  "sm_value (dispatch_semaphore_create_port s) = sm_value s" "sm_kernel (dispatch_semaphore_create_port s) = sm_kernel s"
  "sm_orig (dispatch_semaphore_create_port s) = sm_orig s"
  by (simp_all add: dispatch_semaphore_create_port_def)

lemma finish_simps [simp]:
  "sc_crashed (finish_wait c i r) = sc_crashed c" "length (sc_pcs (finish_wait c i r)) = length (sc_pcs c)"
  by (auto simp: finish_wait_def split: prod.splits wait_result.splits)

lemma signal_cases:
  assumes "LONG_MIN < sm_value s" "sm_value s \<le> LONG_MAX" "dispatch_semaphore_signal s = (r, s')" "r \<noteq> SignalCrash"
  shows "sm_value s' = sm_value s + 1 \<and> sm_kernel s' = sm_kernel s \<and> sm_orig s' = sm_orig s \<and> sm_value s < LONG_MAX
    \<and> (r = SignalReturn \<longleftrightarrow> 0 \<le> sm_value s)"
proof (cases "sm_value s = LONG_MAX")
  case True
  then have "wrap64 (sm_value s + 1) = LONG_MIN" by (simp add: wrap64_def LONG_MIN_def LONG_MAX_def)
  then show ?thesis using assms(3,4) by (auto simp: dispatch_semaphore_signal_def Let_def LONG_MIN_def)
next
  case False
  then have "wrap64 (sm_value s + 1) = sm_value s + 1" using assms by (intro wrap64_near) auto
  then show ?thesis using assms False by (auto simp: dispatch_semaphore_signal_def Let_def split: if_splits)
qed

lemma sema_step_inv:
  assumes step: "sema_step c c'" and inv: "sema_inv c" and n: "int (length (sc_pcs c)) < LONG_MAX" and live: "\<not> sc_crashed c'"
  shows "sema_inv c'"
  using step
proof cases
  case (signal_fast i s)
  note v = signal_cases [of "sc_sema c", OF _ _ signal_fast(5)]
  show ?thesis using inv v unfolding signal_fast(1) by (auto simp: sema_inv_def sema_waiting_def sema_signalling_def)
next
  case (signal_crash i s)
  then show ?thesis using live by simp
next
  case (signal_slow i s)
  note v = signal_cases [of "sc_sema c", OF _ _ signal_slow(5)]
  note m = at_pc_moves [OF signal_slow(2,4)]
  show ?thesis using inv v m(2) [of is_waiting SSignal] m(3) [of "\<lambda>pc. pc = SSignal" SSignal]
    unfolding signal_slow(1) by (auto simp: sema_inv_def sema_waiting_def sema_signalling_def)
next
  case (signal_post i)
  note m = at_pc_moves [OF signal_post(2,4)]
  show ?thesis using inv m(2) [of is_waiting SIdle] m(4) [of "\<lambda>pc. pc = SSignal" SIdle]
    unfolding signal_post(1)
    by (simp add: sema_inv_def sema_waiting_def sema_signalling_def dispatch_semaphore_signal_slow_def Let_def)
next
  case (wait_fast i s)
  have "wrap64 (sm_value (sc_sema c) - 1) = sm_value (sc_sema c) - 1" using inv by (intro wrap64_near) (auto simp: sema_inv_def)
  then show ?thesis using inv wait_fast(5) unfolding wait_fast(1)
    by (auto simp: sema_inv_def sema_waiting_def sema_signalling_def dispatch_semaphore_wait_def Let_def LONG_MIN_def)
next
  case (wait_slow i s timeout)
  note m = at_pc_moves [OF wait_slow(2,4)]
  have w: "wrap64 (sm_value (sc_sema c) - 1) = sm_value (sc_sema c) - 1" using inv by (intro wrap64_near) (auto simp: sema_inv_def)
  have "at_pc is_waiting ((sc_pcs c)[i := SWait (WEnter timeout)]) \<le> length (sc_pcs c)"
    using at_pc_le [of is_waiting "(sc_pcs c)[i := SWait (WEnter timeout)]"] by simp
  then have "- int (length (sc_pcs c)) \<le> sm_value (sc_sema c) - 1"
    using inv m(3) [of is_waiting "SWait (WEnter timeout)"] max.cobounded2 [of "- sm_value (sc_sema c)" 0]
    by (simp add: sema_inv_def sema_waiting_def del: max.cobounded2)
  then have "LONG_MIN < sm_value (sc_sema c) - 1" using n by (simp add: LONG_MIN_def LONG_MAX_def)
  then show ?thesis using inv wait_slow(5) w m(3) [of is_waiting "SWait (WEnter timeout)"] m(2) [of "\<lambda>pc. pc = SSignal" "SWait (WEnter timeout)"]
    unfolding wait_slow(1) by (auto simp: sema_inv_def sema_waiting_def sema_signalling_def dispatch_semaphore_wait_def Let_def)
next
  case (enter i timeout)
  show ?thesis unfolding enter(1)
    by (rule wait_result_inv [OF enter(2,4) inv]) (simp_all add: wait_enter_def Let_def)
next
  case (timed i timeout kr)
  show ?thesis unfolding timed(1)
    by (rule wait_result_inv [OF timed(2,4) inv]) (use timed(5) in \<open>cases kr; simp add: wait_timed_def\<close>)+
next
  case (undo i orig weak)
  show ?thesis unfolding undo(1)
    by (rule wait_result_inv [OF undo(2,4) inv]) (auto simp: wait_undo_def)
next
  case (drain i kr)
  show ?thesis unfolding drain(1)
    by (rule wait_result_inv [OF drain(2,4) inv]) (use drain(5,6) in \<open>cases kr; simp add: wait_drain_def\<close>)+
qed

lemma sema_step_frame:
  "sema_step c c' \<Longrightarrow> length (sc_pcs c') = length (sc_pcs c)" "sema_step c c' \<Longrightarrow> \<not> sc_crashed c"
  by (auto elim!: sema_stepE)

lemma sema_init_inv:
  assumes "dispatch_semaphore_create v = Some s" "v \<le> LONG_MAX"
  shows "sema_inv (sema_init s n)"
  using assms by (auto simp: dispatch_semaphore_create_def dispatch_semaphore_class_init_def sema_init_def sema_inv_def sema_waiting_def
      sema_signalling_def at_pc_replicate LONG_MIN_def split: if_splits)

lemma sema_reachable_inv:
  assumes "sema_reachable v n c" "v \<le> LONG_MAX" "int n < LONG_MAX"
  shows "length (sc_pcs c) = n \<and> (\<not> sc_crashed c \<longrightarrow> sema_inv c)"
  using assms(1)
proof induction
  case (init s)
  then show ?case using sema_init_inv assms(2) by (auto simp: sema_init_def)
next
  case (step c c')
  then show ?case using sema_step_frame [OF step.hyps(2)] sema_step_inv [OF step.hyps(2)] assms(3) by auto
qed

text \<open>
  C37. In every interleaving of signals and waits with any timeouts, the threads in the slow
  path are exactly those the negative value owes, those for whom the kernel holds a signal and
  those a signaller is about to post for: no wake-up is lost and none is left over.
\<close>
theorem semaphore_loses_no_wakeup:
  assumes "sema_reachable v n c" "\<not> sc_crashed c" "v \<le> LONG_MAX" "int n < LONG_MAX"
  shows "int (sema_waiting c) = max 0 (- sm_value (sc_sema c)) + int (sm_kernel (sc_sema c)) + int (sema_signalling c)
    \<and> sc_acquired c \<le> sm_orig (sc_sema c) + sc_signals c"
proof -
  have inv: "sema_inv c" using sema_reachable_inv [OF assms(1,3,4)] assms(2) by blast
  then have "- sm_value (sc_sema c) \<le> int (sema_waiting c)"
    using max.cobounded2 [of "- sm_value (sc_sema c)" 0] by (simp add: sema_inv_def del: max.cobounded2)
  then show ?thesis using inv by (simp add: sema_inv_def)
qed

section \<open>A counting semaphore\<close>

datatype sema_event = ESignal | EAcquire | EInternal

fun counting_semaphore :: "sema_event \<Rightarrow> int \<Rightarrow> int option" where
  "counting_semaphore ESignal x = Some (x + 1)"
| "counting_semaphore EAcquire x = (if 0 < x then Some (x - 1) else None)"
| "counting_semaphore EInternal x = Some x"

definition sema_count :: "sema_config \<Rightarrow> int" where
  "sema_count c = sm_value (sc_sema c) + int (sema_waiting c)"

definition sema_event_of :: "sema_config \<Rightarrow> sema_config \<Rightarrow> sema_event" where
  "sema_event_of c c' = (if sc_signals c < sc_signals c' then ESignal
     else if sc_acquired c < sc_acquired c' then EAcquire else EInternal)"

lemma sema_step_counts:
  assumes "sema_step c c'" "\<not> sc_crashed c'"
  shows "sm_orig (sc_sema c') = sm_orig (sc_sema c) \<and>
    (sc_signals c' = sc_signals c + 1 \<and> sc_acquired c' = sc_acquired c \<or>
     sc_signals c' = sc_signals c \<and> sc_acquired c' = sc_acquired c + 1 \<or>
     sc_signals c' = sc_signals c \<and> sc_acquired c' = sc_acquired c)"
  using assms
  by (cases rule: sema_step.cases)
    (auto simp: dispatch_semaphore_signal_def dispatch_semaphore_signal_slow_def dispatch_semaphore_wait_def finish_wait_def wait_enter_def
      wait_timed_def wait_undo_def wait_drain_def Let_def split: if_splits kern_return.splits)

text \<open>
  C38. Every interleaving of the semaphore operations is a run of a counting semaphore: each
  signal adds one, each successful wait takes one and only when there is one, timeouts and the
  accesses in between change nothing.
\<close>
theorem semaphore_refines_counter:
  assumes "sema_reachable v n c" "sema_step c c'" "\<not> sc_crashed c'" "v \<le> LONG_MAX" "int n < LONG_MAX"
  shows "counting_semaphore (sema_event_of c c') (sema_count c) = Some (sema_count c')"
proof -
  have r: "sema_inv c" using sema_reachable_inv [OF assms(1,4,5)] sema_step_frame(2) [OF assms(2)] by blast
  have r': "sema_inv c'" using sema_reachable_inv [OF sema_reachable.step [OF assms(1,2)] assms(4,5)] assms(3) by blast
  have "0 \<le> sema_count c'"
    using r' max.cobounded2 [of "- sm_value (sc_sema c')" 0] by (simp add: sema_inv_def sema_count_def del: max.cobounded2)
  moreover have "sema_count c = sm_orig (sc_sema c) + sc_signals c - sc_acquired c"
    "sema_count c' = sm_orig (sc_sema c') + sc_signals c' - sc_acquired c'"
    using r r' by (simp_all add: sema_inv_def sema_count_def)
  ultimately show ?thesis using sema_step_counts [OF assms(2,3)] by (auto simp: sema_event_of_def)
qed

text \<open>A thread blocks on a semaphore made with no resources and another signals it.\<close>

definition sample_sema :: "int \<Rightarrow> bool \<Rightarrow> nat \<Rightarrow> semaphore" where
  "sample_sema v p k = \<lparr>sm_value = v, sm_orig = 0, sm_port = p, sm_kernel = k\<rparr>"

definition sample_config :: "semaphore \<Rightarrow> sema_pc \<Rightarrow> sema_pc \<Rightarrow> int \<Rightarrow> int \<Rightarrow> sema_config" where
  "sample_config s a b sig acq = \<lparr>sc_sema = s, sc_pcs = [a, b], sc_crashed = False, sc_signals = sig, sc_acquired = acq\<rparr>"

lemma sample_sema_run:
  "sema_reachable 0 2 (sample_config (sample_sema 0 True 0) (SWait WDrain) SSignal 1 0)"
  "sema_step (sample_config (sample_sema 0 True 0) (SWait WDrain) SSignal 1 0)
     (sample_config (sample_sema 0 True 1) (SWait WDrain) SIdle 1 0)"
proof -
  have 0: "sema_reachable 0 2 (sample_config (sample_sema 0 False 0) SIdle SIdle 0 0)"
    using sema_reachable.init [of 0 _ 2]
    by (simp add: dispatch_semaphore_create_def dispatch_semaphore_class_init_def sema_init_def sample_config_def sample_sema_def numeral_2_eq_2)
  have "sema_step (sample_config (sample_sema 0 False 0) SIdle SIdle 0 0)
     (sample_config (sample_sema (-1) False 0) (SWait (WEnter DISPATCH_TIME_FOREVER)) SIdle 0 0)"
    using sema_step.wait_slow [of 0 "sample_config (sample_sema 0 False 0) SIdle SIdle 0 0" "sample_sema (-1) False 0" DISPATCH_TIME_FOREVER]
    by (simp add: sample_config_def sample_sema_def dispatch_semaphore_wait_def wrap64_def)
  note 1 = sema_reachable.step [OF 0 this]
  have "sema_step (sample_config (sample_sema (-1) False 0) (SWait (WEnter DISPATCH_TIME_FOREVER)) SIdle 0 0)
     (sample_config (sample_sema (-1) True 0) (SWait WDrain) SIdle 0 0)"
    using sema_step.enter [of 0 "sample_config (sample_sema (-1) False 0) (SWait (WEnter DISPATCH_TIME_FOREVER)) SIdle 0 0" DISPATCH_TIME_FOREVER]
    by (simp add: sample_config_def sample_sema_def wait_enter_def finish_wait_def dispatch_semaphore_create_port_def
        DISPATCH_TIME_NOW_def DISPATCH_TIME_FOREVER_def)
  note 2 = sema_reachable.step [OF 1 this]
  have "sema_step (sample_config (sample_sema (-1) True 0) (SWait WDrain) SIdle 0 0)
     (sample_config (sample_sema 0 True 0) (SWait WDrain) SSignal 1 0)"
    using sema_step.signal_slow [of 1 "sample_config (sample_sema (-1) True 0) (SWait WDrain) SIdle 0 0" "sample_sema 0 True 0"]
    by (simp add: sample_config_def sample_sema_def dispatch_semaphore_signal_def wrap64_def LONG_MIN_def)
  note 3 = sema_reachable.step [OF 2 this]
  show "sema_reachable 0 2 (sample_config (sample_sema 0 True 0) (SWait WDrain) SSignal 1 0)" by (rule 3)
  show "sema_step (sample_config (sample_sema 0 True 0) (SWait WDrain) SSignal 1 0)
     (sample_config (sample_sema 0 True 1) (SWait WDrain) SIdle 1 0)"
    using sema_step.signal_post [of 1 "sample_config (sample_sema 0 True 0) (SWait WDrain) SSignal 1 0"]
    by (simp add: sample_config_def sample_sema_def dispatch_semaphore_signal_slow_def dispatch_semaphore_create_port_def)
qed

theorem semaphore_loses_no_wakeup_witness:
  "int (sema_waiting (sample_config (sample_sema 0 True 0) (SWait WDrain) SSignal 1 0)) = 0 + 0 + 1"
  using semaphore_loses_no_wakeup [OF sample_sema_run(1)]
  by (simp add: sample_config_def sample_sema_def LONG_MAX_def sema_signalling_def at_pc_def)

theorem semaphore_refines_counter_witness:
  "counting_semaphore EInternal (sema_count (sample_config (sample_sema 0 True 0) (SWait WDrain) SSignal 1 0))
     = Some (sema_count (sample_config (sample_sema 0 True 1) (SWait WDrain) SIdle 1 0))"
  using semaphore_refines_counter [OF sample_sema_run]
  by (simp add: sample_config_def LONG_MAX_def sema_event_of_def)

end
