(* ===== verification/Group.thy ===== *)
theory Group
  imports Semaphore "HOL-Library.Multiset"
begin

text \<open>
  \<open>dispatch_group_t\<close> of \<open>semaphore.c\<close>: entering and leaving, waiting and notifying, and the wake-up
  that ties them together, as interleavings of the threads' accesses to the group.
\<close>

section \<open>The group\<close>

text \<open>
  \<open>gr_list\<close> are the continuations pushed on the notification list since its tail was last taken,
  \<open>gr_head\<close> says whether \<open>dg_notify_head\<close> is set; \<open>gr_submitted\<close> are the continuations handed to
  their queues, \<open>gr_refs\<close> the references the group's own code took minus those it released;
  \<open>gr_registered\<close> is a ghost.
\<close>

record group =
  gr_value :: int
  gr_waiters :: int
  gr_port :: bool
  gr_kernel :: nat
  gr_head :: bool
  gr_list :: "nat list"
  gr_refs :: int
  gr_submitted :: "nat list"
  gr_registered :: "nat list"
  gr_crashed :: bool

definition dispatch_group_create_with_count :: "int \<Rightarrow> group" where
  "dispatch_group_create_with_count v =
     \<lparr>gr_value = v, gr_waiters = 0, gr_port = False, gr_kernel = 0, gr_head = False, gr_list = [],
      gr_refs = (if v \<noteq> 0 then 1 else 0), gr_submitted = [], gr_registered = [], gr_crashed = False\<rparr>"

definition dispatch_group_create :: group where
  "dispatch_group_create = dispatch_group_create_with_count 0"

definition dispatch_group_create_and_enter :: group where
  "dispatch_group_create_and_enter = dispatch_group_create_with_count 1"

definition dispatch_group_dispose :: "group \<Rightarrow> group option" where
  "dispatch_group_dispose g = (if gr_value g \<noteq> 0 then None else Some (g\<lparr>gr_port := False, gr_kernel := 0\<rparr>))"

section \<open>The code between two accesses\<close>

text \<open>
  \<open>after\<close>: where the wake-up returns to, the end of \<open>dispatch_group_leave\<close> or
  \<open>dispatch_group_notify\<close>, the end of \<open>dispatch_group_wait\<close>, or the waiter that has been counted
  and goes on to take its signal. \<open>release\<close> is \<open>needs_release\<close>, \<open>captured\<close> the snapshot of the
  notifications. \<open>GIdle\<close> keeps what the last call returned, \<open>None\<close> for a void function.
\<close>

datatype wake_after = ReturnVoid | ReturnWait | TakeSignal

datatype group_pc =
    GIdle "kern_return option"
  | GEnterRetain
  | GWakeHead bool wake_after
  | GWakeTail bool wake_after
  | GWakeWaiters "nat list option" bool wake_after
  | GWakePost nat "nat list option" bool wake_after
  | GWakeNotify "nat list option" bool wake_after
  | GWaitLoad u64
  | GWaitIncrement u64
  | GWaitReload u64
  | GWaitEnter u64
  | GWaitTimed u64
  | GWaitUndo int
  | GWaitDrain
  | GNotifyFirst
  | GNotifyLoad

text \<open>What the client calls when the thread is idle, and what the kernel and the processor choose.\<close>

datatype group_choice = CEnter | CLeave | CWait u64 | CNotify nat | CKernel kern_return | CWeak bool

definition dispatch_group_enter :: "group \<Rightarrow> group_pc \<times> group" where
  "dispatch_group_enter g =
     (let v = gr_value g; g = g\<lparr>gr_value := wrap64 (v + 1)\<rparr>
      in if v < 0 \<or> LONG_MAX \<le> v then (GIdle None, g\<lparr>gr_crashed := True\<rparr>)
         else if v = 0 then (GEnterRetain, g) else (GIdle None, g))"

definition dispatch_group_leave :: "group \<Rightarrow> group_pc \<times> group" where
  "dispatch_group_leave g =
     (let v = wrap64 (gr_value g - 1); g = g\<lparr>gr_value := v\<rparr>
      in if v = 0 then (GWakeHead True ReturnVoid, g)
         else if v < 0 then (GIdle None, g\<lparr>gr_crashed := True\<rparr>) else (GIdle None, g))"

definition dispatch_group_wait :: "u64 \<Rightarrow> group \<Rightarrow> group_pc \<times> group" where
  "dispatch_group_wait timeout g =
     (if gr_value g = 0 then (GIdle (Some KERN_SUCCESS), g)
      else if timeout = 0 then (GIdle (Some KERN_OPERATION_TIMED_OUT), g)
      else (GWaitLoad timeout, g))"

definition dispatch_group_notify :: "nat \<Rightarrow> group \<Rightarrow> group_pc \<times> group" where
  "dispatch_group_notify dsn g =
     (let first = (gr_list g = []);
          g = g\<lparr>gr_list := gr_list g @ [dsn], gr_registered := gr_registered g @ [dsn]\<rparr>
      in (if first then GNotifyFirst else GIdle None, g))"

text \<open>\<open>_dispatch_group_wake\<close>, access by access.\<close>

definition group_wake_head :: "bool \<Rightarrow> wake_after \<Rightarrow> group \<Rightarrow> group_pc \<times> group" where
  "group_wake_head release after g =
     (if gr_head g then (GWakeTail release after, g\<lparr>gr_head := False\<rparr>)
      else (GWakeWaiters None release after, g))"

definition group_wake_tail :: "bool \<Rightarrow> wake_after \<Rightarrow> group \<Rightarrow> group_pc \<times> group" where
  "group_wake_tail release after g =
     (GWakeWaiters (Some (gr_list g)) release after, g\<lparr>gr_list := []\<rparr>)"

definition group_wake_waiters :: "nat list option \<Rightarrow> bool \<Rightarrow> wake_after \<Rightarrow> group \<Rightarrow> group_pc \<times> group" where
  "group_wake_waiters captured release after g =
     (if gr_waiters g \<noteq> 0
      then (GWakePost (nat (gr_waiters g)) captured release after, g\<lparr>gr_waiters := 0, gr_port := True\<rparr>)
      else (GWakeNotify captured release after, g))"

definition group_wake_post :: "nat \<Rightarrow> nat list option \<Rightarrow> bool \<Rightarrow> wake_after \<Rightarrow> group \<Rightarrow> group_pc \<times> group" where
  "group_wake_post rval captured release after g =
     (if rval \<le> 1 then GWakeNotify captured release after else GWakePost (rval - 1) captured release after,
      g\<lparr>gr_kernel := Suc (gr_kernel g)\<rparr>)"

definition group_wake_notify :: "nat list option \<Rightarrow> bool \<Rightarrow> wake_after \<Rightarrow> group \<Rightarrow> group_pc \<times> group" where
  "group_wake_notify captured release after g =
     (let g = (case captured of None \<Rightarrow> g
               | Some cs \<Rightarrow> g\<lparr>gr_submitted := gr_submitted g @ cs, gr_refs := gr_refs g - 1\<rparr>);
          g = (if release then g\<lparr>gr_refs := gr_refs g - 1\<rparr> else g)
      in (case after of ReturnVoid \<Rightarrow> GIdle None | ReturnWait \<Rightarrow> GIdle (Some KERN_SUCCESS)
          | TakeSignal \<Rightarrow> GWaitEnter DISPATCH_TIME_FOREVER, g))"

text \<open>\<open>_dispatch_group_wait_slow\<close>, access by access; \<open>None\<close> when the kernel does not wake the thread.\<close>

definition group_wait_load :: "u64 \<Rightarrow> group \<Rightarrow> group_pc \<times> group" where
  "group_wait_load timeout g =
     (if gr_value g = 0 then (GWakeHead False ReturnWait, g) else (GWaitIncrement timeout, g))"

definition group_wait_increment :: "u64 \<Rightarrow> group \<Rightarrow> group_pc \<times> group" where
  "group_wait_increment timeout g = (GWaitReload timeout, g\<lparr>gr_waiters := gr_waiters g + 1\<rparr>)"

definition group_wait_reload :: "u64 \<Rightarrow> group \<Rightarrow> group_pc \<times> group" where
  "group_wait_reload timeout g =
     (if gr_value g = 0 then (GWakeHead False TakeSignal, g) else (GWaitEnter timeout, g))"

definition group_wait_enter :: "u64 \<Rightarrow> group \<Rightarrow> group_pc \<times> group" where
  "group_wait_enter timeout g =
     (let g = g\<lparr>gr_port := True\<rparr>
      in (if timeout = DISPATCH_TIME_NOW then GWaitUndo (gr_waiters g)
          else if timeout = DISPATCH_TIME_FOREVER then GWaitDrain else GWaitTimed timeout, g))"

definition group_wait_timed :: "kern_return \<Rightarrow> u64 \<Rightarrow> group \<Rightarrow> (group_pc \<times> group) option" where
  "group_wait_timed kr timeout g =
     (case kr of KERN_ABORTED \<Rightarrow> Some (GWaitTimed timeout, g)
      | KERN_OPERATION_TIMED_OUT \<Rightarrow> Some (GWaitUndo (gr_waiters g), g)
      | KERN_SUCCESS \<Rightarrow> if 0 < gr_kernel g then Some (GIdle (Some KERN_SUCCESS), g\<lparr>gr_kernel := gr_kernel g - 1\<rparr>) else None)"

definition group_wait_undo :: "bool \<Rightarrow> int \<Rightarrow> group \<Rightarrow> group_pc \<times> group" where
  "group_wait_undo weak orig_waiters g =
     (if orig_waiters \<noteq> 0 then
        (if gr_waiters g = orig_waiters \<and> \<not> weak then (GIdle (Some KERN_OPERATION_TIMED_OUT), g\<lparr>gr_waiters := orig_waiters - 1\<rparr>)
         else (GWaitUndo (gr_waiters g), g))
      else (GWaitDrain, g))"

definition group_wait_drain :: "kern_return \<Rightarrow> group \<Rightarrow> (group_pc \<times> group) option" where
  "group_wait_drain kr g =
     (case kr of KERN_ABORTED \<Rightarrow> Some (GWaitDrain, g)
      | KERN_OPERATION_TIMED_OUT \<Rightarrow> None
      | KERN_SUCCESS \<Rightarrow> if 0 < gr_kernel g then Some (GIdle (Some KERN_SUCCESS), g\<lparr>gr_kernel := gr_kernel g - 1\<rparr>) else None)"

text \<open>The notifier that found the list empty sets the head and checks the value again.\<close>

definition group_notify_first :: "group \<Rightarrow> group_pc \<times> group" where
  "group_notify_first g = (GNotifyLoad, g\<lparr>gr_refs := gr_refs g + 1, gr_head := True\<rparr>)"

definition group_notify_load :: "group \<Rightarrow> group_pc \<times> group" where
  "group_notify_load g = (if gr_value g = 0 then GWakeHead False ReturnVoid else GIdle None, g)"

text \<open>One access of a thread; \<open>None\<close> where the choice does not fit what the thread is doing.\<close>

definition group_call :: "group_choice \<Rightarrow> group \<Rightarrow> (group_pc \<times> group) option" where
  "group_call ch g =
     (case ch of CEnter \<Rightarrow> Some (dispatch_group_enter g)
      | CLeave \<Rightarrow> Some (dispatch_group_leave g)
      | CWait timeout \<Rightarrow> Some (dispatch_group_wait timeout g)
      | CNotify dsn \<Rightarrow> Some (dispatch_group_notify dsn g)
      | CKernel kr \<Rightarrow> None
      | CWeak weak \<Rightarrow> None)"

definition group_next :: "group_choice \<Rightarrow> group_pc \<Rightarrow> group \<Rightarrow> (group_pc \<times> group) option" where
  "group_next ch pc g =
     (case pc of GIdle r \<Rightarrow> group_call ch g
      | GEnterRetain \<Rightarrow> Some (GIdle None, g\<lparr>gr_refs := gr_refs g + 1\<rparr>)
      | GWakeHead release after \<Rightarrow> Some (group_wake_head release after g)
      | GWakeTail release after \<Rightarrow> Some (group_wake_tail release after g)
      | GWakeWaiters captured release after \<Rightarrow> Some (group_wake_waiters captured release after g)
      | GWakePost rval captured release after \<Rightarrow> Some (group_wake_post rval captured release after g)
      | GWakeNotify captured release after \<Rightarrow> Some (group_wake_notify captured release after g)
      | GWaitLoad timeout \<Rightarrow> Some (group_wait_load timeout g)
      | GWaitIncrement timeout \<Rightarrow> Some (group_wait_increment timeout g)
      | GWaitReload timeout \<Rightarrow> Some (group_wait_reload timeout g)
      | GWaitEnter timeout \<Rightarrow> Some (group_wait_enter timeout g)
      | GWaitTimed timeout \<Rightarrow> (case ch of CKernel kr \<Rightarrow> group_wait_timed kr timeout g | _ \<Rightarrow> None)
      | GWaitUndo orig_waiters \<Rightarrow> (case ch of CWeak weak \<Rightarrow> Some (group_wait_undo weak orig_waiters g) | _ \<Rightarrow> None)
      | GWaitDrain \<Rightarrow> (case ch of CKernel kr \<Rightarrow> group_wait_drain kr g | _ \<Rightarrow> None)
      | GNotifyFirst \<Rightarrow> Some (group_notify_first g)
      | GNotifyLoad \<Rightarrow> Some (group_notify_load g))"

text \<open>A configuration is the group and the threads.\<close>

inductive group_step :: "group \<times> group_pc list \<Rightarrow> group \<times> group_pc list \<Rightarrow> bool" where
  group_step: "i < length pcs \<Longrightarrow> \<not> gr_crashed g \<Longrightarrow> group_next ch (pcs ! i) g = Some (pc, g') \<Longrightarrow>
    group_step (g, pcs) (g', pcs[i := pc])"

inductive group_reachable :: "group \<Rightarrow> nat \<Rightarrow> group \<times> group_pc list \<Rightarrow> bool" for g0 n where
  group_init: "group_reachable g0 n (g0, replicate n (GIdle None))"
| group_later: "group_reachable g0 n c \<Longrightarrow> group_step c c' \<Longrightarrow> group_reachable g0 n c'"

inductive_cases group_stepE: "group_step (g, pcs) c'"

section \<open>The invariant\<close>

text \<open>
  What a thread in the middle of an operation accounts for: signals it will take less those it will
  post, references it will release less those it will take, the notifications it carries, and
  whether it is the one responsible for the notification list.
\<close>

definition takes_signal :: "wake_after \<Rightarrow> int" where
  "takes_signal after = of_bool (after = TakeSignal)"

fun signal_debt :: "group_pc \<Rightarrow> int" where
  "signal_debt (GWakeHead release after) = takes_signal after"
| "signal_debt (GWakeTail release after) = takes_signal after"
| "signal_debt (GWakeWaiters captured release after) = takes_signal after"
| "signal_debt (GWakePost rval captured release after) = takes_signal after - int rval"
| "signal_debt (GWakeNotify captured release after) = takes_signal after"
| "signal_debt (GWaitReload timeout) = 1"
| "signal_debt (GWaitEnter timeout) = 1"
| "signal_debt (GWaitTimed timeout) = 1"
| "signal_debt (GWaitUndo orig_waiters) = 1"
| "signal_debt GWaitDrain = 1"
| "signal_debt _ = 0"

fun held_refs :: "group_pc \<Rightarrow> int" where
  "held_refs GEnterRetain = - 1"
| "held_refs (GWakeHead release after) = of_bool release"
| "held_refs (GWakeTail release after) = of_bool release + 1"
| "held_refs (GWakeWaiters captured release after) = of_bool release + of_bool (captured \<noteq> None)"
| "held_refs (GWakePost rval captured release after) = of_bool release + of_bool (captured \<noteq> None)"
| "held_refs (GWakeNotify captured release after) = of_bool release + of_bool (captured \<noteq> None)"
| "held_refs _ = 0"

definition captured_of :: "nat list option \<Rightarrow> nat multiset" where
  "captured_of captured = (case captured of None \<Rightarrow> {#} | Some cs \<Rightarrow> mset cs)"

fun carried :: "group_pc \<Rightarrow> nat multiset" where
  "carried (GWakeWaiters captured release after) = captured_of captured"
| "carried (GWakePost rval captured release after) = captured_of captured"
| "carried (GWakeNotify captured release after) = captured_of captured"
| "carried _ = {#}"

fun tends_list :: "group_pc \<Rightarrow> int" where
  "tends_list GNotifyFirst = 1"
| "tends_list (GWakeTail release after) = 1"
| "tends_list _ = 0"

text \<open>Who will look at the head, and at the count of waiters, while the group is empty.\<close>

fun sees_head :: "group_pc \<Rightarrow> bool" where
  "sees_head (GWakeHead release after) = True"
| "sees_head GNotifyLoad = True"
| "sees_head _ = False"

fun sees_waiters :: "group_pc \<Rightarrow> bool" where
  "sees_waiters (GWakeHead release after) = True"
| "sees_waiters (GWakeTail release after) = True"
| "sees_waiters (GWakeWaiters captured release after) = True"
| "sees_waiters (GWaitReload timeout) = True"
| "sees_waiters _ = False"

fun posts_some :: "group_pc \<Rightarrow> bool" where
  "posts_some (GWakePost rval captured release after) = (0 < rval)"
| "posts_some _ = True"

definition group_wf :: "group \<Rightarrow> bool" where
  "group_wf g \<longleftrightarrow> 0 \<le> gr_value g \<and> gr_value g \<le> LONG_MAX \<and> 0 \<le> gr_waiters g"

definition group_inv :: "group \<times> group_pc list \<Rightarrow> bool" where
  "group_inv = (\<lambda>(g, pcs). gr_crashed g \<or>
     group_wf g \<and> (\<forall>pc \<in> set pcs. posts_some pc) \<and>
     gr_waiters g + int (gr_kernel g) = pc_sum signal_debt pcs \<and>
     gr_refs g = of_bool (gr_value g \<noteq> 0) + of_bool (gr_head g) + pc_sum held_refs pcs \<and>
     of_bool (gr_head g) + pc_sum tends_list pcs = of_bool (gr_list g \<noteq> []) \<and>
     mset (gr_registered g) = mset (gr_submitted g) + pc_sum carried pcs + mset (gr_list g) \<and>
     (gr_value g = 0 \<longrightarrow> (gr_head g \<longrightarrow> 0 < at_pc sees_head pcs) \<and>
                          (0 < gr_waiters g \<longrightarrow> 0 < at_pc sees_waiters pcs)))"

text \<open>The accesses, one case each.\<close>

lemma group_next_cases [consumes 1, case_names Enter Leave Wait Notify EnterRetain WakeHead WakeTail
    WakeWaiters WakePost WakeNotify WaitLoad WaitIncrement WaitReload WaitEnter WaitTimed WaitUndo
    WaitDrain NotifyFirst NotifyLoad]:
  assumes "group_next ch pc g = Some s"
  obtains r where "pc = GIdle r" "s = dispatch_group_enter g"
  | r where "pc = GIdle r" "s = dispatch_group_leave g"
  | r timeout where "pc = GIdle r" "s = dispatch_group_wait timeout g"
  | r dsn where "pc = GIdle r" "s = dispatch_group_notify dsn g"
  | "pc = GEnterRetain" "s = (GIdle None, g\<lparr>gr_refs := gr_refs g + 1\<rparr>)"
  | release after where "pc = GWakeHead release after" "s = group_wake_head release after g"
  | release after where "pc = GWakeTail release after" "s = group_wake_tail release after g"
  | captured release after where "pc = GWakeWaiters captured release after"
      "s = group_wake_waiters captured release after g"
  | rval captured release after where "pc = GWakePost rval captured release after"
      "s = group_wake_post rval captured release after g"
  | captured release after where "pc = GWakeNotify captured release after"
      "s = group_wake_notify captured release after g"
  | timeout where "pc = GWaitLoad timeout" "s = group_wait_load timeout g"
  | timeout where "pc = GWaitIncrement timeout" "s = group_wait_increment timeout g"
  | timeout where "pc = GWaitReload timeout" "s = group_wait_reload timeout g"
  | timeout where "pc = GWaitEnter timeout" "s = group_wait_enter timeout g"
  | timeout kr where "pc = GWaitTimed timeout" "group_wait_timed kr timeout g = Some s"
  | orig_waiters weak where "pc = GWaitUndo orig_waiters" "s = group_wait_undo weak orig_waiters g"
  | kr where "pc = GWaitDrain" "group_wait_drain kr g = Some s"
  | "pc = GNotifyFirst" "s = group_notify_first g"
  | "pc = GNotifyLoad" "s = group_notify_load g"
proof (cases pc)
  case GIdle
  then show thesis using assms that(1-4)
    by (cases ch) (auto simp add: group_next_def group_call_def)
next
  case GWaitTimed
  then show thesis using assms that(15) by (cases ch) (simp_all add: group_next_def)
next
  case GWaitUndo
  then show thesis using assms that(16) by (cases ch) (auto simp add: group_next_def)
next
  case GWaitDrain
  then show thesis using assms that(17) by (cases ch) (simp_all add: group_next_def)
qed (use assms that(5-14,18,19) in \<open>simp_all add: group_next_def\<close>)

text \<open>What one access changes, in the group and in the thread.\<close>

lemma wrap64_up: "0 \<le> v \<Longrightarrow> v < LONG_MAX \<Longrightarrow> wrap64 (v + 1) = v + 1"
  by (rule wrap64_near) (simp_all add: LONG_MIN_def LONG_MAX_def)

lemma wrap64_down: "0 \<le> v \<Longrightarrow> v \<le> LONG_MAX \<Longrightarrow> wrap64 (v - 1) = v - 1"
  by (rule wrap64_near) (simp_all add: LONG_MIN_def LONG_MAX_def)

lemmas group_ops =
  dispatch_group_enter_def dispatch_group_leave_def dispatch_group_wait_def dispatch_group_notify_def
  group_wake_head_def group_wake_tail_def group_wake_waiters_def group_wake_post_def
  group_wake_notify_def group_wait_load_def group_wait_increment_def group_wait_reload_def
  group_wait_enter_def group_wait_timed_def group_wait_undo_def group_wait_drain_def
  group_notify_first_def group_notify_load_def Let_def

lemmas group_splits = if_splits option.splits kern_return.splits wake_after.splits

lemma wrap64_one [simp]: "wrap64 1 = 1" "1 \<le> LONG_MAX" "0 \<le> LONG_MAX"
  by (simp_all add: wrap64_def LONG_MAX_def)

lemma group_next_wf:
  assumes "group_next ch pc g = Some (pc', g')" "group_wf g" "\<not> gr_crashed g'"
  shows "group_wf g' \<and> posts_some pc'"
  using assms unfolding group_wf_def
  by (cases rule: group_next_cases) (auto simp: group_ops wrap64_up wrap64_down split: group_splits)

lemma group_next_signals:
  assumes "group_next ch pc g = Some (pc', g')" "group_wf g" "posts_some pc"
  shows "gr_waiters g' + int (gr_kernel g') + signal_debt pc = gr_waiters g + int (gr_kernel g) + signal_debt pc'"
  using assms unfolding group_wf_def
  by (cases rule: group_next_cases) (auto simp: group_ops takes_signal_def split: group_splits)

lemma group_next_refs:
  assumes "group_next ch pc g = Some (pc', g')" "group_wf g" "\<not> gr_crashed g'"
    and "of_bool (gr_head g) + tends_list pc \<le> (1 :: int)"
  shows "gr_refs g' + of_bool (gr_value g \<noteq> 0) + of_bool (gr_head g) + held_refs pc =
         gr_refs g + of_bool (gr_value g' \<noteq> 0) + of_bool (gr_head g') + held_refs pc'"
  using assms unfolding group_wf_def
  by (cases rule: group_next_cases) (auto simp: group_ops wrap64_up wrap64_down split: group_splits)

lemma group_next_list:
  assumes "group_next ch pc g = Some (pc', g')"
    and "of_bool (gr_head g) + tends_list pc \<le> of_bool (gr_list g \<noteq> [])"
  shows "of_bool (gr_head g') + of_bool (gr_list g \<noteq> []) + tends_list pc' =
         of_bool (gr_head g) + of_bool (gr_list g' \<noteq> []) + tends_list pc"
  using assms
  by (cases rule: group_next_cases) (auto simp: group_ops split: group_splits split_of_bool_asm)

lemma group_next_notifications:
  assumes "group_next ch pc g = Some (pc', g')"
  shows "mset (gr_registered g') + mset (gr_submitted g) + carried pc + mset (gr_list g) =
         mset (gr_registered g) + mset (gr_submitted g') + carried pc' + mset (gr_list g')"
  using assms
  by (cases rule: group_next_cases) (auto simp: group_ops captured_of_def ac_simps split: group_splits)

lemma group_next_seen:
  assumes "group_next ch pc g = Some (pc', g')" "group_wf g" "gr_value g' = 0"
  shows "(gr_value g \<noteq> 0 \<longrightarrow> gr_crashed g' \<or> sees_head pc' \<and> sees_waiters pc')"
    and "sees_head pc \<Longrightarrow> gr_head g' \<Longrightarrow> sees_head pc'"
    and "gr_head g' \<Longrightarrow> gr_head g \<or> sees_head pc'"
    and "sees_waiters pc \<Longrightarrow> 0 < gr_waiters g' \<Longrightarrow> sees_waiters pc'"
    and "0 < gr_waiters g' \<Longrightarrow> 0 < gr_waiters g \<or> sees_waiters pc'"
  using assms unfolding group_wf_def
  by (cases rule: group_next_cases; auto simp: group_ops wrap64_up wrap64_down split: group_splits)+

lemma group_init_inv:
  "v = 0 \<or> v = 1 \<Longrightarrow> group_inv (dispatch_group_create_with_count v, replicate n (GIdle None))"
  by (auto simp: group_inv_def group_wf_def dispatch_group_create_with_count_def pc_sum_replicate)

text \<open>A count stays positive when a step keeps the moving thread in it, or does not take it out.\<close>

lemma at_pc_stays:
  assumes "i < length pcs" "0 < at_pc P pcs \<or> P pc" "P (pcs ! i) \<longrightarrow> P pc"
  shows "0 < at_pc P (pcs[i := pc])"
proof (cases "P pc")
  case True
  then show ?thesis using assms(1) by (auto simp: at_pc_pos intro!: exI [of _ i])
next
  case False
  then show ?thesis using at_pc_update [OF assms(1), of P pc] assms(2,3) by simp
qed

lemma tends_list_nonneg: "0 \<le> pc_sum tends_list pcs"
proof -
  have "0 \<le> tends_list pc" for pc by (cases pc) simp_all
  then show ?thesis unfolding pc_sum_def by (intro sum_list_nonneg) auto
qed

lemma tends_list_member: "i < length pcs \<Longrightarrow> tends_list (pcs ! i) \<le> pc_sum tends_list pcs"
proof -
  assume i: "i < length pcs"
  have "pc_sum tends_list (pcs[i := GNotifyLoad]) + tends_list (pcs ! i) = pc_sum tends_list pcs"
    using pc_sum_update [OF i, of tends_list GNotifyLoad] by simp
  then show ?thesis using tends_list_nonneg [of "pcs[i := GNotifyLoad]"] by simp
qed

lemma group_step_inv:
  assumes "group_inv c" "group_step c c'"
  shows "group_inv c'"
proof -
  obtain i pcs g ch pc g' where c: "c = (g, pcs)" and c': "c' = (g', pcs[i := pc])"
    and i: "i < length pcs" and ncr: "\<not> gr_crashed g" and st: "group_next ch (pcs ! i) g = Some (pc, g')"
    using assms(2) by (cases rule: group_step.cases) blast
  have inv: "group_wf g" "\<forall>pc \<in> set pcs. posts_some pc"
      "gr_waiters g + int (gr_kernel g) = pc_sum signal_debt pcs"
      "gr_refs g = of_bool (gr_value g \<noteq> 0) + of_bool (gr_head g) + pc_sum held_refs pcs"
      "of_bool (gr_head g) + pc_sum tends_list pcs = of_bool (gr_list g \<noteq> [])"
      "mset (gr_registered g) = mset (gr_submitted g) + pc_sum carried pcs + mset (gr_list g)"
      "gr_value g = 0 \<Longrightarrow> gr_head g \<Longrightarrow> 0 < at_pc sees_head pcs"
      "gr_value g = 0 \<Longrightarrow> 0 < gr_waiters g \<Longrightarrow> 0 < at_pc sees_waiters pcs"
    using assms(1) ncr unfolding c group_inv_def by auto
  have tl: "of_bool (gr_head g) + tends_list (pcs ! i) \<le> of_bool (gr_list g \<noteq> [])"
    using inv(5) tends_list_member [OF i] by linarith
  show ?thesis
  proof (cases "gr_crashed g'")
    case True
    then show ?thesis by (simp add: c' group_inv_def)
  next
    case False
    note wf = group_next_wf [OF st inv(1) False]
    have tl1: "of_bool (gr_head g) + tends_list (pcs ! i) \<le> (1 :: int)"
      using tl by (rule order_trans) simp
    have "posts_some (pcs ! i)" using inv(2) i by simp
    note loc = group_next_signals [OF st inv(1) this] group_next_refs [OF st inv(1) False tl1]
      group_next_list [OF st tl]
    have "gr_waiters g' + int (gr_kernel g') = pc_sum signal_debt (pcs[i := pc])"
      using loc(1) inv(3) pc_sum_update [OF i, of signal_debt pc] by linarith
    moreover have "gr_refs g' = of_bool (gr_value g' \<noteq> 0) + of_bool (gr_head g') + pc_sum held_refs (pcs[i := pc])"
      using loc(2) inv(4) pc_sum_update [OF i, of held_refs pc] by linarith
    moreover have "of_bool (gr_head g') + pc_sum tends_list (pcs[i := pc]) = of_bool (gr_list g' \<noteq> [])"
      using loc(3) inv(5) pc_sum_update [OF i, of tends_list pc] by linarith
    moreover have "mset (gr_registered g') = mset (gr_submitted g') + pc_sum carried (pcs[i := pc]) + mset (gr_list g')"
    proof -
      have "mset (gr_registered g') + (mset (gr_submitted g) + mset (gr_list g) + pc_sum carried pcs + carried pc) =
            (mset (gr_submitted g') + pc_sum carried (pcs[i := pc]) + mset (gr_list g')) +
            (mset (gr_submitted g) + mset (gr_list g) + pc_sum carried pcs + carried pc)"
        using group_next_notifications [OF st] inv(6) pc_sum_update [OF i, of carried pc]
        by (smt (verit) add.assoc add.commute)
      then show ?thesis by (rule add_right_imp_eq)
    qed
    moreover have "gr_head g' \<Longrightarrow> 0 < at_pc sees_head (pcs[i := pc])" if "gr_value g' = 0"
      by (rule at_pc_stays [OF i]) (use group_next_seen [OF st inv(1) that] inv(7) False in auto)
    moreover have "0 < gr_waiters g' \<Longrightarrow> 0 < at_pc sees_waiters (pcs[i := pc])" if "gr_value g' = 0"
      by (rule at_pc_stays [OF i]) (use group_next_seen [OF st inv(1) that] inv(8) False in auto)
    moreover have "\<forall>pc \<in> set (pcs[i := pc]). posts_some pc"
      using inv(2) wf by (auto dest!: set_update_subset_insert [THEN subsetD])
    ultimately show ?thesis using wf by (simp add: c' group_inv_def)
  qed
qed

lemma group_reachable_inv:
  "group_reachable (dispatch_group_create_with_count v) n c \<Longrightarrow> v = 0 \<or> v = 1 \<Longrightarrow> group_inv c"
  by (induction rule: group_reachable.induct) (simp_all add: group_init_inv group_step_inv)

lemma group_reachable_threads: "group_reachable g0 n c \<Longrightarrow> length (snd c) = n"
  by (induction rule: group_reachable.induct) (auto elim: group_step.cases)

section \<open>Nobody is forgotten\<close>

fun blocked :: "group_pc \<Rightarrow> bool" where
  "blocked (GWaitTimed timeout) = True"
| "blocked GWaitDrain = True"
| "blocked _ = False"

fun between_calls :: "group_pc \<Rightarrow> bool" where
  "between_calls (GIdle r) = True"
| "between_calls _ = False"

text \<open>
  C1.
\<close>

text \<open>
  C39. In every interleaving of enter, leave, wait and notify, once the group is empty and every
  thread is between two calls or blocked in the kernel, every notification registered has been
  submitted exactly once, the kernel holds a signal for every blocked thread and no other, and
  every reference the group took on itself has been released.
\<close>
theorem group_forgets_nobody:
  assumes "group_reachable (dispatch_group_create_with_count v) n (g, pcs)" "v = 0 \<or> v = 1"
    and "\<not> gr_crashed g" "gr_value g = 0" "\<forall>pc \<in> set pcs. between_calls pc \<or> blocked pc"
  shows "gr_list g = [] \<and> mset (gr_submitted g) = mset (gr_registered g) \<and> gr_refs g = 0 \<and>
         gr_waiters g = 0 \<and> gr_kernel g = at_pc blocked pcs"
proof -
  note inv = group_reachable_inv [OF assms(1,2), unfolded group_inv_def prod.case]
  have rest: "held_refs pc = 0 \<and> tends_list pc = 0 \<and> carried pc = {#} \<and> \<not> sees_head pc \<and>
      \<not> sees_waiters pc \<and> signal_debt pc = of_bool (blocked pc)" if "pc \<in> set pcs" for pc
    using assms(5) [rule_format, OF that] by (cases pc) auto
  have "at_pc sees_head pcs = 0" "at_pc sees_waiters pcs = 0"
    by (rule at_pc_none; use rest in simp)+
  then have "\<not> gr_head g" "gr_waiters g = 0" using inv assms(3,4) by (auto simp: group_wf_def)
  moreover have "pc_sum held_refs pcs = 0" "pc_sum tends_list pcs = 0" "pc_sum carried pcs = {#}"
    using rest by (auto intro: pc_sum_zero)
  moreover have "pc_sum signal_debt pcs = int (at_pc blocked pcs)"
    using rest by (induction pcs) (auto simp: pc_sum_def at_pc_def)
  ultimately show ?thesis using inv assms(3,4) by simp
qed

section \<open>Runs\<close>

text \<open>Accesses of named threads, in order.\<close>

fun group_run :: "(nat \<times> group_choice) list \<Rightarrow> group \<times> group_pc list \<Rightarrow> (group \<times> group_pc list) option" where
  "group_run [] c = Some c"
| "group_run ((i, ch) # rest) (g, pcs) =
     (if i < length pcs \<and> \<not> gr_crashed g
      then (case group_next ch (pcs ! i) g of None \<Rightarrow> None
            | Some (pc, g') \<Rightarrow> group_run rest (g', pcs[i := pc]))
      else None)"

lemma group_run_steps:
  "group_run acts c = Some d \<Longrightarrow> group_step\<^sup>*\<^sup>* c d"
proof (induction acts c rule: group_run.induct)
  case (2 i ch rest g pcs)
  then obtain pc g' where "i < length pcs" "\<not> gr_crashed g" "group_next ch (pcs ! i) g = Some (pc, g')"
      "group_step\<^sup>*\<^sup>* (g', pcs[i := pc]) d"
    by (auto split: if_splits option.splits)
  then show ?case using group_step [of i pcs g ch pc g'] by (meson converse_rtranclp_into_rtranclp)
qed simp

lemma group_reachable_steps:
  assumes "group_step\<^sup>*\<^sup>* c d" "group_reachable g0 n c"
  shows "group_reachable g0 n d"
  using assms by (induction rule: rtranclp_induct) (auto intro: group_later)

lemma group_run_reachable:
  "group_run acts (g0, replicate n (GIdle None)) = Some d \<Longrightarrow> group_reachable g0 n d"
  by (rule group_reachable_steps [OF group_run_steps group_init])

definition sample_group_run :: "(nat \<times> group_choice) list" where
  "sample_group_run =
     replicate 2 (0, CEnter) @ replicate 5 (1, CWait DISPATCH_TIME_FOREVER) @
     replicate 3 (0, CNotify 7) @ replicate 6 (0, CLeave)"

definition sample_group :: group where
  "sample_group = \<lparr>gr_value = 0, gr_waiters = 0, gr_port = True, gr_kernel = 1, gr_head = False, gr_list = [],
      gr_refs = 0, gr_submitted = [7], gr_registered = [7], gr_crashed = False\<rparr>"

lemma sample_group_run_result:
  "group_run sample_group_run (dispatch_group_create_with_count 0, replicate 2 (GIdle None)) =
     Some (sample_group, [GIdle None, GWaitDrain])"
  by (simp add: sample_group_run_def sample_group_def numeral_eq_Suc group_next_def group_call_def group_ops
      dispatch_group_create_with_count_def wrap64_def DISPATCH_TIME_NOW_def DISPATCH_TIME_FOREVER_def LONG_MAX_def)

theorem group_forgets_nobody_witness:
  "gr_kernel sample_group = at_pc blocked [GIdle None, GWaitDrain]"
  using group_forgets_nobody [OF group_run_reachable [OF sample_group_run_result]]
  by (simp add: sample_group_def)

section \<open>A notification that finds the group full again\<close>

text \<open>
  The thread whose \<open>dispatch_group_leave\<close> emptied the group takes whatever is on the list when it
  gets there. By then the group can have been entered again and a notification registered.
\<close>

definition entered_step :: "group \<times> group_pc list \<Rightarrow> group \<times> group_pc list \<Rightarrow> bool" where
  "entered_step c d \<longleftrightarrow> group_step c d \<and> 0 < gr_value (fst c) \<and> 0 < gr_value (fst d)"

fun entered_run :: "(nat \<times> group_choice) list \<Rightarrow> group \<times> group_pc list \<Rightarrow> bool" where
  "entered_run [] c = True"
| "entered_run (a # rest) c =
     (0 < gr_value (fst c) \<and>
      (case group_run [a] c of None \<Rightarrow> False | Some d \<Rightarrow> 0 < gr_value (fst d) \<and> entered_run rest d))"

lemma entered_run_steps:
  "entered_run acts c \<Longrightarrow> \<exists>d. group_run acts c = Some d \<and> entered_step\<^sup>*\<^sup>* c d"
proof (induction acts arbitrary: c)
  case (Cons a acts)
  obtain i ch g pcs where ac: "a = (i, ch)" "c = (g, pcs)" by (cases a; cases c)
  obtain d where d: "group_run [a] c = Some d" "0 < gr_value (fst c)" "0 < gr_value (fst d)" "entered_run acts d"
    using Cons.prems by (auto split: option.splits)
  then have step: "entered_step c d"
    using group_step [of i pcs g ch] by (auto simp: ac entered_step_def split: if_splits option.splits)
  obtain e where e: "group_run acts d = Some e" "entered_step\<^sup>*\<^sup>* d e" using Cons.IH [OF d(4)] by blast
  have "group_run (a # acts) c = Some e"
    using d(1) e(1) by (auto simp: ac split: if_splits option.splits)
  then show ?case using converse_rtranclp_into_rtranclp [of entered_step, OF step e(2)] by blast
qed simp

definition early_leave :: "(nat \<times> group_choice) list" where
  "early_leave = [(0, CEnter), (0, CEnter), (0, CLeave), (1, CEnter), (1, CEnter)]"

definition early_notify :: "(nat \<times> group_choice) list" where
  "early_notify = replicate 3 (1, CNotify 7) @ replicate 4 (0, CLeave)"

definition early_group :: "int \<Rightarrow> nat list \<Rightarrow> nat list \<Rightarrow> group" where
  "early_group refs submitted registered =
     \<lparr>gr_value = 1, gr_waiters = 0, gr_port = False, gr_kernel = 0, gr_head = False, gr_list = [],
      gr_refs = refs, gr_submitted = submitted, gr_registered = registered, gr_crashed = False\<rparr>"

lemmas early_simps =
  early_leave_def early_notify_def early_group_def numeral_eq_Suc group_next_def group_call_def group_ops
  dispatch_group_create_with_count_def dispatch_group_create_def LONG_MAX_def

lemma early_leave_run:
  "group_run early_leave (dispatch_group_create, replicate 2 (GIdle None)) =
     Some (early_group 2 [] [], [GWakeHead True ReturnVoid, GIdle None])"
  by (simp add: early_simps wrap64_def)

lemma early_notify_run:
  "group_run early_notify (early_group 2 [] [], [GWakeHead True ReturnVoid, GIdle None]) =
     Some (early_group 1 [7] [7], [GIdle None, GIdle None])"
  "entered_run early_notify (early_group 2 [] [], [GWakeHead True ReturnVoid, GIdle None])"
  by (simp_all add: early_simps)

text \<open>
  C1.
\<close>

text \<open>
  C40. A notification can be submitted although the group has been non-empty since before it was
  registered: the thread whose leave emptied the group takes the list as it is when it gets
  there, after another thread has entered again and registered the notification.
\<close>
theorem group_notifies_entered_group:
  "\<exists>c d. group_reachable dispatch_group_create 2 c \<and> gr_registered (fst c) = [] \<and>
         entered_step\<^sup>*\<^sup>* c d \<and> gr_submitted (fst d) = [7]"
proof -
  have "entered_step\<^sup>*\<^sup>* (early_group 2 [] [], [GWakeHead True ReturnVoid, GIdle None])
          (early_group 1 [7] [7], [GIdle None, GIdle None])"
    using entered_run_steps [OF early_notify_run(2)] early_notify_run(1) by auto
  then show ?thesis
    using group_run_reachable [OF early_leave_run] by (fastforce simp: early_group_def)
qed

end
