(* ===== verification/Queue_Suspend.thy ===== *)
theory Queue_Suspend
  imports Queue_State Thread_Lists
begin

text \<open>
  Suspending, resuming and activating a queue: \<open>_dispatch_queue_suspend\<close>, \<open>_dispatch_queue_resume\<close>
  and their slow paths of \<open>queue.c\<close>, which move half of the suspend count between the seven bits of
  \<open>dq_state\<close> and \<open>dq_side_suspend_cnt\<close>, by any number of threads while the rest of the word changes
  under them.
\<close>

section \<open>The atomic updates\<close>

text \<open>The state word of a new queue and the references it starts with beyond those of any object.\<close>

definition dispatch_queue_init :: "u16 \<Rightarrow> bool \<Rightarrow> u64 \<times> int" where
  "dispatch_queue_init width inactive =
     (let dq_state = DISPATCH_QUEUE_STATE_INIT_VALUE width
      in if inactive then (dq_state + (DISPATCH_QUEUE_INACTIVE + DISPATCH_QUEUE_NEEDS_ACTIVATION), 1)
         else (dq_state, 0))"

text \<open>What is written is \<open>None\<close> where the loop gives up and takes another path.\<close>

definition dispatch_queue_suspend :: "u64 \<Rightarrow> u64 option" where
  "dispatch_queue_suspend dq_state = os_add_overflow dq_state DISPATCH_QUEUE_SUSPEND_INTERVAL"

definition half_less_one :: u64 where
  "half_less_one =
     ucast DISPATCH_QUEUE_SUSPEND_HALF * DISPATCH_QUEUE_SUSPEND_INTERVAL - DISPATCH_QUEUE_SUSPEND_INTERVAL"

definition dispatch_queue_suspend_slow :: "u32 \<Rightarrow> u64 \<Rightarrow> u64 option" where
  "dispatch_queue_suspend_slow dq_side_suspend_cnt dq_state =
     (let delta = half_less_one;
          delta = (if dq_side_suspend_cnt = 0 then delta - DISPATCH_QUEUE_HAS_SIDE_SUSPEND_CNT else delta)
      in os_sub_overflow dq_state delta)"

definition dispatch_queue_resume_slow :: "u32 \<Rightarrow> u64 \<Rightarrow> u64 option" where
  "dispatch_queue_resume_slow dq_side_suspend_cnt dq_state =
     (if dq_side_suspend_cnt = 0 then None
      else (let delta = half_less_one;
                delta = (if dq_side_suspend_cnt = DISPATCH_QUEUE_SUSPEND_HALF
                         then delta - DISPATCH_QUEUE_HAS_SIDE_SUSPEND_CNT else delta)
            in os_add_overflow dq_state delta))"

text \<open>The two loops of \<open>_dispatch_queue_resume\<close>; \<open>kevent\<close>: the object is a kevent source.\<close>

definition activated_word :: "u64 \<Rightarrow> u64" where
  "activated_word dq_state =
     dq_state - DISPATCH_QUEUE_INACTIVE - DISPATCH_QUEUE_NEEDS_ACTIVATION + DISPATCH_QUEUE_SUSPEND_INTERVAL"

definition dispatch_queue_activate_update :: "u64 \<Rightarrow> u64 option" where
  "dispatch_queue_activate_update dq_state =
     (if dq_state AND DISPATCH_QUEUE_SUSPEND_BITS_MASK
           = DISPATCH_QUEUE_NEEDS_ACTIVATION + DISPATCH_QUEUE_INACTIVE
      then Some (activated_word dq_state)
      else if dq_state_is_inactive dq_state then Some (dq_state - DISPATCH_QUEUE_INACTIVE)
      else None)"

datatype resume_update = ResumeTo u64 | ResumeSlow | OverResume

definition dispatch_queue_resume_update :: "bool \<Rightarrow> u16 \<Rightarrow> u32 \<Rightarrow> u64 \<Rightarrow> resume_update" where
  "dispatch_queue_resume_update kevent dq_width tid_self dq_state =
     (if dq_state AND DISPATCH_QUEUE_SUSPEND_BITS_MASK
           = DISPATCH_QUEUE_SUSPEND_INTERVAL + DISPATCH_QUEUE_NEEDS_ACTIVATION
      then ResumeTo (dq_state - DISPATCH_QUEUE_NEEDS_ACTIVATION)
      else if kevent \<and> dq_state AND DISPATCH_QUEUE_SUSPEND_BITS_MASK
           = DISPATCH_QUEUE_NEEDS_ACTIVATION + DISPATCH_QUEUE_INACTIVE
      then ResumeTo (activated_word dq_state)
      else (case os_sub_overflow dq_state DISPATCH_QUEUE_SUSPEND_INTERVAL of
              None \<Rightarrow> if dq_state_has_side_suspend_cnt dq_state then ResumeSlow else OverResume
            | Some v \<Rightarrow>
                if dq_state_is_runnable v \<and> \<not> dq_state_drain_locked v then
                  (let full_width = full_width_after dq_width v
                   in if full_width AND DISPATCH_QUEUE_WIDTH_MASK = DISPATCH_QUEUE_WIDTH_FULL_BIT
                      then ResumeTo ((full_width AND NOT DISPATCH_QUEUE_DIRTY) OR ucast tid_self)
                      else ResumeTo v)
                else ResumeTo v))"

text \<open>What the resume does once the word is written.\<close>

datatype resume_end = FinalizeActivation | ResumeReturn | InvalidState | TransferOrWakeup | Wakeup | ReleaseOnly

definition dispatch_queue_resume_end :: "bool \<Rightarrow> u64 \<Rightarrow> u64 \<Rightarrow> resume_end" where
  "dispatch_queue_resume_end activate dq_state v =
     (if (dq_state XOR v) AND DISPATCH_QUEUE_NEEDS_ACTIVATION \<noteq> 0 then FinalizeActivation
      else if activate then (if \<not> dq_state_is_suspended v then InvalidState else ResumeReturn)
      else if dq_state_is_suspended v then ResumeReturn
      else if (dq_state XOR v) AND DISPATCH_QUEUE_IN_BARRIER \<noteq> 0 then TransferOrWakeup
      else if dq_state_should_wakeup v then Wakeup
      else ReleaseOnly)"

text \<open>
  The setters of an inactive object suspend it for their duration: \<open>None\<close> when it is not inactive,
  else the new word and whether the check after the update crashes.
\<close>

definition dispatch_queue_try_inactive_suspend :: "u64 \<Rightarrow> (u64 \<times> bool) option" where
  "dispatch_queue_try_inactive_suspend dq_state =
     (if \<not> dq_state_is_inactive dq_state then None
      else Some (dq_state + DISPATCH_QUEUE_SUSPEND_INTERVAL,
                 \<not> dq_state_is_suspended dq_state \<or> dq_state_has_side_suspend_cnt dq_state))"

section \<open>The suspension bits\<close>

text \<open>
  The ten high bits as a number: eight times the inline count, plus four for the side count bit,
  two for inactive and one for needs-activation.
\<close>

definition susp :: "u64 \<Rightarrow> nat" where "susp s = dq_hi s div 2 ^ 17"
definition units :: "nat \<Rightarrow> u64" where "units k = slots (k * 2 ^ 17)"

lemma susp_bound: "susp s < 2 ^ 10"
  using dq_hi_bound [of s] by (simp add: susp_def)

lemma susp_split: "dq_hi s = susp s * 2 ^ 17 + dq_hi s mod 2 ^ 17" "dq_hi s mod 2 ^ 17 < 2 ^ 17"
  by (simp_all only: susp_def div_mult_mod_eq) simp

lemma suspI: "dq_hi s = k * 2 ^ 17 + r \<Longrightarrow> r < 2 ^ 17 \<Longrightarrow> susp s = k"
  by (simp add: susp_def)

lemma susp_add:
  assumes "susp s + k < 2 ^ 10"
  shows "susp (s + units k) = susp s + k"
proof -
  have "dq_hi s + k * 2 ^ 17 < (susp s + k + 1) * 2 ^ 17"
    using susp_split [of s] by (simp add: algebra_simps)
  also have "\<dots> \<le> 2 ^ 10 * 2 ^ 17" using assms by (intro mult_right_mono) simp_all
  finally have "dq_hi s + k * 2 ^ 17 < 2 ^ 27" by simp
  then have "dq_hi (s + units k) = dq_hi s + k * 2 ^ 17" by (simp only: units_def hi_add_slots mod_less)
  then show ?thesis by (intro suspI [of _ _ "dq_hi s mod 2 ^ 17"]) (use susp_split [of s] in \<open>simp_all add: algebra_simps\<close>)
qed

lemma susp_sub:
  assumes "k \<le> susp s"
  shows "susp (s - units k) = susp s - k"
proof -
  have "k * 2 ^ 17 \<le> susp s * 2 ^ 17" using assms by (intro mult_right_mono) simp_all
  then have le: "k * 2 ^ 17 \<le> dq_hi s" using susp_split(1) [of s] by linarith
  show ?thesis
    by (rule suspI [of _ _ "dq_hi s mod 2 ^ 17"])
       (use hi_sub_slots [OF le] units_def [of k] susp_split [of s] \<open>k * 2 ^ 17 \<le> susp s * 2 ^ 17\<close>
         in \<open>simp_all add: diff_mult_distrib\<close>)
qed

lemma susp_tests:
  "dq_state_is_suspended s = (susp s \<noteq> 0)"
  "dq_state_is_inactive s = odd (susp s div 2)"
  "dq_state_has_side_suspend_cnt s = odd (susp s div 4)"
  "dq_state_needs_activation s = odd (susp s)"
proof -
  show "dq_state_is_suspended s = (susp s \<noteq> 0)"
    by (simp add: suspended_hi susp_def div_eq_0_iff not_less)
  show "dq_state_is_inactive s = odd (susp s div 2)"
    using bit_hi [of s 18]
    by (simp add: dq_state_is_inactive_def DISPATCH_QUEUE_INACTIVE_def flag_test susp_def div_mult2_eq [symmetric])
  show "dq_state_has_side_suspend_cnt s = odd (susp s div 4)"
    using bit_hi [of s 19]
    by (simp add: dq_state_has_side_suspend_cnt_def DISPATCH_QUEUE_HAS_SIDE_SUSPEND_CNT_def flag_test susp_def div_mult2_eq [symmetric])
  show "dq_state_needs_activation s = odd (susp s)"
    using bit_hi [of s 17]
    by (simp add: dq_state_needs_activation_def DISPATCH_QUEUE_NEEDS_ACTIVATION_def flag_test susp_def)
qed

lemma susp_consts:
  "DISPATCH_QUEUE_NEEDS_ACTIVATION = units 1"
  "DISPATCH_QUEUE_INACTIVE = units 2"
  "DISPATCH_QUEUE_HAS_SIDE_SUSPEND_CNT = units 4"
  "DISPATCH_QUEUE_SUSPEND_INTERVAL = units 8"
  "half_less_one = units 504"
  "half_less_one - DISPATCH_QUEUE_HAS_SIDE_SUSPEND_CNT = units 500"
  by (simp_all add: half_less_one_def units_def slots_def DISPATCH_QUEUE_WIDTH_INTERVAL_def
      DISPATCH_QUEUE_INACTIVE_def DISPATCH_QUEUE_NEEDS_ACTIVATION_def DISPATCH_QUEUE_SUSPEND_HALF_def
      DISPATCH_QUEUE_HAS_SIDE_SUSPEND_CNT_def DISPATCH_QUEUE_SUSPEND_INTERVAL_def)

lemma susp_div: "susp s = unat s div 2 ^ 54"
  by (simp add: susp_def dq_hi_div div_mult2_eq [symmetric])

lemma susp_masked: "s AND DISPATCH_QUEUE_SUSPEND_BITS_MASK = units (susp s)"
proof -
  have m: "DISPATCH_QUEUE_SUSPEND_BITS_MASK = NOT (mask 54)"
    by (simp add: DISPATCH_QUEUE_SUSPEND_BITS_MASK_def mask_eq_exp_minus_1)
  have "s AND NOT (mask 54) = push_bit 54 (drop_bit 54 s)"
    by (rule bit_word_eqI) (auto simp: bit_simps)
  also have "\<dots> = units (susp s)"
  proof -
    have "of_nat (susp s) = drop_bit 54 s" unfolding susp_div
      by (simp only: unat_drop_bit [symmetric] of_nat_unat ucast_id)
    then show ?thesis by (simp add: units_def slots_def push_bit_eq_mult DISPATCH_QUEUE_WIDTH_INTERVAL_def)
  qed
  finally show ?thesis unfolding m .
qed

lemma units_inj:
  assumes "a < 2 ^ 10" "b < 2 ^ 10"
  shows "units a = units b \<longleftrightarrow> a = b"
proof
  have lt: "c * 2 ^ 17 < 2 ^ 27" if "c < 2 ^ 10" for c :: nat
    using that mult_strict_right_mono [of c "2 ^ 10" "2 ^ 17"] by simp
  assume "units a = units b"
  then have "dq_hi (units a) = dq_hi (units b)" by (rule arg_cong)
  then have "a * 2 ^ 17 = b * 2 ^ 17"
    by (simp only: units_def hi_slots_small [OF lt [OF assms(1)]] hi_slots_small [OF lt [OF assms(2)]])
  then show "a = b" by simp
qed simp

lemma susp_mask_test:
  "s AND DISPATCH_QUEUE_SUSPEND_BITS_MASK = DISPATCH_QUEUE_NEEDS_ACTIVATION + DISPATCH_QUEUE_INACTIVE
     \<longleftrightarrow> susp s = 3"
  "s AND DISPATCH_QUEUE_SUSPEND_BITS_MASK = DISPATCH_QUEUE_SUSPEND_INTERVAL + DISPATCH_QUEUE_NEEDS_ACTIVATION
     \<longleftrightarrow> susp s = 9"
proof -
  have "DISPATCH_QUEUE_NEEDS_ACTIVATION + DISPATCH_QUEUE_INACTIVE = units 3"
    "DISPATCH_QUEUE_SUSPEND_INTERVAL + DISPATCH_QUEUE_NEEDS_ACTIVATION = units 9"
    by (simp_all add: susp_consts units_def flip: slots_add_eq)
  then show "s AND DISPATCH_QUEUE_SUSPEND_BITS_MASK = DISPATCH_QUEUE_NEEDS_ACTIVATION + DISPATCH_QUEUE_INACTIVE
     \<longleftrightarrow> susp s = 3"
    "s AND DISPATCH_QUEUE_SUSPEND_BITS_MASK = DISPATCH_QUEUE_SUSPEND_INTERVAL + DISPATCH_QUEUE_NEEDS_ACTIVATION
     \<longleftrightarrow> susp s = 9"
    unfolding susp_masked using units_inj [OF susp_bound [of s], of 3] units_inj [OF susp_bound [of s], of 9]
    by (simp_all only:) simp_all
qed

lemma unat_units: "k < 2 ^ 10 \<Longrightarrow> unat (units k) = k * 2 ^ 54"
proof -
  assume "k < 2 ^ 10"
  then have "k * 2 ^ 54 < 2 ^ 10 * 2 ^ 54" by (intro mult_strict_right_mono) simp_all
  then have lt: "k * 2 ^ 54 < 2 ^ 64" by simp
  have "units k = of_nat (k * 2 ^ 54)"
    by (simp add: units_def slots_def DISPATCH_QUEUE_WIDTH_INTERVAL_def)
  then show ?thesis by (simp only: unat_of_nat_u64 mod_less [OF lt])
qed

lemma susp_parts: obtains r where "unat s = susp s * 2 ^ 54 + r" "r < 2 ^ 54"
proof
  show "unat s = susp s * 2 ^ 54 + unat s mod 2 ^ 54" "unat s mod 2 ^ 54 < 2 ^ 54"
    by (simp_all only: susp_div div_mult_mod_eq) simp
qed

lemma units_overflow:
  assumes "k < 2 ^ 10"
  shows "os_add_overflow s (units k) =
           (if susp s + k < 2 ^ 10 then Some (s + units k) else None)"
    and "os_sub_overflow s (units k) =
           (if k \<le> susp s then Some (s - units k) else None)"
proof -
  have "unat s + k * 2 ^ 54 < 2 ^ 64 \<longleftrightarrow> susp s + k < 2 ^ 10"
    by (rule susp_parts [of s]) (auto simp: algebra_simps)
  then show "os_add_overflow s (units k) =
           (if susp s + k < 2 ^ 10 then Some (s + units k) else None)"
    by (simp only: os_add_overflow_def unat_units [OF assms] word_size) simp
  have "units k \<le> s \<longleftrightarrow> k \<le> susp s"
    unfolding word_le_nat_alt unat_units [OF assms] by (rule susp_parts [of s]) auto
  then show "os_sub_overflow s (units k) =
           (if k \<le> susp s then Some (s - units k) else None)"
    by (simp add: os_sub_overflow_def)
qed

lemma susp_hi: "dq_hi s = dq_hi t \<Longrightarrow> susp s = susp t"
  by (simp add: susp_def)

section \<open>What the updates do to the bits\<close>

lemma suspend_susp:
  "dispatch_queue_suspend s = Some v \<Longrightarrow> susp v = susp s + 8"
  "dispatch_queue_suspend s = None \<Longrightarrow> 1016 \<le> susp s"
  unfolding dispatch_queue_suspend_def susp_consts by (auto simp: units_overflow susp_add split: if_splits)

lemma suspend_slow_susp:
  "dispatch_queue_suspend_slow side s = Some v \<Longrightarrow>
     susp s = susp v + (if side = 0 then 500 else 504)"
  unfolding dispatch_queue_suspend_slow_def Let_def unfolding susp_consts(6) unfolding susp_consts(5)
  by (auto simp: units_overflow susp_sub split: if_splits)

lemma resume_slow_susp:
  "dispatch_queue_resume_slow side s = Some v \<Longrightarrow>
     side \<noteq> 0 \<and> susp v = susp s + (if side = DISPATCH_QUEUE_SUSPEND_HALF then 500 else 504)"
  unfolding dispatch_queue_resume_slow_def Let_def unfolding susp_consts(6) unfolding susp_consts(5)
  by (auto simp: units_overflow susp_add split: if_splits)

lemma activated_susp:
  assumes "susp s = 3"
  shows "susp (activated_word s) = 8"
proof -
  have "susp (s - units 2) = 1" using susp_sub [of 2 s] assms by simp
  then have "susp (s - units 2 - units 1) = 0"
    using susp_sub [of 1 "s - units 2"] by simp
  then show ?thesis
    unfolding activated_word_def susp_consts
    using susp_add [of "s - units 2 - units 1" 8] by simp
qed

lemma activate_susp:
  "dispatch_queue_activate_update s = Some v \<Longrightarrow>
     (susp s = 3 \<and> susp v = 8) \<or> (susp s \<noteq> 3 \<and> odd (susp s div 2) \<and> susp v = susp s - 2)"
  "dispatch_queue_activate_update s = None \<Longrightarrow> even (susp s div 2)"
proof -
  have "odd (susp s div 2) \<Longrightarrow> 2 \<le> susp s" by (cases "susp s < 2") auto
  then show "dispatch_queue_activate_update s = Some v \<Longrightarrow>
     (susp s = 3 \<and> susp v = 8) \<or> (susp s \<noteq> 3 \<and> odd (susp s div 2) \<and> susp v = susp s - 2)"
    unfolding dispatch_queue_activate_update_def susp_mask_test susp_tests unfolding susp_consts(2)
    using activated_susp [of s] susp_sub [of 2 s] by (auto split: if_splits)
  show "dispatch_queue_activate_update s = None \<Longrightarrow> even (susp s div 2)"
    unfolding dispatch_queue_activate_update_def susp_mask_test susp_tests by (auto split: if_splits)
qed

text \<open>Taking the barrier at the end of a resume stays below the suspension bits.\<close>

lemma full_width_susp:
  assumes "dq_state_is_runnable v" "full_width_after w v AND DISPATCH_QUEUE_WIDTH_MASK = DISPATCH_QUEUE_WIDTH_FULL_BIT"
  shows "susp ((full_width_after w v AND NOT DISPATCH_QUEUE_DIRTY) OR ucast (tid :: u32)) = 0"
proof -
  let ?f = "full_width_after w v"
  have v: "dq_hi v < 2 ^ 15" using assms(1) by (simp add: runnable_hi)
  define x where "x = (if bit v 36 then dq_hi v + 1 else dq_hi v + unat w)"
  have hi: "dq_hi ?f = x + 2 ^ 16" using full_width_after_word(1) [OF v, of w] by (simp add: x_def)
  have "x < 2 ^ 16 + 2 ^ 15" using v u16_bound [of w] by (auto simp: x_def)
  moreover have "x mod 2 ^ 16 = 2 ^ 15"
    using assms(2) unfolding width_mask_full hi by simp
  ultimately have "x = 2 ^ 15" by (simp only: mod_16_eq_15)
  then have "dq_hi ?f < 2 ^ 17" by (simp add: hi)
  then show ?thesis by (simp add: susp_def lo_op_hi div_eq_0_iff)
qed

lemma resume_susp:
  "dispatch_queue_resume_update kevent w tid s = ResumeTo v \<Longrightarrow>
     (susp s = 9 \<and> susp v = 8) \<or> (kevent \<and> susp s = 3 \<and> susp v = 8) \<or>
     (susp s \<noteq> 9 \<and> 8 \<le> susp s \<and> susp v = susp s - 8)"
  "dispatch_queue_resume_update kevent w tid s = ResumeSlow \<Longrightarrow> susp s < 8 \<and> odd (susp s div 4)"
  "dispatch_queue_resume_update kevent w tid s = OverResume \<Longrightarrow>
     susp s < 8 \<and> even (susp s div 4) \<and> \<not> (kevent \<and> susp s = 3)"
proof -
  have na: "susp (s - units 1) = 8" if "susp s = 9"
    using susp_sub [of 1 s] that by simp
  have sub: "susp (s - units 8) = susp s - 8" if "8 \<le> susp s"
    using susp_sub [OF that] .
  have run: "susp v = 0" if "dq_state_is_runnable v" for v
    using that by (simp add: runnable_hi susp_def div_eq_0_iff)
  note upd = dispatch_queue_resume_update_def susp_mask_test susp_tests(3)
  show "dispatch_queue_resume_update kevent w tid s = ResumeTo v \<Longrightarrow>
     (susp s = 9 \<and> susp v = 8) \<or> (kevent \<and> susp s = 3 \<and> susp v = 8) \<or>
     (susp s \<noteq> 9 \<and> 8 \<le> susp s \<and> susp v = susp s - 8)"
    unfolding upd unfolding susp_consts(1,4) Let_def
    using na activated_susp [of s] sub full_width_susp [of "s - units 8" w tid]
      run [of "s - units 8"]
    by (auto simp: units_overflow split: if_splits option.splits)
  show "dispatch_queue_resume_update kevent w tid s = ResumeSlow \<Longrightarrow> susp s < 8 \<and> odd (susp s div 4)"
    "dispatch_queue_resume_update kevent w tid s = OverResume \<Longrightarrow>
     susp s < 8 \<and> even (susp s div 4) \<and> \<not> (kevent \<and> susp s = 3)"
    unfolding upd unfolding susp_consts(1,4) Let_def
    by (auto simp: units_overflow split: if_splits option.splits)
qed

section \<open>Threads\<close>

text \<open>
  The fields of the queue these operations use: \<open>sq_lock\<close> is the thread that holds \<open>dq_sidelock\<close>,
  \<open>sq_refs\<close> the references that suspension holds on the queue, \<open>sq_finalized\<close> the calls of
  \<open>do_finalize_activation\<close>, \<open>sq_ends\<close> how the resumes that made the queue runnable ended.
\<close>

datatype suspend_crash = TooManySuspends | OverResumed | InvalidSuspension

record suspend_queue =
  sq_state :: u64
  sq_side :: u32
  sq_lock :: "nat option"
  sq_refs :: int
  sq_finalized :: nat
  sq_ends :: "resume_end list"
  sq_crash :: "suspend_crash option"

text \<open>
  Where a thread is: about to run the loop of \<open>suspend\<close> or \<open>resume\<close>, about to take the side lock,
  about to move counts, about to change the side count and unlock, about to retain the queue, about
  to run the activation finalizer, about to give the reference back.
\<close>

datatype suspend_pc =
    QIdle
  | QSuspend
  | QRetain
  | QSuspendLock
  | QSuspendMove
  | QSuspendSide
  | QResume bool
  | QResumeLock
  | QResumeMove
  | QResumeSide
  | QFinalize
  | QEnd resume_end

datatype suspend_event = ESuspended | EResumed | EActivated | EOverResumed | EInternal

type_synonym suspend_move = "suspend_event \<times> suspend_pc \<times> suspend_queue"

definition queue_suspend :: "suspend_queue \<Rightarrow> suspend_move" where
  "queue_suspend q =
     (case dispatch_queue_suspend (sq_state q) of
        None \<Rightarrow> (EInternal, QSuspendLock, q)
      | Some v \<Rightarrow> (ESuspended, if \<not> dq_state_is_suspended (sq_state q) then QRetain else QIdle,
                     q\<lparr>sq_state := v\<rparr>))"

definition queue_sidelock :: "nat \<Rightarrow> suspend_pc \<Rightarrow> suspend_queue \<Rightarrow> suspend_move option" where
  "queue_sidelock i pc q = (if sq_lock q = None then Some (EInternal, pc, q\<lparr>sq_lock := Some i\<rparr>) else None)"

definition queue_suspend_move :: "suspend_queue \<Rightarrow> suspend_move" where
  "queue_suspend_move q =
     (case dispatch_queue_suspend_slow (sq_side q) (sq_state q) of
        None \<Rightarrow> (EInternal, QSuspend, q\<lparr>sq_lock := None\<rparr>)
      | Some v \<Rightarrow> (ESuspended, QSuspendSide, q\<lparr>sq_state := v\<rparr>))"

definition queue_suspend_side :: "suspend_queue \<Rightarrow> suspend_move" where
  "queue_suspend_side q =
     (case os_add_overflow (sq_side q) DISPATCH_QUEUE_SUSPEND_HALF of
        None \<Rightarrow> (EInternal, QSuspendSide, q\<lparr>sq_crash := Some TooManySuspends\<rparr>)
      | Some n \<Rightarrow> (EInternal, QIdle, q\<lparr>sq_side := n, sq_lock := None\<rparr>))"

definition resume_after :: "bool \<Rightarrow> u64 \<Rightarrow> suspend_queue \<Rightarrow> suspend_pc \<times> suspend_queue" where
  "resume_after activate v q =
     (let q' = q\<lparr>sq_state := v\<rparr>
      in case dispatch_queue_resume_end activate (sq_state q) v of
           FinalizeActivation \<Rightarrow> (QFinalize, q')
         | ResumeReturn \<Rightarrow> (QIdle, q')
         | InvalidState \<Rightarrow> (QIdle, q'\<lparr>sq_crash := Some InvalidSuspension\<rparr>)
         | e \<Rightarrow> (QEnd e, q'))"

definition queue_resume :: "bool \<Rightarrow> u16 \<Rightarrow> u32 \<Rightarrow> bool \<Rightarrow> suspend_queue \<Rightarrow> suspend_move" where
  "queue_resume kevent dq_width tid_self activate q =
     (if activate then
        (case dispatch_queue_activate_update (sq_state q) of
           None \<Rightarrow> (EActivated, QIdle, q)
         | Some v \<Rightarrow> (EActivated, resume_after True v q))
      else
        (case dispatch_queue_resume_update kevent dq_width tid_self (sq_state q) of
           ResumeTo v \<Rightarrow> (EResumed, resume_after False v q)
         | ResumeSlow \<Rightarrow> (EInternal, QResumeLock, q)
         | OverResume \<Rightarrow> (EOverResumed, QIdle, q\<lparr>sq_crash := Some OverResumed\<rparr>)))"

definition queue_resume_move :: "suspend_queue \<Rightarrow> suspend_move" where
  "queue_resume_move q =
     (case dispatch_queue_resume_slow (sq_side q) (sq_state q) of
        None \<Rightarrow> (EInternal, QResume False, q\<lparr>sq_lock := None\<rparr>)
      | Some v \<Rightarrow> (EResumed, QResumeSide, q\<lparr>sq_state := v\<rparr>))"

definition queue_resume_side :: "suspend_queue \<Rightarrow> suspend_move" where
  "queue_resume_side q =
     (EInternal, QIdle, q\<lparr>sq_side := sq_side q - DISPATCH_QUEUE_SUSPEND_HALF, sq_lock := None\<rparr>)"

definition queue_finalize_activation :: "suspend_queue \<Rightarrow> suspend_move" where
  "queue_finalize_activation q = (EInternal, QResume False, q\<lparr>sq_finalized := Suc (sq_finalized q)\<rparr>)"

definition queue_resume_end :: "resume_end \<Rightarrow> suspend_queue \<Rightarrow> suspend_move" where
  "queue_resume_end e q = (EInternal, QIdle, q\<lparr>sq_refs := sq_refs q - 1, sq_ends := sq_ends q @ [e]\<rparr>)"

definition queue_retain :: "suspend_queue \<Rightarrow> suspend_move" where
  "queue_retain q = (EInternal, QIdle, q\<lparr>sq_refs := sq_refs q + 1\<rparr>)"

text \<open>What an idle thread calls next.\<close>

datatype suspend_call = CallSuspend | CallResume | CallActivate

definition suspend_next ::
  "bool \<Rightarrow> u16 \<Rightarrow> u32 \<Rightarrow> nat \<Rightarrow> suspend_call \<Rightarrow> suspend_pc \<Rightarrow> suspend_queue \<Rightarrow> suspend_move option" where
  "suspend_next kevent dq_width tid_self i call pc q =
     (case pc of
        QIdle \<Rightarrow> Some (case call of CallSuspend \<Rightarrow> queue_suspend q
                       | CallResume \<Rightarrow> queue_resume kevent dq_width tid_self False q
                       | CallActivate \<Rightarrow> queue_resume kevent dq_width tid_self True q)
      | QSuspend \<Rightarrow> Some (queue_suspend q)
      | QRetain \<Rightarrow> Some (queue_retain q)
      | QSuspendLock \<Rightarrow> queue_sidelock i QSuspendMove q
      | QSuspendMove \<Rightarrow> Some (queue_suspend_move q)
      | QSuspendSide \<Rightarrow> Some (queue_suspend_side q)
      | QResume activate \<Rightarrow> Some (queue_resume kevent dq_width tid_self activate q)
      | QResumeLock \<Rightarrow> queue_sidelock i QResumeMove q
      | QResumeMove \<Rightarrow> Some (queue_resume_move q)
      | QResumeSide \<Rightarrow> Some (queue_resume_side q)
      | QFinalize \<Rightarrow> Some (queue_finalize_activation q)
      | QEnd e \<Rightarrow> Some (queue_resume_end e q))"

text \<open>
  A step is an access of one of these threads, or one of the rest of the program that leaves the ten
  suspension bits alone, as the transitions of \<open>Queue_State\<close> do. The one other function that changes
  those bits, \<open>_dispatch_queue_try_inactive_suspend\<close>, is not a step: it is treated on its own at the
  end of this theory, where it is shown to break the count.
\<close>

inductive suspend_step ::
  "bool \<Rightarrow> u16 \<Rightarrow> suspend_event \<Rightarrow> suspend_queue \<times> suspend_pc list \<Rightarrow> suspend_queue \<times> suspend_pc list \<Rightarrow> bool"
  for kevent dq_width where
  thread_step: "i < length pcs \<Longrightarrow> sq_crash q = None \<Longrightarrow>
    suspend_next kevent dq_width tid i call (pcs ! i) q = Some (e, pc, q') \<Longrightarrow>
    suspend_step kevent dq_width e (q, pcs) (q', pcs[i := pc])"
| other_step: "sq_crash q = None \<Longrightarrow> drop_bit 54 v = drop_bit 54 (sq_state q) \<Longrightarrow>
    suspend_step kevent dq_width EInternal (q, pcs) (q\<lparr>sq_state := v\<rparr>, pcs)"

definition suspend_init :: "u16 \<Rightarrow> bool \<Rightarrow> suspend_queue" where
  "suspend_init dq_width inactive =
     (let (dq_state, refs) = dispatch_queue_init dq_width inactive
      in \<lparr>sq_state = dq_state, sq_side = 0, sq_lock = None, sq_refs = refs, sq_finalized = 0, sq_ends = [],
          sq_crash = None\<rparr>)"

inductive suspend_reachable ::
  "bool \<Rightarrow> u16 \<Rightarrow> bool \<Rightarrow> nat \<Rightarrow> suspend_queue \<times> suspend_pc list \<Rightarrow> bool"
  for kevent dq_width inactive n where
  suspend_start: "suspend_reachable kevent dq_width inactive n (suspend_init dq_width inactive, replicate n QIdle)"
| suspend_later: "suspend_reachable kevent dq_width inactive n c \<Longrightarrow> suspend_step kevent dq_width e c c' \<Longrightarrow>
    suspend_reachable kevent dq_width inactive n c'"

section \<open>The contract: a counter with an activation\<close>

text \<open>The suspensions outstanding, whether the object is inactive, whether it still needs activation.\<close>

type_synonym suspension = "int \<times> bool \<times> bool"

fun suspension_step :: "bool \<Rightarrow> suspend_event \<Rightarrow> suspension \<Rightarrow> suspension option" where
  "suspension_step kevent EInternal (n, i, a) = Some (n, i, a)"
| "suspension_step kevent ESuspended (n, i, a) = Some (n + 1, i, a)"
| "suspension_step kevent EResumed (n, i, a) =
     (if n = 1 \<and> a \<and> \<not> i then Some (1, False, False)
      else if kevent \<and> n = 0 \<and> i \<and> a then Some (1, False, False)
      else if n \<le> 0 then None else Some (n - 1, i, a))"
| "suspension_step kevent EActivated (n, i, a) =
     (if n = 0 \<and> i \<and> a then Some (1, False, False) else Some (n, False, a))"
| "suspension_step kevent EOverResumed (n, i, a) =
     (if n = 0 \<and> \<not> (kevent \<and> i \<and> a) then Some (n, i, a) else None)"

text \<open>Half a count that a thread holding the side lock is moving.\<close>

fun pending_side :: "suspend_pc \<Rightarrow> int" where
  "pending_side QSuspendSide = 64"
| "pending_side QResumeSide = - 64"
| "pending_side _ = 0"

fun holds_sidelock :: "suspend_pc \<Rightarrow> bool" where
  "holds_sidelock QSuspendMove = True"
| "holds_sidelock QSuspendSide = True"
| "holds_sidelock QResumeMove = True"
| "holds_sidelock QResumeSide = True"
| "holds_sidelock _ = False"

definition moving :: "suspend_queue \<Rightarrow> suspend_pc list \<Rightarrow> int" where
  "moving q pcs = (case sq_lock q of None \<Rightarrow> 0 | Some i \<Rightarrow> pending_side (pcs ! i))"

definition suspension_with :: "suspend_queue \<Rightarrow> int \<Rightarrow> suspension" where
  "suspension_with q p =
     (int (unat (dq_state_suspend_cnt (sq_state q))) + uint (sq_side q) + p,
      dq_state_is_inactive (sq_state q), dq_state_needs_activation (sq_state q))"

definition suspension_of :: "suspend_queue \<times> suspend_pc list \<Rightarrow> suspension" where
  "suspension_of c = suspension_with (fst c) (moving (fst c) (snd c))"

section \<open>The simulation\<close>

lemma suspend_cnt_susp: "unat (dq_state_suspend_cnt s) = susp s div 8"
proof -
  have "unat (s div DISPATCH_QUEUE_SUSPEND_INTERVAL) = unat s div 2 ^ 57"
    by (simp add: unat_div DISPATCH_QUEUE_SUSPEND_INTERVAL_def)
  also have "\<dots> = susp s div 8" by (simp add: susp_div div_mult2_eq [symmetric])
  finally have e: "unat (s div DISPATCH_QUEUE_SUSPEND_INTERVAL) = susp s div 8" .
  moreover have "susp s div 8 < 2 ^ 32" using susp_bound [of s] by simp
  ultimately show ?thesis by (simp add: dq_state_suspend_cnt_def unsigned_ucast_eq take_bit_nat_eq_self)
qed

lemma suspension_susp:
  "suspension_with q p =
     (int (susp (sq_state q) div 8) + uint (sq_side q) + p,
      odd (susp (sq_state q) div 2), odd (susp (sq_state q)))"
  by (simp add: suspension_with_def suspend_cnt_susp susp_tests)

text \<open>Adding and subtracting units in the ten bits.\<close>

lemma bits_shift:
  fixes u :: nat
  assumes "u' = u + 8 * k"
  shows "u' div 8 = u div 8 + k" "odd (u' div 4) = odd (u div 4)" "odd (u' div 2) = odd (u div 2)" "odd u' = odd u"
proof -
  show "u' div 8 = u div 8 + k" using assms by simp
  have "u' div 4 = u div 4 + 2 * k" "u' div 2 = u div 2 + 4 * k" using assms by simp_all
  then show "odd (u' div 4) = odd (u div 4)" "odd (u' div 2) = odd (u div 2)" "odd u' = odd u"
    using assms by simp_all
qed

lemma bits_digits:
  fixes l :: nat
  assumes "l < 4"
  shows "(8 * k + l) div 8 = k" "(8 * k + l) div 4 = 2 * k" "(8 * k + l) div 2 = 4 * k + l div 2"
    "(8 * k + (4 + l)) div 8 = k" "(8 * k + (4 + l)) div 4 = 2 * k + 1"
    "(8 * k + (4 + l)) div 2 = 4 * k + (2 + l div 2)"
  using assms by simp_all

lemma bits_obtain:
  fixes u :: nat
  assumes "even (u div 4)"
  obtains k l where "u = 8 * k + l" "l < 4"
proof -
  obtain k where "u div 4 = 2 * k" using assms by (auto elim: evenE)
  then have "u = 8 * k + u mod 4" using div_mult_mod_eq [of u 4] by simp
  then show thesis by (rule that) simp
qed

lemma bits_side:
  fixes u v :: nat
  assumes "u = v + 500" "even (u div 4)"
  shows "u div 8 = v div 8 + 63" "odd (v div 4)" "odd (u div 2) = odd (v div 2)" "odd u = odd v"
proof -
  obtain k l where u: "u = 8 * k + l" and l: "l < 4" using bits_obtain [OF assms(2)] .
  have k: "63 \<le> k" using u l assms(1) by linarith
  then have v: "v = 8 * (k - 63) + (4 + l)" using u assms(1) by linarith
  show "u div 8 = v div 8 + 63" "odd (v div 4)" "odd (u div 2) = odd (v div 2)" "odd u = odd v"
    unfolding u v bits_digits [OF l] using k by simp_all
qed

lemma bits_carry: "odd (u div 4) \<Longrightarrow> even ((u + 500) div 4)" for u :: nat
proof -
  have "(u + 500) div 4 = u div 4 + 125" using div_add [of 4 500 u] by simp
  then show "odd (u div 4) \<Longrightarrow> even ((u + 500) div 4)" by simp
qed

lemma bits_active:
  fixes u :: nat
  assumes "odd (u div 2)"
  shows "(u - 2) div 8 = u div 8" "odd ((u - 2) div 4) = odd (u div 4)" "even ((u - 2) div 2)" "odd (u - 2) = odd u"
proof -
  define w where "w = u div 4"
  have "u div 2 = 2 * w + 1"
  proof -
    have "u div 2 div 2 = w" by (simp add: w_def div_mult2_eq [symmetric])
    then show ?thesis using assms by (metis odd_two_times_div_two_succ)
  qed
  then have u: "u = 4 * w + (2 + u mod 2)" using div_mult_mod_eq [of u 2] by simp
  define l where "l = u mod 2"
  have l: "l < 2" by (simp add: l_def)
  have e: "u = 4 * w + (2 + l)" "u - 2 = 4 * w + l" using u by (simp_all add: l_def)
  have d8: "x div 8 = x div 4 div 2" for x :: nat by (simp add: div_mult2_eq [symmetric])
  have "(u - 2) div 4 = w" "(u - 2) div 2 = 2 * w" unfolding e(2) using l by simp_all
  then show "(u - 2) div 8 = u div 8" "odd ((u - 2) div 4) = odd (u div 4)" "even ((u - 2) div 2)"
    using d8 [of u] d8 [of "u - 2"] by (simp_all add: w_def)
  show "odd (u - 2) = odd u" using e by simp
qed

lemma bits_nine:
  fixes u :: nat
  assumes "u div 8 = 1" "even (u div 4)" "even (u div 2)" "odd u"
  shows "u = 9"
proof -
  obtain k l where u: "u = 8 * k + l" "l < 4" using bits_obtain [OF assms(2)] .
  have "k = 1" using assms(1) u by simp
  have "(8 * k + l) div 2 = 4 * k + l div 2" by (rule bits_digits(3) [OF u(2)])
  then have "even (l div 2)" "odd l" using assms(3,4) u(1) by simp_all
  then have "l = 1" using u(2) by (cases "l = 0"; cases "l = 1"; cases "l = 2"; cases "l = 3") auto
  with u \<open>k = 1\<close> show ?thesis by simp
qed

lemma bits_three:
  fixes u :: nat
  assumes "u div 8 = 0" "even (u div 4)" "odd (u div 2)" "odd u"
  shows "u = 3"
proof -
  obtain k l where u: "u = 8 * k + l" "l < 4" using bits_obtain [OF assms(2)] .
  have k: "k = 0" using assms(1) u by simp
  then have "odd (l div 2)" "odd l" using assms(3,4) u by simp_all
  then have "l = 3" using u(2) by (cases "l = 0"; cases "l = 1"; cases "l = 2"; cases "l = 3") auto
  with u k show ?thesis by simp
qed

lemma susp_low: "u < 8 \<Longrightarrow> even (u div 4) \<Longrightarrow> u < 4" for u :: nat
proof -
  assume u: "u < 8" "even (u div 4)"
  then obtain k l where "u = 8 * k + l" "l < 4" using bits_obtain [OF u(2)] by blast
  then show "u < 4" using u(1) by (cases k) simp_all
qed

lemma susp_low2: "u < 4 \<Longrightarrow> u \<noteq> 0 \<Longrightarrow> even u \<Longrightarrow> odd (u div 2)" for u :: nat
  by (cases "u = 1"; cases "u = 2"; cases "u = 3") auto

lemma bits_small: "u < 8 \<Longrightarrow> u div 8 = 0" "8 \<le> u \<Longrightarrow> 1 \<le> u div 8" for u :: nat
  by simp_all

text \<open>What holds of the queue when the count that is being moved is \<open>p\<close>.\<close>

definition side_wf :: "int \<Rightarrow> int \<Rightarrow> bool \<Rightarrow> bool" where
  "side_wf side p has_side \<longleftrightarrow>
     64 dvd side \<and> 0 \<le> side \<and> p \<in> {- 64, 0, 64} \<and> 0 \<le> side + p \<and> (has_side \<longleftrightarrow> side + p \<noteq> 0)"

definition suspend_wf :: "suspend_queue \<Rightarrow> int \<Rightarrow> bool" where
  "suspend_wf q p \<longleftrightarrow> side_wf (uint (sq_side q)) p (odd (susp (sq_state q) div 4)) \<and>
     (odd (susp (sq_state q) div 2) \<longrightarrow> odd (susp (sq_state q)))"

lemma side_wf_count: "side_wf side p b \<Longrightarrow> if b then 64 \<le> side + p else side + p = 0"
proof -
  assume wf: "side_wf side p b"
  then obtain k where "side = 64 * k" unfolding side_wf_def by (auto elim: dvdE)
  then show ?thesis using wf unfolding side_wf_def by auto
qed

lemma side_half: "unat DISPATCH_QUEUE_SUSPEND_HALF = 64" "uint DISPATCH_QUEUE_SUSPEND_HALF = 64"
  by (simp_all add: DISPATCH_QUEUE_SUSPEND_HALF_def)

definition simulates :: "bool \<Rightarrow> suspend_event \<Rightarrow> suspend_queue \<Rightarrow> int \<Rightarrow> suspend_queue \<Rightarrow> int \<Rightarrow> bool" where
  "simulates kevent e q p q' p' \<longleftrightarrow>
     suspend_wf q' p' \<and> suspension_step kevent e (suspension_with q p) = Some (suspension_with q' p')"

lemma simulates_same:
  "suspend_wf q p \<Longrightarrow> susp (sq_state q') = susp (sq_state q) \<Longrightarrow> sq_side q' = sq_side q \<Longrightarrow>
   simulates kevent EInternal q p q' p"
  by (simp add: simulates_def suspend_wf_def suspension_susp)

lemma suspend_sim:
  assumes "suspend_wf q p" "queue_suspend q = (e, pc, q')"
  shows "simulates kevent e q p q' p"
proof (cases "dispatch_queue_suspend (sq_state q)")
  case None
  then show ?thesis using assms simulates_same [OF assms(1)] by (simp add: queue_suspend_def)
next
  case (Some v)
  then have q': "q' = q\<lparr>sq_state := v\<rparr>" "e = ESuspended" using assms(2) by (simp_all add: queue_suspend_def)
  have "susp v = susp (sq_state q) + 8 * 1" using suspend_susp(1) [OF Some] by simp
  note b = bits_shift [OF this]
  show ?thesis using assms(1) b
    by (simp add: simulates_def suspend_wf_def suspension_susp q')
qed

lemma side_wf_start: "side_wf side 0 b \<Longrightarrow> side_wf side 64 True"
  by (auto simp: side_wf_def)

lemma suspend_move_sim:
  assumes wf: "suspend_wf q 0" and st: "queue_suspend_move q = (e, pc, q')"
  shows "simulates kevent e q 0 q' (pending_side pc)"
proof (cases "dispatch_queue_suspend_slow (sq_side q) (sq_state q)")
  case None
  then have "e = EInternal" "pc = QSuspend" "q' = q\<lparr>sq_lock := None\<rparr>"
    using st by (simp_all add: queue_suspend_move_def)
  then show ?thesis using simulates_same [OF wf, of q'] by simp
next
  case (Some v)
  then have q': "q' = q\<lparr>sq_state := v\<rparr>" "e = ESuspended" "pc = QSuspendSide"
    using st by (simp_all add: queue_suspend_move_def)
  let ?u = "susp (sq_state q)"
  have sw: "side_wf (uint (sq_side q)) 0 (odd (?u div 4))" using wf by (simp add: suspend_wf_def)
  then have z: "(sq_side q = 0) = even (?u div 4)" by (auto simp: side_wf_def uint_0_iff)
  have "?u div 8 = susp v div 8 + 63 \<and> odd (susp v div 4) \<and> odd (?u div 2) = odd (susp v div 2) \<and> odd ?u = odd (susp v)"
  proof (cases "sq_side q = 0")
    case True
    have u: "?u = susp v + 500" using suspend_slow_susp [OF Some] True by simp
    have "even (?u div 4)" using True z by (rule iffD1 [rotated])
    note b = bits_side [OF u this]
    show ?thesis by (intro conjI b)
  next
    case False
    have u: "?u = susp v + 8 * 63" using suspend_slow_susp [OF Some] False by simp
    note b = bits_shift [OF u]
    have "odd (?u div 4)" using False z by blast
    then have "odd (susp v div 4)" unfolding b(2) .
    with b(1,3,4) show ?thesis by blast
  qed
  then show ?thesis using wf side_wf_start [OF sw] by (simp add: simulates_def suspend_wf_def suspension_susp q')
qed

lemma resume_move_sim:
  assumes wf: "suspend_wf q 0" and st: "queue_resume_move q = (e, pc, q')"
  shows "simulates kevent e q 0 q' (pending_side pc)"
proof (cases "dispatch_queue_resume_slow (sq_side q) (sq_state q)")
  case None
  then have "e = EInternal" "pc = QResume False" "q' = q\<lparr>sq_lock := None\<rparr>"
    using st by (simp_all add: queue_resume_move_def)
  then show ?thesis using simulates_same [OF wf, of q'] by simp
next
  case (Some v)
  then have q': "q' = q\<lparr>sq_state := v\<rparr>" "e = EResumed" "pc = QResumeSide"
    using st by (simp_all add: queue_resume_move_def)
  let ?u = "susp (sq_state q)"
  have sw: "side_wf (uint (sq_side q)) 0 (odd (?u div 4))" using wf by (simp add: suspend_wf_def)
  have nz: "sq_side q \<noteq> 0" using resume_slow_susp [OF Some] by simp
  then have u4: "odd (?u div 4)" using sw by (auto simp: side_wf_def uint_0_iff)
  then have ge: "64 \<le> uint (sq_side q)" using side_wf_count [OF sw] by simp
  have half: "(sq_side q = DISPATCH_QUEUE_SUSPEND_HALF) = (uint (sq_side q) = 64)"
    using side_half(2) by (metis word_uint_eq_iff)
  have b: "susp v div 8 = ?u div 8 + 63 \<and> odd (susp v div 4) = (uint (sq_side q) \<noteq> 64) \<and>
      odd (?u div 2) = odd (susp v div 2) \<and> odd ?u = odd (susp v)"
  proof (cases "sq_side q = DISPATCH_QUEUE_SUSPEND_HALF")
    case True
    then have v: "susp v = ?u + 500" using resume_slow_susp [OF Some] by simp
    have e: "even (susp v div 4)" using bits_carry [OF u4] unfolding v .
    have "uint (sq_side q) = 64" using True half by blast
    with e bits_side [OF v e] show ?thesis by blast
  next
    case False
    then have v: "susp v = ?u + 8 * 63" using resume_slow_susp [OF Some] by simp
    have "uint (sq_side q) \<noteq> 64" using False half by blast
    with u4 bits_shift [OF v] show ?thesis by blast
  qed
  have "side_wf (uint (sq_side q)) (- 64) (uint (sq_side q) \<noteq> 64)"
    using sw ge by (auto simp: side_wf_def)
  moreover have "0 < uint (sq_side q) + int (?u div 8) - 1" using ge by simp
  ultimately show ?thesis using wf b ge by (simp add: simulates_def suspend_wf_def suspension_susp q')
qed

lemma resume_after_word:
  "resume_after activate v q = (pc, q') \<Longrightarrow>
     sq_state q' = v \<and> sq_side q' = sq_side q \<and> sq_lock q' = sq_lock q \<and> pending_side pc = 0 \<and> \<not> holds_sidelock pc"
  by (auto simp: resume_after_def Let_def split: resume_end.splits)

text \<open>A new word that takes the activation, or clears one bit of it.\<close>

lemma simulatesI:
  assumes "susp (sq_state q') = u'" "sq_side q' = sq_side q"
    and "side_wf (uint (sq_side q)) p (odd (u' div 4))" "odd (u' div 2) \<longrightarrow> odd u'"
    and "suspension_step kevent e (suspension_with q p) =
           Some (int (u' div 8) + uint (sq_side q) + p, odd (u' div 2), odd u')"
  shows "simulates kevent e q p q' p"
  using assms by (simp add: simulates_def suspend_wf_def suspension_susp)

lemma activate_sim:
  assumes wf: "suspend_wf q p" and st: "queue_resume kevent w tid True q = (e, pc, q')"
  shows "simulates kevent e q p q' p"
proof (cases "dispatch_queue_activate_update (sq_state q)")
  case None
  then have "e = EActivated" "q' = q" using st by (simp_all add: queue_resume_def)
  then show ?thesis using wf activate_susp(2) [OF None]
    by (auto simp: simulates_def suspension_susp suspend_wf_def)
next
  case (Some v)
  then have e: "e = EActivated" and ra: "resume_after True v q = (pc, q')"
    using st by (simp_all add: queue_resume_def)
  let ?u = "susp (sq_state q)"
  have sw: "side_wf (uint (sq_side q)) p (odd (?u div 4))" using wf by (simp add: suspend_wf_def)
  note cnt = side_wf_count [OF sw]
  from activate_susp(1) [OF Some] show ?thesis
  proof (elim disjE conjE)
    assume u: "?u = 3" and v: "susp v = 8"
    show ?thesis
      by (rule simulatesI [where u' = 8])
         (use resume_after_word [OF ra] u v sw cnt in \<open>simp_all add: e suspension_susp\<close>)
  next
    assume u: "?u \<noteq> 3" "odd (?u div 2)" and v: "susp v = ?u - 2"
    note b = bits_active [OF u(2)]
    have "\<not> (int (?u div 8) + uint (sq_side q) + p = 0 \<and> odd ?u)"
    proof (intro notI, elim conjE)
      assume n: "int (?u div 8) + uint (sq_side q) + p = 0" and "odd ?u"
      have "even (?u div 4)" "?u div 8 = 0" using cnt n by (auto split: if_splits)
      then have "?u = 3" using \<open>odd ?u\<close> u(2) by (intro bits_three)
      with u(1) show False ..
    qed
    moreover have "odd ?u" using wf u(2) by (simp add: suspend_wf_def)
    ultimately show ?thesis
      by (intro simulatesI [where u' = "?u - 2"])
         (use resume_after_word [OF ra] v sw b in \<open>simp_all add: e suspension_susp\<close>)
  qed
qed

lemma resume_sim:
  assumes wf: "suspend_wf q p" and st: "queue_resume kevent w tid False q = (e, pc, q')"
  shows "simulates kevent e q p q' p"
proof -
  let ?u = "susp (sq_state q)"
  have sw: "side_wf (uint (sq_side q)) p (odd (?u div 4))" using wf by (simp add: suspend_wf_def)
  note cnt = side_wf_count [OF sw]
  show ?thesis
  proof (cases "dispatch_queue_resume_update kevent w tid (sq_state q)")
    case (ResumeTo v)
    then have e: "e = EResumed" and ra: "resume_after False v q = (pc, q')"
      using st by (simp_all add: queue_resume_def)
    from resume_susp(1) [OF ResumeTo] show ?thesis
    proof (elim disjE conjE)
      assume "?u = 9" "susp v = 8"
      then show ?thesis
        by (intro simulatesI [where u' = 8])
           (use resume_after_word [OF ra] sw cnt in \<open>simp_all add: e suspension_susp\<close>)
    next
      assume "kevent" "?u = 3" "susp v = 8"
      then show ?thesis
        by (intro simulatesI [where u' = 8])
           (use resume_after_word [OF ra] sw cnt in \<open>simp_all add: e suspension_susp\<close>)
    next
      assume u: "?u \<noteq> 9" "8 \<le> ?u" and v: "susp v = ?u - 8"
      have "?u = susp v + 8 * 1" using u v by simp
      note b = bits_shift [OF this]
      have n1: "\<not> (int (?u div 8) + uint (sq_side q) + p = 1 \<and> odd ?u \<and> even (?u div 2))"
        using cnt u bits_nine [of ?u] bits_small(2) [of ?u] by (auto split: if_splits)
      have n0: "0 < int (?u div 8) + uint (sq_side q) + p"
        using cnt bits_small(2) [OF u(2)] by (simp split: if_splits)
      have i: "odd (?u div 2) \<longrightarrow> odd ?u" using wf by (simp add: suspend_wf_def)
      show ?thesis
        by (rule simulatesI [where u' = "susp v"])
           (use resume_after_word [OF ra] sw b n1 n0 i in \<open>simp_all add: e suspension_susp\<close>)
    qed
  next
    case ResumeSlow
    then show ?thesis using st simulates_same [OF wf, of q] by (simp add: queue_resume_def)
  next
    case OverResume
    note o = resume_susp(3) [OF OverResume]
    have "int (?u div 8) + uint (sq_side q) + p = 0" using cnt o by (simp split: if_splits)
    moreover have "\<not> (kevent \<and> odd (?u div 2) \<and> odd ?u)" using o bits_three [of ?u] by auto
    ultimately show ?thesis
      using st OverResume wf by (auto simp: queue_resume_def simulates_def suspension_susp suspend_wf_def)
  qed
qed

lemma resume_pending:
  "queue_resume kevent w tid activate q = (e, pc, q') \<Longrightarrow>
     pending_side pc = 0 \<and> \<not> holds_sidelock pc \<and> sq_lock q' = sq_lock q"
  by (auto simp: queue_resume_def split: if_splits option.splits resume_update.splits dest: resume_after_word sym)

lemma suspend_side_sim:
  assumes wf: "suspend_wf q 64" and st: "queue_suspend_side q = (e, pc, q')"
  shows "simulates kevent e q 64 q' (pending_side pc)"
proof (cases "os_add_overflow (sq_side q) DISPATCH_QUEUE_SUSPEND_HALF")
  case None
  then show ?thesis using st simulates_same [OF wf, of q'] by (auto simp: queue_suspend_side_def)
next
  case (Some m)
  then have q': "q' = q\<lparr>sq_side := m, sq_lock := None\<rparr>" "e = EInternal" "pc = QIdle"
    using st by (simp_all add: queue_suspend_side_def)
  have m: "uint m = uint (sq_side q) + 64"
    using Some unfolding os_add_overflow_Some
    by (metis side_half(1) uint_nat unat_add_no_wrap of_nat_add of_nat_numeral)
  have "side_wf (uint (sq_side q)) 64 (odd (susp (sq_state q) div 4))" using wf by (simp add: suspend_wf_def)
  then have "side_wf (uint m) 0 (odd (susp (sq_state q) div 4))" unfolding m by (auto simp: side_wf_def)
  then show ?thesis using wf by (simp add: simulates_def suspend_wf_def suspension_susp q' m)
qed

lemma resume_side_sim:
  assumes wf: "suspend_wf q (- 64)" and st: "queue_resume_side q = (e, pc, q')"
  shows "simulates kevent e q (- 64) q' (pending_side pc)"
proof -
  let ?m = "sq_side q - DISPATCH_QUEUE_SUSPEND_HALF"
  have q': "q' = q\<lparr>sq_side := ?m, sq_lock := None\<rparr>" "e = EInternal" "pc = QIdle"
    using st by (simp_all add: queue_resume_side_def)
  have sw: "side_wf (uint (sq_side q)) (- 64) (odd (susp (sq_state q) div 4))" using wf by (simp add: suspend_wf_def)
  then have "64 \<le> uint (sq_side q)" by (simp add: side_wf_def)
  then have m: "uint ?m = uint (sq_side q) - 64" by (simp add: uint_sub_if' side_half(2))
  have "side_wf (uint ?m) 0 (odd (susp (sq_state q) div 4))" using sw unfolding m by (auto simp: side_wf_def)
  then show ?thesis using wf by (simp add: simulates_def suspend_wf_def suspension_susp q' m)
qed

section \<open>The invariant\<close>

text \<open>One move of a thread that is, or is not, the one holding the side lock.\<close>

lemma suspend_next_sim:
  assumes "suspend_next kevent w tid i call pc q = Some (e, pc', q')"
    and "suspend_wf q p" "holds_sidelock pc \<Longrightarrow> p = pending_side pc"
  shows "simulates kevent e q p q' (p - pending_side pc + pending_side pc')"
proof -
  have not_moving: "pending_side pc = 0" if "\<not> holds_sidelock pc" using that by (cases pc) simp_all
  show ?thesis
  proof (cases pc)
    case QIdle
    show ?thesis
    proof (cases call)
      case CallSuspend
      then show ?thesis using assms QIdle suspend_sim [OF assms(2), of e pc' q' kevent]
        by (auto simp: suspend_next_def queue_suspend_def split: option.splits if_splits)
    next
      case CallResume
      then have st: "queue_resume kevent w tid False q = (e, pc', q')" using assms(1) QIdle by (simp add: suspend_next_def)
      then show ?thesis using resume_sim [OF assms(2) st] QIdle resume_pending [OF st] by simp
    next
      case CallActivate
      then have st: "queue_resume kevent w tid True q = (e, pc', q')" using assms(1) QIdle by (simp add: suspend_next_def)
      then show ?thesis using activate_sim [OF assms(2) st] QIdle resume_pending [OF st] by simp
    qed
  next
    case QSuspend
    then show ?thesis using assms suspend_sim [OF assms(2), of e pc' q' kevent]
      by (auto simp: suspend_next_def queue_suspend_def split: option.splits if_splits)
  next
    case (QResume activate)
    then have st: "queue_resume kevent w tid activate q = (e, pc', q')" using assms(1) by (simp add: suspend_next_def)
    then show ?thesis using activate_sim [OF assms(2)] resume_sim [OF assms(2)] QResume resume_pending [OF st]
      by (cases activate) auto
  next
    case QSuspendMove
    then show ?thesis using assms suspend_move_sim [of q e pc' q' kevent] by (simp add: suspend_next_def)
  next
    case QSuspendSide
    then show ?thesis using assms suspend_side_sim [of q e pc' q' kevent] by (simp add: suspend_next_def)
  next
    case QResumeMove
    then show ?thesis using assms resume_move_sim [of q e pc' q' kevent] by (simp add: suspend_next_def)
  next
    case QResumeSide
    then show ?thesis using assms resume_side_sim [of q e pc' q' kevent] by (simp add: suspend_next_def)
  qed (use assms(1) simulates_same [OF assms(2), of q'] in
       \<open>auto simp: suspend_next_def queue_retain_def queue_sidelock_def queue_finalize_activation_def
          queue_resume_end_def split: if_splits\<close>)
qed

text \<open>References taken for the suspension less those about to be taken, plus those about to be given back.\<close>

fun suspend_refs :: "suspend_pc \<Rightarrow> int" where
  "suspend_refs QRetain = - 1"
| "suspend_refs (QEnd e) = 1"
| "suspend_refs _ = 0"

fun finalizing :: "suspend_pc \<Rightarrow> int" where
  "finalizing QFinalize = 1"
| "finalizing _ = 0"

text \<open>What a move leaves alone: the balance of references, and of finalizer calls.\<close>

definition ref_balance :: "suspend_queue \<Rightarrow> suspend_pc \<Rightarrow> int" where
  "ref_balance q pc = sq_refs q - of_bool (susp (sq_state q) \<noteq> 0) - suspend_refs pc"

definition final_balance :: "suspend_queue \<Rightarrow> suspend_pc \<Rightarrow> int" where
  "final_balance q pc = int (sq_finalized q) + of_bool (odd (susp (sq_state q))) + finalizing pc"

definition keeps_balance :: "suspend_queue \<Rightarrow> suspend_pc \<Rightarrow> suspend_queue \<Rightarrow> suspend_pc \<Rightarrow> bool" where
  "keeps_balance q pc q' pc' \<longleftrightarrow>
     ref_balance q' pc' = ref_balance q pc \<and> final_balance q' pc' = final_balance q pc \<and>
     (sq_crash q' = sq_crash q \<or> sq_crash q' = Some OverResumed \<or>
      sq_crash q' = Some TooManySuspends \<and> pc' = QSuspendSide \<and> 2 ^ 32 \<le> uint (sq_side q') + 64)"

lemma needs_xor: "((s XOR v) AND DISPATCH_QUEUE_NEEDS_ACTIVATION \<noteq> 0) = (odd (susp s) \<noteq> odd (susp v))"
proof -
  have "((s XOR v) AND DISPATCH_QUEUE_NEEDS_ACTIVATION \<noteq> 0) = (bit s 54 \<noteq> bit v 54)"
    by (simp add: DISPATCH_QUEUE_NEEDS_ACTIVATION_def flag_test bit_xor_iff)
  moreover have "bit x 54 = odd (susp x)" for x :: u64 using bit_hi [of x 17] by (simp add: susp_def)
  ultimately show ?thesis by simp
qed

lemma resume_after_balance:
  assumes "resume_after activate v q = (pc', q')" "susp (sq_state q) \<noteq> 0" "activate \<longrightarrow> susp v \<noteq> 0"
    and "even (susp (sq_state q)) \<longrightarrow> even (susp v)" "odd (susp (sq_state q)) \<and> even (susp v) \<longrightarrow> susp v \<noteq> 0"
    and "suspend_refs pc = 0" "finalizing pc = 0"
  shows "keeps_balance q pc q' pc'"
proof (cases "odd (susp (sq_state q)) \<noteq> odd (susp v)")
  case True
  then have "pc' = QFinalize" "q' = q\<lparr>sq_state := v\<rparr>"
    using assms(1) needs_xor [of "sq_state q" v]
    by (simp_all add: resume_after_def dispatch_queue_resume_end_def Let_def)
  then show ?thesis using assms True
    by (auto simp: keeps_balance_def ref_balance_def final_balance_def)
next
  case False
  then have n: "\<not> (sq_state q XOR v) AND DISPATCH_QUEUE_NEEDS_ACTIVATION \<noteq> 0"
    using needs_xor [of "sq_state q" v] by blast
  have "q' = q\<lparr>sq_state := v\<rparr> \<and> (if susp v \<noteq> 0 then pc' = QIdle else \<exists>e. pc' = QEnd e)"
    using assms(1,3) n
    by (auto simp: resume_after_def dispatch_queue_resume_end_def susp_tests Let_def split: if_splits)
  then show ?thesis using assms(2,6,7) False
    by (auto simp: keeps_balance_def ref_balance_def final_balance_def split: if_splits)
qed

lemma resume_balance:
  assumes st: "queue_resume kevent w tid activate q = (e, pc', q')" and wf: "suspend_wf q p"
    and "suspend_refs pc = 0" "finalizing pc = 0"
  shows "keeps_balance q pc q' pc'"
proof (cases activate)
  case True
  show ?thesis
  proof (cases "dispatch_queue_activate_update (sq_state q)")
    case None
    then show ?thesis using st True assms(3,4)
      by (simp add: queue_resume_def keeps_balance_def ref_balance_def final_balance_def)
  next
    case (Some v)
    let ?u = "susp (sq_state q)"
    have o: "odd (?u div 2) \<longrightarrow> odd ?u" using wf by (simp add: suspend_wf_def)
    have "?u = 3 \<and> susp v = 8 \<or> odd ?u \<and> odd (susp v)"
      using activate_susp(1) [OF Some] o bits_active(4) [of ?u] by auto
    then show ?thesis
      by (intro resume_after_balance [where v = v and activate = True])
         (use st True Some assms(3,4) in \<open>auto simp: queue_resume_def odd_pos\<close>)
  qed
next
  case False
  show ?thesis
  proof (cases "dispatch_queue_resume_update kevent w tid (sq_state q)")
    case (ResumeTo v)
    let ?u = "susp (sq_state q)"
    have "?u \<noteq> 0 \<and> (even ?u \<longrightarrow> even (susp v)) \<and> (odd ?u \<and> even (susp v) \<longrightarrow> susp v \<noteq> 0)"
      using resume_susp(1) [OF ResumeTo] by auto
    then show ?thesis
      by (intro resume_after_balance [where v = v and activate = False])
         (use st False ResumeTo assms(3,4) in \<open>auto simp: queue_resume_def\<close>)
  qed (use st False assms(3,4) in
       \<open>auto simp: queue_resume_def keeps_balance_def ref_balance_def final_balance_def\<close>)
qed

lemma suspend_balance:
  assumes "queue_suspend q = (e, pc', q')" "suspend_refs pc = 0" "finalizing pc = 0"
  shows "keeps_balance q pc q' pc'"
proof (cases "dispatch_queue_suspend (sq_state q)")
  case None
  then show ?thesis using assms by (simp add: queue_suspend_def keeps_balance_def ref_balance_def final_balance_def)
next
  case (Some v)
  have "susp v = susp (sq_state q) + 8" by (rule suspend_susp(1) [OF Some])
  then show ?thesis using assms Some
    by (auto simp: queue_suspend_def keeps_balance_def ref_balance_def final_balance_def susp_tests)
qed

lemma move_balance:
  assumes "susp v \<noteq> 0" "susp (sq_state q) \<noteq> 0" "odd (susp v) = odd (susp (sq_state q))"
    "suspend_refs pc = 0" "finalizing pc = 0" "suspend_refs pc' = 0" "finalizing pc' = 0"
  shows "keeps_balance q pc (q\<lparr>sq_state := v\<rparr>) pc'"
  using assms by (simp add: keeps_balance_def ref_balance_def final_balance_def)

lemma suspend_move_balance:
  assumes "queue_suspend_move q = (e, pc', q')" "suspend_wf q 0"
  shows "keeps_balance q QSuspendMove q' pc'"
proof (cases "dispatch_queue_suspend_slow (sq_side q) (sq_state q)")
  case None
  then show ?thesis using assms by (auto simp: queue_suspend_move_def keeps_balance_def ref_balance_def final_balance_def)
next
  case (Some v)
  have q': "q' = q\<lparr>sq_state := v\<rparr>" "pc' = QSuspendSide"
    using assms(1) Some by (simp_all add: queue_suspend_move_def)
  let ?u = "susp (sq_state q)"
  have u: "?u = susp v + (if sq_side q = 0 then 500 else 504)" by (rule suspend_slow_susp [OF Some])
  have "odd (?u div 4) = (sq_side q \<noteq> 0)" using assms(2) by (auto simp: suspend_wf_def side_wf_def uint_0_iff)
  then have "susp v \<noteq> 0" using u by (intro notI) (simp split: if_splits)
  then show ?thesis unfolding q' using u by (intro move_balance) (simp_all split: if_splits)
qed

lemma resume_move_balance:
  assumes "queue_resume_move q = (e, pc', q')" "suspend_wf q 0"
  shows "keeps_balance q QResumeMove q' pc'"
proof (cases "dispatch_queue_resume_slow (sq_side q) (sq_state q)")
  case None
  then show ?thesis using assms by (auto simp: queue_resume_move_def keeps_balance_def ref_balance_def final_balance_def)
next
  case (Some v)
  have q': "q' = q\<lparr>sq_state := v\<rparr>" "pc' = QResumeSide"
    using assms(1) Some by (simp_all add: queue_resume_move_def)
  note v = resume_slow_susp [OF Some]
  have "odd (susp (sq_state q) div 4)" using assms(2) v by (auto simp: suspend_wf_def side_wf_def uint_0_iff)
  then have "susp (sq_state q) \<noteq> 0" by (cases "susp (sq_state q) = 0") simp_all
  then show ?thesis unfolding q' using v by (intro move_balance) (simp_all split: if_splits)
qed

lemma suspend_next_balance:
  assumes "suspend_next kevent w tid i call pc q = Some (e, pc', q')"
    and "suspend_wf q p" "holds_sidelock pc \<Longrightarrow> p = pending_side pc"
  shows "keeps_balance q pc q' pc'"
proof (cases pc)
  case QIdle
  then show ?thesis using assms suspend_balance [of q e pc' q' pc] resume_balance [OF _ assms(2), of kevent w tid _ e pc' q' pc]
    by (cases call) (auto simp: suspend_next_def)
next
  case QSuspend
  then show ?thesis using assms suspend_balance [of q e pc' q' pc] by (simp add: suspend_next_def)
next
  case (QResume activate)
  then show ?thesis using assms resume_balance [OF _ assms(2), of kevent w tid activate e pc' q' pc]
    by (simp add: suspend_next_def)
next
  case QSuspendMove
  then show ?thesis using assms suspend_move_balance [of q e pc' q'] by (simp add: suspend_next_def)
next
  case QResumeMove
  then show ?thesis using assms resume_move_balance [of q e pc' q'] by (simp add: suspend_next_def)
next
  case QSuspendSide
  have "2 ^ 32 \<le> uint (sq_side q) + 64" if "os_add_overflow (sq_side q) DISPATCH_QUEUE_SUSPEND_HALF = None"
  proof -
    have "2 ^ 32 \<le> unat (sq_side q) + 64" using that side_half(1) by (simp add: os_add_overflow_def split: if_splits)
    then have "int (2 ^ 32) \<le> int (unat (sq_side q) + 64)" by (simp only: of_nat_le_iff)
    then show ?thesis by simp
  qed
  then show ?thesis using assms(1) QSuspendSide
    by (auto simp: suspend_next_def queue_suspend_side_def keeps_balance_def ref_balance_def final_balance_def
        split: option.splits)
qed (use assms(1) in
     \<open>auto simp: suspend_next_def queue_retain_def queue_sidelock_def queue_finalize_activation_def
        queue_resume_end_def queue_resume_side_def keeps_balance_def ref_balance_def final_balance_def
        split: if_splits\<close>)

lemma suspend_next_lock:
  assumes "suspend_next kevent w tid i call pc q = Some (e, pc', q')" "holds_sidelock pc \<longleftrightarrow> sq_lock q = Some i"
  shows "(holds_sidelock pc' \<longleftrightarrow> sq_lock q' = Some i) \<and>
     (sq_lock q' = sq_lock q \<or> sq_lock q = None \<and> sq_lock q' = Some i \<or> sq_lock q = Some i \<and> sq_lock q' = None)"
proof (cases pc)
  case QIdle
  then show ?thesis using assms by (cases call)
      (auto simp: suspend_next_def queue_suspend_def split: option.splits if_splits dest: resume_pending)
next
  case (QResume activate)
  then show ?thesis using assms by (auto simp: suspend_next_def dest: resume_pending)
qed (use assms in \<open>auto simp: suspend_next_def queue_suspend_def queue_retain_def queue_sidelock_def
       queue_finalize_activation_def queue_resume_end_def queue_resume_side_def queue_suspend_side_def
       queue_suspend_move_def queue_resume_move_def split: option.splits if_splits\<close>)

definition suspend_inv :: "bool \<Rightarrow> suspend_queue \<times> suspend_pc list \<Rightarrow> bool" where
  "suspend_inv inactive = (\<lambda>(q, pcs).
     suspend_wf q (moving q pcs) \<and>
     (\<forall>i < length pcs. holds_sidelock (pcs ! i) \<longleftrightarrow> sq_lock q = Some i) \<and>
     (\<forall>i. sq_lock q = Some i \<longrightarrow> i < length pcs) \<and>
     sq_refs q = of_bool (susp (sq_state q) \<noteq> 0) + pc_sum suspend_refs pcs \<and>
     int (sq_finalized q) + of_bool (odd (susp (sq_state q))) + pc_sum finalizing pcs = of_bool inactive \<and>
     sq_crash q \<noteq> Some InvalidSuspension \<and>
     (sq_crash q = Some TooManySuspends \<longrightarrow> 2 ^ 32 \<le> uint (sq_side q) + moving q pcs))"

lemma moving_update:
  assumes "i < length pcs" "holds_sidelock (pcs ! i) \<longleftrightarrow> sq_lock q = Some i"
    "holds_sidelock pc \<longleftrightarrow> sq_lock q' = Some i"
    "sq_lock q' = sq_lock q \<or> sq_lock q = None \<and> sq_lock q' = Some i \<or> sq_lock q = Some i \<and> sq_lock q' = None"
  shows "moving q' (pcs[i := pc]) = moving q pcs - pending_side (pcs ! i) + pending_side pc"
proof -
  have z: "pending_side p = 0" if "\<not> holds_sidelock p" for p using that by (cases p) simp_all
  consider "sq_lock q = Some i" | "sq_lock q \<noteq> Some i" by blast
  then show ?thesis
  proof cases
    case 1
    then show ?thesis using assms z [of pc] by (auto simp: moving_def)
  next
    case 2
    then have "pending_side (pcs ! i) = 0" using assms(2) z by simp
    then show ?thesis using assms 2 z [of pc] by (auto simp: moving_def nth_list_update split: option.splits)
  qed
qed

lemma suspend_step_inv:
  assumes "suspend_inv inactive c" "suspend_step kevent w e c c'"
  shows "suspend_inv inactive c' \<and> suspension_step kevent e (suspension_of c) = Some (suspension_of c')"
  using assms(2)
proof (cases rule: suspend_step.cases)
  case (thread_step i pcs q tid call pc q')
  note c = thread_step(1,2) and i = thread_step(3) and st = thread_step(5)
  have inv: "suspend_wf q (moving q pcs)" "holds_sidelock (pcs ! i) \<longleftrightarrow> sq_lock q = Some i"
    using assms(1) i unfolding c suspend_inv_def by auto
  have p: "holds_sidelock (pcs ! i) \<Longrightarrow> moving q pcs = pending_side (pcs ! i)"
    using inv(2) by (simp add: moving_def)
  note lk = suspend_next_lock [OF st inv(2)]
  have mv: "moving q' (pcs[i := pc]) = moving q pcs - pending_side (pcs ! i) + pending_side pc"
    using lk by (intro moving_update [OF i inv(2)]) auto
  have sim: "simulates kevent e q (moving q pcs) q' (moving q' (pcs[i := pc]))"
    unfolding mv by (rule suspend_next_sim [OF st inv(1) p])
  have bal: "keeps_balance q (pcs ! i) q' pc" by (rule suspend_next_balance [OF st inv(1) p])
  have "suspension_step kevent e (suspension_of c) = Some (suspension_of c')"
    using sim by (simp add: simulates_def suspension_of_def c)
  moreover have "\<forall>j < length pcs. holds_sidelock (pcs[i := pc] ! j) \<longleftrightarrow> sq_lock q' = Some j"
    using assms(1) lk i unfolding c suspend_inv_def by (auto simp: nth_list_update)
  moreover have "\<forall>j. sq_lock q' = Some j \<longrightarrow> j < length pcs"
    using assms(1) lk i unfolding c suspend_inv_def by auto
  moreover have "sq_refs q' = of_bool (susp (sq_state q') \<noteq> 0) + pc_sum suspend_refs (pcs[i := pc])"
    using assms(1) bal pc_sum_update [OF i, of suspend_refs pc]
    unfolding c suspend_inv_def keeps_balance_def ref_balance_def by simp
  moreover have "int (sq_finalized q') + of_bool (odd (susp (sq_state q'))) + pc_sum finalizing (pcs[i := pc]) = of_bool inactive"
    using assms(1) bal pc_sum_update [OF i, of finalizing pc]
    unfolding c suspend_inv_def keeps_balance_def final_balance_def by simp
  moreover have "sq_crash q' \<noteq> Some InvalidSuspension" using bal thread_step(4) by (auto simp: keeps_balance_def)
  moreover have "sq_crash q' = Some TooManySuspends \<longrightarrow> 2 ^ 32 \<le> uint (sq_side q') + moving q' (pcs[i := pc])"
  proof
    assume "sq_crash q' = Some TooManySuspends"
    then have t: "pc = QSuspendSide" "2 ^ 32 \<le> uint (sq_side q') + 64"
      using bal thread_step(4) by (auto simp: keeps_balance_def)
    then have "sq_lock q' = Some i" using lk by simp
    then show "2 ^ 32 \<le> uint (sq_side q') + moving q' (pcs[i := pc])" using t i by (simp add: moving_def)
  qed
  ultimately show ?thesis
    using sim by (simp add: suspend_inv_def simulates_def c)
next
  case (other_step q v pcs)
  have u: "susp v = susp (sq_state q)"
    by (simp only: susp_div unat_drop_bit [symmetric] other_step(5))
  have "suspend_inv inactive c'"
    using assms(1) u unfolding other_step suspend_inv_def by (simp add: suspend_wf_def moving_def)
  moreover have "suspension_step kevent e (suspension_of c) = Some (suspension_of c')"
    using u by (simp add: other_step suspension_of_def suspension_susp moving_def)
  ultimately show ?thesis by blast
qed

lemma suspend_init_inv:
  assumes "unat w \<le> 2 ^ 15"
  shows "suspend_inv inactive (suspend_init w inactive, replicate n QIdle)"
proof -
  let ?s = "DISPATCH_QUEUE_STATE_INIT_VALUE w"
  have hi: "dq_hi ?s = 2 ^ 15 - unat w" by (rule init_value_hi [OF assms])
  then have z: "susp ?s = 0" by (simp add: susp_def div_eq_0_iff)
  have "DISPATCH_QUEUE_INACTIVE + DISPATCH_QUEUE_NEEDS_ACTIVATION = units 3"
    by (simp add: susp_consts units_def flip: slots_add_eq)
  then have "susp (?s + (DISPATCH_QUEUE_INACTIVE + DISPATCH_QUEUE_NEEDS_ACTIVATION)) = 3"
    using susp_add [of ?s 3] z by simp
  then show ?thesis using z
    by (auto simp: suspend_inv_def suspend_init_def dispatch_queue_init_def Let_def moving_def suspend_wf_def
        side_wf_def pc_sum_replicate)
qed

lemma suspend_reachable_inv:
  "suspend_reachable kevent w inactive n c \<Longrightarrow> unat w \<le> 2 ^ 15 \<Longrightarrow> suspend_inv inactive c"
  by (induction rule: suspend_reachable.induct) (simp_all add: suspend_init_inv suspend_step_inv)

text \<open>
  C1.
\<close>

text \<open>
  C5. In every interleaving, while the rest of the state word changes freely, each suspend,
  resume and activate acts as one step on a counter with an activation: the inline count, the
  side count and what a thread is moving between them add up to the suspensions outstanding, a
  resume below zero is the only one that is refused, and the last resume of an activated object
  starts its activation.
\<close>
theorem suspension_refines_counter:
  assumes "suspend_reachable kevent w inactive n c" "unat w \<le> 2 ^ 15" "suspend_step kevent w e c c'"
  shows "suspension_step kevent e (suspension_of c) = Some (suspension_of c')"
  using suspend_step_inv [OF suspend_reachable_inv [OF assms(1,2)] assms(3)] by blast

text \<open>
  C1.
\<close>

text \<open>
  C6. In every interleaving a queue is suspended exactly while suspensions are outstanding or it
  needs activation, it is then kept alive by one reference that the resume that ends it gives
  back, its activation finalizer runs once, the corrupt-state crash is unreachable, and the
  too-many-suspends crash needs 2^32 suspensions.
\<close>
theorem suspension_keeps_references:
  assumes "suspend_reachable kevent w inactive n (q, pcs)" "unat w \<le> 2 ^ 15"
  shows "sq_refs q = of_bool (dq_state_is_suspended (sq_state q)) + pc_sum suspend_refs pcs \<and>
         int (sq_finalized q) + of_bool (dq_state_needs_activation (sq_state q)) + pc_sum finalizing pcs = of_bool inactive \<and>
         (dq_state_is_suspended (sq_state q) \<longleftrightarrow> 0 < fst (suspension_of (q, pcs)) \<or> dq_state_needs_activation (sq_state q)) \<and>
         sq_crash q \<noteq> Some InvalidSuspension \<and>
         (sq_crash q = Some TooManySuspends \<longrightarrow> 2 ^ 32 \<le> fst (suspension_of (q, pcs)))"
proof -
  let ?u = "susp (sq_state q)"
  have inv: "suspend_inv inactive (q, pcs)" by (rule suspend_reachable_inv [OF assms])
  then have wf: "suspend_wf q (moving q pcs)" by (simp add: suspend_inv_def)
  note cnt = side_wf_count [OF conjunct1 [OF wf [unfolded suspend_wf_def]]]
  have "?u \<noteq> 0 \<longleftrightarrow> 0 < fst (suspension_of (q, pcs)) \<or> odd ?u"
  proof
    assume nz: "?u \<noteq> 0"
    show "0 < fst (suspension_of (q, pcs)) \<or> odd ?u"
    proof (cases "odd (?u div 4) \<or> 8 \<le> ?u")
      case True
      then show ?thesis using cnt bits_small(2) [of ?u] by (auto simp: suspension_of_def suspension_susp split: if_splits)
    next
      case False
      then have "?u < 4" by (intro susp_low) auto
      then have "odd ?u" using wf nz susp_low2 [of ?u] by (auto simp: suspend_wf_def)
      then show ?thesis ..
    qed
  next
    assume "0 < fst (suspension_of (q, pcs)) \<or> odd ?u"
    then show "?u \<noteq> 0" using cnt by (intro notI) (simp add: suspension_of_def suspension_susp)
  qed
  then show ?thesis using inv cnt
    by (auto simp: suspend_inv_def susp_tests suspension_of_def suspension_susp)
qed

section \<open>The suspension of the setters\<close>

lemma susp_of_fields:
  assumes "dq_state_suspend_cnt s = 127" "dq_state_is_inactive s" "dq_state_needs_activation s"
    "\<not> dq_state_has_side_suspend_cnt s"
  shows "susp s = 1019"
proof -
  have "susp s div 8 = 127" using assms(1) by (simp flip: suspend_cnt_susp)
  moreover have "even (susp s div 4)" "odd (susp s div 2)" "odd (susp s)" using assms(2-4) by (simp_all add: susp_tests)
  moreover obtain k l where u: "susp s = 8 * k + l" "l < 4" using bits_obtain [OF calculation(2)] .
  moreover have "(8 * k + l) div 2 = 4 * k + l div 2" by (rule bits_digits(3) [OF u(2)])
  ultimately have "k = 127" "odd (l div 2)" "odd l" by simp_all
  then have "l = 3" using u(2) by (cases "l = 0"; cases "l = 1"; cases "l = 2"; cases "l = 3") auto
  then show ?thesis using u \<open>k = 127\<close> by simp
qed

text \<open>
  C1.
\<close>

text \<open>
  C7. On an inactive object suspended exactly 127 times the suspension a setter takes wraps the
  inline count around to zero and its check does not see it: the resume that follows crashes as
  an over-resume, or, for a kevent source, activates the object.
\<close>
theorem inactive_suspend_wraps:
  assumes "dq_state_suspend_cnt s = 127" "dq_state_is_inactive s" "dq_state_needs_activation s"
    "\<not> dq_state_has_side_suspend_cnt s"
  shows "\<exists>v. dispatch_queue_try_inactive_suspend s = Some (v, False) \<and> dq_state_suspend_cnt v = 0 \<and>
     dispatch_queue_resume_update False w tid v = OverResume \<and>
     dispatch_queue_resume_update True w tid v = ResumeTo (activated_word v) \<and>
     dispatch_queue_resume_end False v (activated_word v) = FinalizeActivation"
proof -
  have u: "susp s = 1019" by (rule susp_of_fields [OF assms])
  let ?v = "s + units 8"
  have "s = (s - units 1016) + units 1016" by simp
  then have "?v = (s - units 1016) + (units 1016 + units 8)" by (simp add: algebra_simps)
  also have "units 1016 + units 8 = units 1024" by (simp add: units_def flip: slots_add_eq)
  also have "units 1024 = 0" by (simp add: units_def slots_def DISPATCH_QUEUE_WIDTH_INTERVAL_def)
  finally have v: "susp ?v = 3" using susp_sub [of 1016 s] u by simp
  have av: "susp (activated_word ?v) = 8" by (rule activated_susp [OF v])
  have "dispatch_queue_try_inactive_suspend s = Some (?v, False)"
    using assms(2,4) u by (simp add: dispatch_queue_try_inactive_suspend_def susp_consts susp_tests(1))
  moreover have "dq_state_suspend_cnt ?v = 0"
    using suspend_cnt_susp [of ?v] v by (metis div_less numeral_less_iff semiring_norm(76,78,81) unat_eq_zero)
  moreover have "dispatch_queue_resume_update True w tid ?v = ResumeTo (activated_word ?v)"
    unfolding dispatch_queue_resume_update_def susp_mask_test v by simp
  moreover have "dispatch_queue_resume_update False w tid ?v = OverResume"
    unfolding dispatch_queue_resume_update_def susp_mask_test susp_tests v unfolding susp_consts(4)
    by (simp add: units_overflow v)
  moreover have "dispatch_queue_resume_end False ?v (activated_word ?v) = FinalizeActivation"
    using needs_xor [of ?v "activated_word ?v"] v av by (simp add: dispatch_queue_resume_end_def)
  ultimately show ?thesis by blast
qed

theorem inactive_suspend_wraps_witness:
  "\<exists>v. dispatch_queue_try_inactive_suspend 0xfecfffe000000000 = Some (v, False) \<and> dq_state_suspend_cnt v = 0 \<and>
     dispatch_queue_resume_update False 1 0x103 v = OverResume \<and>
     dispatch_queue_resume_update True 1 0x103 v = ResumeTo (activated_word v) \<and>
     dispatch_queue_resume_end False v (activated_word v) = FinalizeActivation"
  by (rule inactive_suspend_wraps)
     (simp_all add: dq_state_suspend_cnt_def dq_state_is_inactive_def dq_state_needs_activation_def
       dq_state_has_side_suspend_cnt_def DISPATCH_QUEUE_SUSPEND_INTERVAL_def DISPATCH_QUEUE_INACTIVE_def
       DISPATCH_QUEUE_NEEDS_ACTIVATION_def DISPATCH_QUEUE_HAS_SIDE_SUSPEND_CNT_def)

section \<open>A run\<close>

definition sample_suspend :: suspend_queue where
  "sample_suspend = (suspend_init 1 True)\<lparr>sq_state := 0x02cfffe000000000\<rparr>"

lemma sample_suspend_steps:
  "suspend_reachable False 1 True 1 (suspend_init 1 True, [QIdle])"
  "suspend_step False 1 ESuspended (suspend_init 1 True, [QIdle]) (sample_suspend, [QIdle])"
proof -
  show "suspend_reachable False 1 True 1 (suspend_init 1 True, [QIdle])"
    using suspend_start [of False 1 True 1] by simp
  have st: "sq_state (suspend_init 1 True) = 0x00cfffe000000000"
    by (simp add: suspend_init_def dispatch_queue_init_def DISPATCH_QUEUE_STATE_INIT_VALUE_def
        DISPATCH_QUEUE_WIDTH_SHIFT_def DISPATCH_QUEUE_WIDTH_FULL_def DISPATCH_QUEUE_INACTIVE_def
        DISPATCH_QUEUE_NEEDS_ACTIVATION_def)
  have "suspend_next False 1 0x103 0 CallSuspend QIdle (suspend_init 1 True) =
      Some (ESuspended, QIdle, sample_suspend)"
    by (simp add: suspend_next_def queue_suspend_def dispatch_queue_suspend_def os_add_overflow_def st
        DISPATCH_QUEUE_SUSPEND_INTERVAL_def dq_state_is_suspended_def DISPATCH_QUEUE_NEEDS_ACTIVATION_def
        sample_suspend_def)
  then show "suspend_step False 1 ESuspended (suspend_init 1 True, [QIdle]) (sample_suspend, [QIdle])"
    using thread_step [of 0 "[QIdle]" "suspend_init 1 True" False 1 "0x103" CallSuspend ESuspended QIdle sample_suspend]
    by (simp add: suspend_init_def dispatch_queue_init_def)
qed

theorem suspension_refines_counter_witness:
  "suspension_step False ESuspended (suspension_of (suspend_init 1 True, [QIdle])) =
     Some (suspension_of (sample_suspend, [QIdle]))"
  using suspension_refines_counter [OF sample_suspend_steps(1) _ sample_suspend_steps(2)] by simp

theorem suspension_keeps_references_witness:
  "sq_refs sample_suspend = 1"
  using suspension_keeps_references [OF suspend_later [OF sample_suspend_steps]]
  by (simp add: sample_suspend_def dq_state_is_suspended_def DISPATCH_QUEUE_NEEDS_ACTIVATION_def pc_sum_def)

end
