(* ===== verification/Dispatch_Object.thy ===== *)
theory Dispatch_Object
  imports Thread_Lists
begin

text \<open>
  The two reference counts of a dispatch object (\<open>object.c\<close>, \<open>object_internal.h\<close> and
  \<open>inline_internal.h\<close>): external references of clients, internal references of the library, the
  external ones together holding one internal one, and the object disposed of when the last
  internal one goes.
\<close>

section \<open>The object\<close>

text \<open>
  Both counts are kept one below the number of references. \<open>ob_listless\<close> says that \<open>do_next\<close> is
  \<open>DISPATCH_OBJECT_LISTLESS\<close>, a null context or finalizer is 0, \<open>ob_root\<close> marks a root queue;
  \<open>ob_log\<close> is what disposing of the object did.
\<close>

datatype dispose_event = VtableDispose | Dealloc | FinalizerAsync nat nat | ReleaseTarget

record dobject =
  ob_xref_cnt :: int
  ob_ref_cnt :: int
  ob_listless :: bool
  ob_root :: bool
  ob_ctxt :: nat
  ob_finalizer :: nat
  ob_log :: "dispose_event list"
  ob_crash :: bool

definition OS_OBJECT_GLOBAL_REFCNT :: int where "OS_OBJECT_GLOBAL_REFCNT = 0x7fffffff"

definition wrap32 :: "int \<Rightarrow> int" where "wrap32 k = (k + 2 ^ 31) mod 2 ^ 32 - 2 ^ 31"

text \<open>The new count, which a global object does not change.\<close>

definition refcnt_inc :: "int \<Rightarrow> int" where
  "refcnt_inc c = (if c \<noteq> OS_OBJECT_GLOBAL_REFCNT then wrap32 (c + 1) else c)"

definition refcnt_dec :: "int \<Rightarrow> int" where
  "refcnt_dec c = (if c \<noteq> OS_OBJECT_GLOBAL_REFCNT then wrap32 (c - 1) else c)"

section \<open>The operations\<close>

text \<open>What is left to do when an operation has changed its count.\<close>

datatype ref_pc = RIdle | RXrefDispose | RDispose | RResurrect | RWeak int

definition os_object_retain_count :: "dobject \<Rightarrow> u64" where
  "os_object_retain_count ob =
     (if ob_xref_cnt ob = OS_OBJECT_GLOBAL_REFCNT then - 1 else word_of_int (ob_xref_cnt ob + 1))"

definition os_object_retain_internal :: "dobject \<Rightarrow> dobject" where
  "os_object_retain_internal ob =
     (let ref_cnt = refcnt_inc (ob_ref_cnt ob); ob = ob\<lparr>ob_ref_cnt := ref_cnt\<rparr>
      in if ref_cnt \<le> 0 then ob\<lparr>ob_crash := True\<rparr> else ob)"

definition os_object_release_internal :: "dobject \<Rightarrow> ref_pc \<times> dobject" where
  "os_object_release_internal ob =
     (let ref_cnt = refcnt_dec (ob_ref_cnt ob); ob = ob\<lparr>ob_ref_cnt := ref_cnt\<rparr>
      in if 0 \<le> ref_cnt then (RIdle, ob)
         else if ref_cnt < - 1 then (RIdle, ob\<lparr>ob_crash := True\<rparr>)
         else (RDispose, ob))"

definition os_object_retain :: "dobject \<Rightarrow> dobject" where
  "os_object_retain ob =
     (let xref_cnt = refcnt_inc (ob_xref_cnt ob); ob = ob\<lparr>ob_xref_cnt := xref_cnt\<rparr>
      in if xref_cnt \<le> 0 then ob\<lparr>ob_crash := True\<rparr> else ob)"

definition os_object_retain_with_resurrect :: "dobject \<Rightarrow> ref_pc \<times> dobject" where
  "os_object_retain_with_resurrect ob =
     (let xref_cnt = refcnt_inc (ob_xref_cnt ob); ob = ob\<lparr>ob_xref_cnt := xref_cnt\<rparr>
      in if xref_cnt < 0 then (RIdle, ob\<lparr>ob_crash := True\<rparr>)
         else if xref_cnt = 0 then (RResurrect, ob) else (RIdle, ob))"

definition os_object_release :: "dobject \<Rightarrow> ref_pc \<times> dobject" where
  "os_object_release ob =
     (let xref_cnt = refcnt_dec (ob_xref_cnt ob); ob = ob\<lparr>ob_xref_cnt := xref_cnt\<rparr>
      in if 0 \<le> xref_cnt then (RIdle, ob)
         else if xref_cnt < - 1 then (RIdle, ob\<lparr>ob_crash := True\<rparr>)
         else (RXrefDispose, ob))"

text \<open>
  A weak reference: whether it could be taken, or \<open>None\<close> while the loop goes on. \<open>weak\<close>: the
  compare-and-swap fails spuriously.
\<close>

definition os_object_retain_weak :: "dobject \<Rightarrow> bool option \<times> ref_pc" where
  "os_object_retain_weak ob =
     (if ob_xref_cnt ob = OS_OBJECT_GLOBAL_REFCNT then (Some True, RIdle) else (None, RWeak (ob_xref_cnt ob)))"

definition os_object_retain_weak_try :: "bool \<Rightarrow> int \<Rightarrow> dobject \<Rightarrow> bool option \<times> ref_pc \<times> dobject" where
  "os_object_retain_weak_try weak xref_cnt ob =
     (if xref_cnt = - 1 then (Some False, RIdle, ob)
      else if xref_cnt < - 1 then (Some False, RIdle, ob\<lparr>ob_crash := True\<rparr>)
      else if weak \<or> ob_xref_cnt ob \<noteq> xref_cnt then (None, RWeak (ob_xref_cnt ob), ob)
      else (Some True, RIdle, ob\<lparr>ob_xref_cnt := wrap32 (xref_cnt + 1)\<rparr>))"

text \<open>\<open>None\<close> is the crash.\<close>

definition os_object_allows_weak_reference :: "dobject \<Rightarrow> bool option" where
  "os_object_allows_weak_reference ob =
     (if ob_xref_cnt ob = - 1 then Some False else if ob_xref_cnt ob < - 1 then None else Some True)"

text \<open>Disposing of the object.\<close>

definition dispatch_dealloc :: "dobject \<Rightarrow> dobject" where
  "dispatch_dealloc ob =
     ob\<lparr>ob_log := ob_log ob @ [Dealloc] @
         (if ob_finalizer ob \<noteq> 0 \<and> ob_ctxt ob \<noteq> 0 then [FinalizerAsync (ob_ctxt ob) (ob_finalizer ob)] else []) @
         [ReleaseTarget]\<rparr>"

definition dispatch_dispose :: "dobject \<Rightarrow> dobject" where
  "dispatch_dispose ob =
     (if \<not> ob_listless ob then ob\<lparr>ob_crash := True\<rparr>
      else dispatch_dealloc (ob\<lparr>ob_log := ob_log ob @ [VtableDispose]\<rparr>))"

text \<open>Context and finalizer, which global objects and root queues do not have.\<close>

definition dispatch_get_context :: "dobject \<Rightarrow> nat" where
  "dispatch_get_context ob =
     (if ob_ref_cnt ob = OS_OBJECT_GLOBAL_REFCNT \<or> ob_root ob then 0 else ob_ctxt ob)"

definition dispatch_set_context :: "nat \<Rightarrow> dobject \<Rightarrow> dobject" where
  "dispatch_set_context context ob =
     (if ob_ref_cnt ob = OS_OBJECT_GLOBAL_REFCNT \<or> ob_root ob then ob else ob\<lparr>ob_ctxt := context\<rparr>)"

definition dispatch_set_finalizer_f :: "nat \<Rightarrow> dobject \<Rightarrow> dobject" where
  "dispatch_set_finalizer_f finalizer ob =
     (if ob_ref_cnt ob = OS_OBJECT_GLOBAL_REFCNT \<or> ob_root ob then ob else ob\<lparr>ob_finalizer := finalizer\<rparr>)"

section \<open>Threads that keep to their references\<close>

record ref_thread =
  rt_pc :: ref_pc
  rt_ext :: nat
  rt_int :: nat

datatype ref_op = OpRetain | OpRelease | OpRetainInternal | OpReleaseInternal | OpResurrect
  | OpWeak bool | OpSetContext nat | OpSetFinalizer nat

definition ref_room :: "dobject \<Rightarrow> bool" where
  "ref_room ob \<longleftrightarrow> ob_xref_cnt ob < OS_OBJECT_GLOBAL_REFCNT - 1 \<and> ob_ref_cnt ob < OS_OBJECT_GLOBAL_REFCNT - 1"

text \<open>
  A thread starts an operation only when it holds the reference the operation needs, and there are
  fewer than \<open>2 ^ 31 - 1\<close> of each. A weak reference needs none: the Objective-C runtime asks only for
  objects that are not gone, and does not let one go meanwhile.
\<close>

definition ref_call :: "ref_op \<Rightarrow> ref_thread \<Rightarrow> dobject \<Rightarrow> (ref_thread \<times> dobject) option" where
  "ref_call op t ob =
     (case op of
        OpRetain \<Rightarrow> if 0 < rt_ext t \<and> ref_room ob
          then Some (t\<lparr>rt_ext := Suc (rt_ext t)\<rparr>, os_object_retain ob) else None
      | OpRelease \<Rightarrow> if 0 < rt_ext t
          then (let (pc, ob) = os_object_release ob in Some (t\<lparr>rt_pc := pc, rt_ext := rt_ext t - 1\<rparr>, ob)) else None
      | OpRetainInternal \<Rightarrow> if (0 < rt_ext t \<or> 0 < rt_int t) \<and> ref_room ob
          then Some (t\<lparr>rt_int := Suc (rt_int t)\<rparr>, os_object_retain_internal ob) else None
      | OpReleaseInternal \<Rightarrow> if 0 < rt_int t
          then (let (pc, ob) = os_object_release_internal ob in Some (t\<lparr>rt_pc := pc, rt_int := rt_int t - 1\<rparr>, ob))
          else None
      | OpResurrect \<Rightarrow> if 0 < rt_int t \<and> ref_room ob
          then (let (pc, ob) = os_object_retain_with_resurrect ob
                in Some (t\<lparr>rt_pc := pc, rt_ext := Suc (rt_ext t)\<rparr>, ob)) else None
      | OpWeak weak \<Rightarrow> if ob_log ob = []
          then (case os_object_retain_weak ob of
                  (Some r, pc) \<Rightarrow> Some (t\<lparr>rt_ext := Suc (rt_ext t)\<rparr>, ob)
                | (None, pc) \<Rightarrow> Some (t\<lparr>rt_pc := pc\<rparr>, ob)) else None
      | OpSetContext context \<Rightarrow> if 0 < rt_ext t then Some (t, dispatch_set_context context ob) else None
      | OpSetFinalizer f \<Rightarrow> if 0 < rt_ext t then Some (t, dispatch_set_finalizer_f f ob) else None)"

definition ref_next :: "ref_op \<Rightarrow> ref_thread \<Rightarrow> dobject \<Rightarrow> (ref_thread \<times> dobject) option" where
  "ref_next op t ob =
     (case rt_pc t of
        RIdle \<Rightarrow> ref_call op t ob
      | RXrefDispose \<Rightarrow> (let (pc, ob) = os_object_release_internal ob in Some (t\<lparr>rt_pc := pc\<rparr>, ob))
      | RDispose \<Rightarrow> Some (t\<lparr>rt_pc := RIdle\<rparr>, dispatch_dispose ob)
      | RResurrect \<Rightarrow> if ref_room ob then Some (t\<lparr>rt_pc := RIdle\<rparr>, os_object_retain_internal ob) else None
      | RWeak xref_cnt \<Rightarrow>
          (case op of OpWeak weak \<Rightarrow>
             if ref_room ob then
               (case os_object_retain_weak_try weak xref_cnt ob of
                  (Some True, pc, ob) \<Rightarrow> Some (t\<lparr>rt_pc := pc, rt_ext := Suc (rt_ext t)\<rparr>, ob)
                | (r, pc, ob) \<Rightarrow> Some (t\<lparr>rt_pc := pc\<rparr>, ob))
             else None
           | _ \<Rightarrow> None))"

fun in_weak :: "ref_thread \<Rightarrow> bool" where
  "in_weak t = (case rt_pc t of RWeak x \<Rightarrow> True | _ \<Rightarrow> False)"

inductive ref_step :: "dobject \<times> ref_thread list \<Rightarrow> dobject \<times> ref_thread list \<Rightarrow> bool" where
  ref_step: "i < length ts \<Longrightarrow> \<not> ob_crash ob \<Longrightarrow> ref_next op (ts ! i) ob = Some (t, ob') \<Longrightarrow>
    rt_pc (ts ! i) = RDispose \<longrightarrow> (\<forall>t \<in> set ts. \<not> in_weak t) \<Longrightarrow>
    ref_step (ob, ts) (ob', ts[i := t])"

text \<open>A new object has one external reference, of the thread that made it.\<close>

definition dispatch_alloc :: dobject where
  "dispatch_alloc = \<lparr>ob_xref_cnt = 0, ob_ref_cnt = 0, ob_listless = True, ob_root = False, ob_ctxt = 0,
      ob_finalizer = 0, ob_log = [], ob_crash = False\<rparr>"

inductive ref_reachable :: "nat \<Rightarrow> dobject \<times> ref_thread list \<Rightarrow> bool" for n where
  ref_init: "ref_reachable n (dispatch_alloc,
    \<lparr>rt_pc = RIdle, rt_ext = 1, rt_int = 0\<rparr> # replicate n \<lparr>rt_pc = RIdle, rt_ext = 0, rt_int = 0\<rparr>)"
| ref_later: "ref_reachable n c \<Longrightarrow> ref_step c c' \<Longrightarrow> ref_reachable n c'"

section \<open>The counts are the references\<close>

definition ext_refs :: "ref_thread \<Rightarrow> int" where "ext_refs t = int (rt_ext t)"
definition resurrecting :: "ref_thread \<Rightarrow> int" where "resurrecting t = of_bool (rt_pc t = RResurrect)"
definition int_refs :: "ref_thread \<Rightarrow> int" where
  "int_refs t = int (rt_int t) + of_bool (rt_pc t = RXrefDispose)"
definition disposing :: "ref_thread \<Rightarrow> int" where "disposing t = of_bool (rt_pc t = RDispose)"

definition disposed :: "dobject \<Rightarrow> int" where "disposed ob = of_bool (ob_log ob \<noteq> [])"

text \<open>Who resurrects the object holds a reference of each kind; a count that was read is no less than -1.\<close>

definition thread_ok :: "ref_thread \<Rightarrow> bool" where
  "thread_ok t \<longleftrightarrow> (rt_pc t = RResurrect \<longrightarrow> 0 < rt_ext t \<and> 0 < rt_int t) \<and>
     (\<forall>x. rt_pc t = RWeak x \<longrightarrow> - 1 \<le> x)"

definition counts_fit :: "dobject \<Rightarrow> bool" where
  "counts_fit ob \<longleftrightarrow> - 1 \<le> ob_xref_cnt ob \<and> ob_xref_cnt ob < OS_OBJECT_GLOBAL_REFCNT \<and>
     - 1 \<le> ob_ref_cnt ob \<and> ob_ref_cnt ob < OS_OBJECT_GLOBAL_REFCNT"

definition object_inv :: "dobject \<times> ref_thread list \<Rightarrow> bool" where
  "object_inv = (\<lambda>(ob, ts). \<not> ob_crash ob \<and> ob_listless ob \<and> counts_fit ob \<and>
     ob_xref_cnt ob + 1 = pc_sum ext_refs ts \<and>
     ob_ref_cnt ob + 1 = pc_sum int_refs ts + of_bool (0 \<le> ob_xref_cnt ob) - pc_sum resurrecting ts \<and>
     pc_sum resurrecting ts \<le> of_bool (0 \<le> ob_xref_cnt ob) \<and>
     (\<forall>t \<in> set ts. thread_ok t) \<and>
     pc_sum disposing ts + disposed ob = of_bool (ob_ref_cnt ob = - 1))"

lemma wrap32_id: "- (2 ^ 31) \<le> k \<Longrightarrow> k < 2 ^ 31 \<Longrightarrow> wrap32 k = k"
  by (simp add: wrap32_def)

lemma refcnt_inc_id: "- 1 \<le> c \<Longrightarrow> c < OS_OBJECT_GLOBAL_REFCNT \<Longrightarrow> refcnt_inc c = c + 1"
  by (simp add: refcnt_inc_def OS_OBJECT_GLOBAL_REFCNT_def wrap32_id)

lemma refcnt_dec_id: "- 1 \<le> c \<Longrightarrow> c < OS_OBJECT_GLOBAL_REFCNT \<Longrightarrow> refcnt_dec c = c - 1"
  by (simp add: refcnt_dec_def OS_OBJECT_GLOBAL_REFCNT_def wrap32_id)

lemma wrap32_inc: "- 1 \<le> c \<Longrightarrow> c < OS_OBJECT_GLOBAL_REFCNT \<Longrightarrow> wrap32 (c + 1) = c + 1"
  by (simp add: OS_OBJECT_GLOBAL_REFCNT_def wrap32_id)

text \<open>
  One move, in terms of what the other threads hold: \<open>x\<close> external and \<open>n\<close> internal references,
  \<open>r\<close> resurrections and \<open>d\<close> disposals under way.
\<close>

definition balanced :: "dobject \<Rightarrow> ref_thread \<Rightarrow> int \<Rightarrow> int \<Rightarrow> int \<Rightarrow> int \<Rightarrow> bool" where
  "balanced ob t x n r d \<longleftrightarrow> \<not> ob_crash ob \<and> ob_listless ob \<and> counts_fit ob \<and>
     0 \<le> x \<and> 0 \<le> n \<and> 0 \<le> r \<and> r \<le> x \<and> r \<le> n \<and> 0 \<le> d \<and>
     ob_xref_cnt ob + 1 = x + ext_refs t \<and>
     ob_ref_cnt ob + 1 = n + int_refs t + of_bool (0 \<le> ob_xref_cnt ob) - r - resurrecting t \<and>
     r + resurrecting t \<le> of_bool (0 \<le> ob_xref_cnt ob) \<and>
     thread_ok t \<and>
     d + disposing t + disposed ob = of_bool (ob_ref_cnt ob = - 1)"

lemmas ref_weights = thread_ok_def ext_refs_def int_refs_def resurrecting_def disposing_def disposed_def

lemmas ref_ops = os_object_retain_def os_object_release_def os_object_retain_internal_def
  os_object_release_internal_def os_object_retain_with_resurrect_def os_object_retain_weak_def
  os_object_retain_weak_try_def dispatch_set_context_def dispatch_set_finalizer_f_def Let_def

lemma retain_balanced:
  assumes "balanced ob t x n r d" "rt_pc t = RIdle" "0 < rt_ext t" "ref_room ob"
  shows "balanced (os_object_retain ob) (t\<lparr>rt_ext := Suc (rt_ext t)\<rparr>) x n r d"
  using assms
  by (auto simp: balanced_def ref_weights ref_ops counts_fit_def ref_room_def refcnt_inc_id split: if_splits)

lemma release_balanced:
  assumes "balanced ob t x n r d" "rt_pc t = RIdle" "0 < rt_ext t" "os_object_release ob = (pc, ob')"
  shows "balanced ob' (t\<lparr>rt_pc := pc, rt_ext := rt_ext t - 1\<rparr>) x n r d"
  using assms
  by (auto simp: balanced_def ref_weights ref_ops counts_fit_def refcnt_dec_id of_nat_diff split: if_splits split_of_bool split_of_bool_asm)

lemma retain_internal_balanced:
  assumes "balanced ob t x n r d" "rt_pc t = RIdle" "0 < rt_ext t \<or> 0 < rt_int t" "ref_room ob"
  shows "balanced (os_object_retain_internal ob) (t\<lparr>rt_int := Suc (rt_int t)\<rparr>) x n r d"
  using assms
  by (auto simp: balanced_def ref_weights ref_ops counts_fit_def ref_room_def refcnt_inc_id split: if_splits)

lemma release_internal_balanced:
  assumes "balanced ob t x n r d" "rt_pc t = RIdle" "0 < rt_int t" "os_object_release_internal ob = (pc, ob')"
  shows "balanced ob' (t\<lparr>rt_pc := pc, rt_int := rt_int t - 1\<rparr>) x n r d"
  using assms
  by (auto simp: balanced_def ref_weights ref_ops counts_fit_def refcnt_dec_id of_nat_diff split: if_splits split_of_bool split_of_bool_asm)

lemma xref_dispose_balanced:
  assumes "balanced ob t x n r d" "rt_pc t = RXrefDispose" "os_object_release_internal ob = (pc, ob')"
  shows "balanced ob' (t\<lparr>rt_pc := pc\<rparr>) x n r d"
  using assms
  by (auto simp: balanced_def ref_weights ref_ops counts_fit_def refcnt_dec_id of_nat_diff
      split: if_splits split_of_bool split_of_bool_asm)

lemma resurrect_balanced:
  assumes "balanced ob t x n r d" "rt_pc t = RIdle" "0 < rt_int t" "ref_room ob"
    "os_object_retain_with_resurrect ob = (pc, ob')"
  shows "balanced ob' (t\<lparr>rt_pc := pc, rt_ext := Suc (rt_ext t)\<rparr>) x n r d"
  using assms
  by (auto simp: balanced_def ref_weights ref_ops counts_fit_def ref_room_def refcnt_inc_id
      split: if_splits split_of_bool split_of_bool_asm)

lemma resurrected_balanced:
  assumes "balanced ob t x n r d" "rt_pc t = RResurrect" "ref_room ob"
  shows "balanced (os_object_retain_internal ob) (t\<lparr>rt_pc := RIdle\<rparr>) x n r d"
  using assms
  by (auto simp: balanced_def ref_weights ref_ops counts_fit_def ref_room_def refcnt_inc_id
      split: if_splits split_of_bool split_of_bool_asm)

lemma dispose_balanced:
  assumes "balanced ob t x n r d" "rt_pc t = RDispose"
  shows "balanced (dispatch_dispose ob) (t\<lparr>rt_pc := RIdle\<rparr>) x n r d"
  using assms
  by (auto simp: balanced_def ref_weights dispatch_dispose_def dispatch_dealloc_def counts_fit_def
      split: split_of_bool split_of_bool_asm)

lemma weak_balanced:
  assumes "balanced ob t x n r d" "rt_pc t = RWeak xref_cnt" "ref_room ob"
    "os_object_retain_weak_try weak xref_cnt ob = (res, pc, ob')"
  shows "balanced ob' (if res = Some True then t\<lparr>rt_pc := pc, rt_ext := Suc (rt_ext t)\<rparr> else t\<lparr>rt_pc := pc\<rparr>) x n r d"
  using assms
  by (auto simp: balanced_def ref_weights ref_ops counts_fit_def ref_room_def wrap32_inc
      split: if_splits split_of_bool split_of_bool_asm)

lemma context_balanced:
  assumes "balanced ob t x n r d"
  shows "balanced (dispatch_set_context c ob) t x n r d" "balanced (dispatch_set_finalizer_f f ob) t x n r d"
  using assms by (simp_all add: balanced_def ref_weights counts_fit_def dispatch_set_context_def dispatch_set_finalizer_f_def)

lemma ref_next_balanced:
  assumes "balanced ob t x n r d" "ref_next op t ob = Some (t', ob')"
  shows "balanced ob' t' x n r d"
proof (cases "rt_pc t")
  case RIdle
  note bal = assms(1) RIdle
  show ?thesis
  proof (cases op)
    case (OpWeak weak)
    have "ob_xref_cnt ob \<noteq> OS_OBJECT_GLOBAL_REFCNT" using assms(1) by (simp add: balanced_def counts_fit_def)
    then show ?thesis using assms(2) OpWeak bal
      by (auto simp: ref_next_def ref_call_def os_object_retain_weak_def balanced_def ref_weights split: if_splits)
  next
    case OpRelease
    then show ?thesis using assms(2) RIdle release_balanced [OF bal]
      by (auto simp: ref_next_def ref_call_def Let_def split: if_splits prod.splits)
  next
    case OpReleaseInternal
    then show ?thesis using assms(2) RIdle release_internal_balanced [OF bal]
      by (auto simp: ref_next_def ref_call_def Let_def split: if_splits prod.splits)
  next
    case OpResurrect
    then show ?thesis using assms(2) RIdle resurrect_balanced [OF bal]
      by (auto simp: ref_next_def ref_call_def Let_def split: if_splits prod.splits)
  next
    case (OpSetContext c)
    then show ?thesis using assms(2) RIdle context_balanced(1) [OF assms(1), of c]
      by (auto simp: ref_next_def ref_call_def split: if_splits)
  next
    case (OpSetFinalizer f)
    then show ?thesis using assms(2) RIdle context_balanced(2) [OF assms(1), of f]
      by (auto simp: ref_next_def ref_call_def split: if_splits)
  qed (use assms(2) RIdle retain_balanced [OF bal] retain_internal_balanced [OF bal] in
       \<open>auto simp: ref_next_def ref_call_def split: if_splits\<close>)
next
  case RXrefDispose
  then show ?thesis using assms xref_dispose_balanced [OF assms(1) RXrefDispose]
    by (auto simp: ref_next_def Let_def split: prod.splits)
next
  case RDispose
  then show ?thesis using assms dispose_balanced [OF assms(1) RDispose] by (auto simp: ref_next_def)
next
  case RResurrect
  then show ?thesis using assms resurrected_balanced [OF assms(1) RResurrect]
    by (auto simp: ref_next_def split: if_splits)
next
  case (RWeak xref_cnt)
  then show ?thesis using assms
    by (auto simp: ref_next_def split: if_splits prod.splits ref_op.splits option.splits bool.splits
        dest!: weak_balanced [OF assms(1) RWeak])
qed

lemma object_inv_balanced:
  assumes "i < length ts"
  shows "object_inv (ob, ts) \<longleftrightarrow>
    balanced ob (ts ! i) (pc_sum ext_refs ts - ext_refs (ts ! i)) (pc_sum int_refs ts - int_refs (ts ! i))
      (pc_sum resurrecting ts - resurrecting (ts ! i)) (pc_sum disposing ts - disposing (ts ! i)) \<and>
    (\<forall>j < length ts. j \<noteq> i \<longrightarrow> thread_ok (ts ! j))"
proof -
  let ?o = "ts[i := \<lparr>rt_pc = RIdle, rt_ext = 0, rt_int = 0\<rparr>]"
  have o: "pc_sum f ?o = pc_sum f ts - f (ts ! i)" if "f \<lparr>rt_pc = RIdle, rt_ext = 0, rt_int = 0\<rparr> = 0" for f :: "ref_thread \<Rightarrow> int"
    using pc_sum_update [OF assms, of f "\<lparr>rt_pc = RIdle, rt_ext = 0, rt_int = 0\<rparr>"] that by simp
  have nn: "0 \<le> pc_sum ext_refs ?o" "0 \<le> pc_sum int_refs ?o" "0 \<le> pc_sum resurrecting ?o" "0 \<le> pc_sum disposing ?o"
    by (rule pc_sum_nonneg; simp add: ref_weights)+
  have ord: "pc_sum resurrecting ?o \<le> pc_sum ext_refs ?o \<and> pc_sum resurrecting ?o \<le> pc_sum int_refs ?o"
    if "\<forall>j < length ts. j \<noteq> i \<longrightarrow> thread_ok (ts ! j)"
  proof -
    have "resurrecting t \<le> ext_refs t \<and> resurrecting t \<le> int_refs t" if t: "t \<in> set ?o" for t
    proof -
      obtain j where "j < length ts" "t = ?o ! j" using t by (auto simp: in_set_conv_nth)
      then show ?thesis using \<open>\<forall>j < length ts. j \<noteq> i \<longrightarrow> thread_ok (ts ! j)\<close>
        by (cases "j = i") (auto simp: ref_weights)
    qed
    then show ?thesis by (auto intro: pc_sum_mono)
  qed
  have all: "(\<forall>t \<in> set ts. thread_ok t) \<longleftrightarrow>
     thread_ok (ts ! i) \<and>
     (\<forall>j < length ts. j \<noteq> i \<longrightarrow> thread_ok (ts ! j))"
    using assms by (auto simp: all_set_conv_all_nth)
  have z: "ext_refs \<lparr>rt_pc = RIdle, rt_ext = 0, rt_int = 0\<rparr> = 0" "int_refs \<lparr>rt_pc = RIdle, rt_ext = 0, rt_int = 0\<rparr> = 0"
    "resurrecting \<lparr>rt_pc = RIdle, rt_ext = 0, rt_int = 0\<rparr> = 0" "disposing \<lparr>rt_pc = RIdle, rt_ext = 0, rt_int = 0\<rparr> = 0"
    by (simp_all add: ref_weights)
  show ?thesis
    using nn ord unfolding object_inv_def balanced_def prod.case all o [of ext_refs, OF z(1)] o [of int_refs, OF z(2)]
      o [of resurrecting, OF z(3)] o [of disposing, OF z(4)]
    by auto
qed

definition dispose_log :: "dobject \<Rightarrow> dispose_event list" where
  "dispose_log ob = [VtableDispose, Dealloc] @
     (if ob_finalizer ob \<noteq> 0 \<and> ob_ctxt ob \<noteq> 0 then [FinalizerAsync (ob_ctxt ob) (ob_finalizer ob)] else []) @
     [ReleaseTarget]"

text \<open>Nobody holds anything of an object that is being disposed of.\<close>

lemma disposed_unreferenced:
  assumes "object_inv (ob, ts)" "ob_log ob \<noteq> [] \<or> 0 < pc_sum disposing ts" "t \<in> set ts"
  shows "rt_ext t = 0 \<and> rt_int t = 0 \<and> rt_pc t \<noteq> RXrefDispose \<and> rt_pc t \<noteq> RResurrect"
proof -
  obtain i where i: "i < length ts" "t = ts ! i" using assms(3) by (auto simp: in_set_conv_nth)
  have b: "balanced ob t (pc_sum ext_refs ts - ext_refs t) (pc_sum int_refs ts - int_refs t)
      (pc_sum resurrecting ts - resurrecting t) (pc_sum disposing ts - disposing t)"
    using assms(1) i object_inv_balanced [OF i(1)] by simp
  moreover have "ob_ref_cnt ob = - 1"
    using assms(1,2) pc_sum_nonneg [of disposing ts]
    by (auto simp: object_inv_def disposing_def disposed_def split: split_of_bool_asm)
  ultimately show ?thesis
    by (auto simp: balanced_def ref_weights split: split_of_bool_asm)
qed

lemma ref_next_log:
  assumes "object_inv (ob, ts)" "i < length ts" "ref_next op (ts ! i) ob = Some (t, ob')" "ob_log ob \<noteq> [] \<longrightarrow> ob_log ob = dispose_log ob"
  shows "ob_log ob' \<noteq> [] \<longrightarrow> ob_log ob' = dispose_log ob'"
proof (cases "ob_log ob = []")
  case True
  have l: "ob_listless ob" using assms(1) by (simp add: object_inv_def)
  then show ?thesis using assms(3) True
    by (auto simp: ref_next_def ref_call_def ref_ops dispatch_dispose_def dispatch_dealloc_def dispose_log_def
        split: ref_pc.splits ref_op.splits if_splits)
next
  case False
  note z = disposed_unreferenced [OF assms(1) disjI1 [OF False], of "ts ! i"]
  have "rt_pc (ts ! i) \<noteq> RDispose"
  proof
    assume "rt_pc (ts ! i) = RDispose"
    then have "1 \<le> pc_sum disposing ts"
      using pc_sum_member [of disposing i ts] assms(2) by (simp add: disposing_def)
    then show False using assms(1) False by (simp add: object_inv_def disposed_def split: split_of_bool_asm)
  qed
  then have "ob_log ob' = ob_log ob \<and> ob_ctxt ob' = ob_ctxt ob \<and> ob_finalizer ob' = ob_finalizer ob"
    using assms(2,3) z False
    by (auto simp: ref_next_def ref_call_def ref_ops split: ref_pc.splits ref_op.splits if_splits)
  then show ?thesis using assms(4) False by (simp add: dispose_log_def)
qed

lemma object_inv_step:
  assumes "object_inv c" "ref_step c c'"
  shows "object_inv c'"
  using assms(2)
proof (cases rule: ref_step.cases)
  case (ref_step i ts ob op t ob')
  have bal: "balanced ob (ts ! i) (pc_sum ext_refs ts - ext_refs (ts ! i)) (pc_sum int_refs ts - int_refs (ts ! i))
      (pc_sum resurrecting ts - resurrecting (ts ! i)) (pc_sum disposing ts - disposing (ts ! i))"
    and others: "\<forall>j < length ts. j \<noteq> i \<longrightarrow> thread_ok (ts ! j)"
    using assms(1) object_inv_balanced [OF ref_step(3)] unfolding ref_step(1) by auto
  have u: "pc_sum f (ts[i := t]) - f t = pc_sum f ts - f (ts ! i)" for f :: "ref_thread \<Rightarrow> int"
    using pc_sum_update [OF ref_step(3), of f t] by simp
  have "balanced ob' (ts[i := t] ! i) (pc_sum ext_refs (ts[i := t]) - ext_refs (ts[i := t] ! i))
      (pc_sum int_refs (ts[i := t]) - int_refs (ts[i := t] ! i))
      (pc_sum resurrecting (ts[i := t]) - resurrecting (ts[i := t] ! i))
      (pc_sum disposing (ts[i := t]) - disposing (ts[i := t] ! i))"
    using ref_next_balanced [OF bal ref_step(5)] ref_step(3) by (simp add: u)
  then show ?thesis
    unfolding ref_step(2) using object_inv_balanced [of i "ts[i := t]" ob'] ref_step(3) others by simp
qed

lemma ref_reachable_inv:
  "ref_reachable n c \<Longrightarrow> object_inv c \<and> (ob_log (fst c) \<noteq> [] \<longrightarrow> ob_log (fst c) = dispose_log (fst c))"
proof (induction rule: ref_reachable.induct)
  case ref_init
  let ?z = "\<lparr>rt_pc = RIdle, rt_ext = 0, rt_int = 0\<rparr>"
  have "pc_sum ext_refs (replicate n ?z) = 0" "pc_sum int_refs (replicate n ?z) = 0"
    "pc_sum resurrecting (replicate n ?z) = 0" "pc_sum disposing (replicate n ?z) = 0"
    by (rule pc_sum_replicate; simp add: ref_weights)+
  then show ?case
    by (simp add: object_inv_def pc_sum_Cons dispatch_alloc_def counts_fit_def OS_OBJECT_GLOBAL_REFCNT_def ref_weights)
next
  case (ref_later c c')
  have "ob_log (fst c') \<noteq> [] \<longrightarrow> ob_log (fst c') = dispose_log (fst c')"
    using ref_later(2)
  proof (cases rule: ref_step.cases)
    case (ref_step i ts ob op t ob')
    then show ?thesis using ref_next_log [of ob ts i op t ob'] ref_later(3) by simp
  qed
  then show ?case using object_inv_step ref_later by blast
qed

text \<open>
  C1.
\<close>

text \<open>
  C8. In every interleaving of retains, releases, weak references and resurrections by threads
  that use only references they hold, no resurrection or over-release crash is reached, the
  external count is the external references, the object is disposed of at most once, and nobody
  holds a reference when that starts.
\<close>
theorem references_are_safe:
  assumes "ref_reachable n (ob, ts)"
  shows "\<not> ob_crash ob \<and> ob_xref_cnt ob + 1 = pc_sum ext_refs ts \<and>
    pc_sum disposing ts + disposed ob \<le> 1 \<and>
    (ob_log ob \<noteq> [] \<or> (\<exists>t \<in> set ts. rt_pc t = RDispose) \<longrightarrow> (\<forall>t \<in> set ts. rt_ext t = 0 \<and> rt_int t = 0))"
proof -
  have inv: "object_inv (ob, ts)" using ref_reachable_inv [OF assms] by simp
  have "0 < pc_sum disposing ts" if t: "t \<in> set ts" and d: "rt_pc t = RDispose" for t
  proof -
    obtain i where "i < length ts" "t = ts ! i" using t unfolding in_set_conv_nth by blast
    then show ?thesis using pc_sum_member [of disposing i ts] d by (simp add: disposing_def)
  qed
  then show ?thesis using inv disposed_unreferenced [OF inv] by (auto simp: object_inv_def)
qed

text \<open>
  C1.
\<close>

text \<open>
  C9. Once no thread holds a reference or is inside an operation, the object has been disposed
  of: its vtable dispose ran, it was deallocated, its finalizer was submitted with its context
  exactly if it has both, and the reference to its target queue was released.
\<close>
theorem references_do_not_leak:
  assumes "ref_reachable n (ob, ts)" "\<forall>t \<in> set ts. rt_pc t = RIdle \<and> rt_ext t = 0 \<and> rt_int t = 0"
  shows "ob_log ob = dispose_log ob"
proof -
  have inv: "object_inv (ob, ts)" "ob_log ob \<noteq> [] \<longrightarrow> ob_log ob = dispose_log ob"
    using ref_reachable_inv [OF assms(1)] by simp_all
  have z: "pc_sum ext_refs ts = 0" "pc_sum int_refs ts = 0" "pc_sum resurrecting ts = 0" "pc_sum disposing ts = 0"
    by (rule pc_sum_zero; use assms(2) in \<open>simp add: ref_weights\<close>)+
  have x: "ob_xref_cnt ob + 1 = pc_sum ext_refs ts"
    "ob_ref_cnt ob + 1 = pc_sum int_refs ts + of_bool (0 \<le> ob_xref_cnt ob) - pc_sum resurrecting ts"
    "pc_sum disposing ts + disposed ob = of_bool (ob_ref_cnt ob = - 1)"
    using inv(1) by (simp_all add: object_inv_def)
  have "ob_xref_cnt ob = - 1" using x(1) z(1) by linarith
  then have "ob_ref_cnt ob = - 1" using x(2) z(2,3) by simp
  then have "disposed ob = 1" using x(3) z(4) by simp
  then show ?thesis using inv(2) by (simp add: disposed_def)
qed

section \<open>A run\<close>

text \<open>The thread that made the object sets its context and finalizer and lets it go.\<close>

fun ref_run :: "ref_op list \<Rightarrow> dobject \<times> ref_thread list \<Rightarrow> (dobject \<times> ref_thread list) option" where
  "ref_run [] c = Some c"
| "ref_run (op # ops) (ob, ts) =
     (if ts \<noteq> [] \<and> \<not> ob_crash ob \<and> (\<forall>t \<in> set ts. \<not> in_weak t)
      then (case ref_next op (ts ! 0) ob of None \<Rightarrow> None | Some (t, ob') \<Rightarrow> ref_run ops (ob', ts[0 := t]))
      else None)"

lemma ref_run_reachable: "ref_run ops c = Some d \<Longrightarrow> ref_reachable n c \<Longrightarrow> ref_reachable n d"
proof (induction ops c rule: ref_run.induct)
  case (2 op ops ob ts)
  then obtain t ob' where st: "ts \<noteq> []" "\<not> ob_crash ob" "\<forall>t \<in> set ts. \<not> in_weak t"
      "ref_next op (ts ! 0) ob = Some (t, ob')" "ref_run ops (ob', ts[0 := t]) = Some d"
    by (auto split: if_splits option.splits)
  have "ref_step (ob, ts) (ob', ts[0 := t])" using st by (intro ref_step) auto
  then show ?case using 2(1) [OF _ st(4) refl st(5)] st 2(3) by (auto intro: ref_later)
qed simp

definition sample_object :: dobject where
  "sample_object = \<lparr>ob_xref_cnt = - 1, ob_ref_cnt = - 1, ob_listless = True, ob_root = False, ob_ctxt = 5,
      ob_finalizer = 9, ob_log = [VtableDispose, Dealloc, FinalizerAsync 5 9, ReleaseTarget], ob_crash = False\<rparr>"

lemma sample_object_run:
  "ref_reachable 0 (sample_object, [\<lparr>rt_pc = RIdle, rt_ext = 0, rt_int = 0\<rparr>])"
proof -
  have "ref_run [OpSetContext 5, OpSetFinalizer 9, OpRelease, OpRelease, OpRelease]
      (dispatch_alloc, [\<lparr>rt_pc = RIdle, rt_ext = 1, rt_int = 0\<rparr>]) =
    Some (sample_object, [\<lparr>rt_pc = RIdle, rt_ext = 0, rt_int = 0\<rparr>])"
    by (simp add: ref_next_def ref_call_def ref_ops dispatch_alloc_def OS_OBJECT_GLOBAL_REFCNT_def refcnt_dec_def
        wrap32_def dispatch_dispose_def dispatch_dealloc_def sample_object_def)
  from ref_run_reachable [OF this ref_init [where n = 0, unfolded replicate_0]] show ?thesis .
qed

theorem references_are_safe_witness:
  "\<not> ob_crash sample_object \<and> pc_sum ext_refs [\<lparr>rt_pc = RIdle, rt_ext = 0, rt_int = 0\<rparr>] = 0"
  using references_are_safe [OF sample_object_run] by (simp add: sample_object_def)

theorem references_do_not_leak_witness:
  "ob_log sample_object = dispose_log sample_object"
  using references_do_not_leak [OF sample_object_run] by simp

end
