(* ===== verification/Allocator.thy ===== *)
theory Allocator
  imports Dispatch_Prelude
begin

text \<open>
  The continuation allocator of \<open>src/allocator.c\<close>: its magazines (the layout computed by the
  macros of \<open>src/allocator_internal.h\<close>), the address arithmetic between a continuation and
  the bits that account for it, and the operations that allocate and free a continuation.
  The configuration is a 64-bit desktop processor: \<open>__LP64__\<close>, pages of 4096 bytes, cache
  lines of 64 bytes, \<open>PACK_FIRST_PAGE_WITH_CONTINUATIONS\<close> and \<open>DISPATCH_DEBUG\<close> off.
  An address is an \<open>int\<close>, and memory is a map from the address of an 8-byte word to the word.
\<close>

section \<open>The layout of a magazine\<close>

named_theorems magazine_layout \<open>the constants of the layout\<close>

definition DISPATCH_ALLOCATOR_PAGE_SIZE :: int where
  [magazine_layout]: "DISPATCH_ALLOCATOR_PAGE_SIZE = 4096"

definition PAGES_PER_MAGAZINE :: int where
  [magazine_layout]: "PAGES_PER_MAGAZINE = 512"

definition BYTES_PER_BITMAP :: int where
  [magazine_layout]: "BYTES_PER_BITMAP = 8"

definition BYTES_PER_SUPERMAP :: int where
  [magazine_layout]: "BYTES_PER_SUPERMAP = BYTES_PER_BITMAP"

definition ROUND_UP_TO_CACHELINE_SIZE :: "int \<Rightarrow> int" where
  [magazine_layout]: "ROUND_UP_TO_CACHELINE_SIZE x = (x + (64 - 1)) AND NOT (64 - 1)"

definition DISPATCH_CONTINUATION_SIZE :: int where
  [magazine_layout]: "DISPATCH_CONTINUATION_SIZE = ROUND_UP_TO_CACHELINE_SIZE (8 * 8)"

definition ROUND_UP_TO_CONTINUATION_SIZE :: "int \<Rightarrow> int" where
  [magazine_layout]: "ROUND_UP_TO_CONTINUATION_SIZE x =
    (x + (DISPATCH_CONTINUATION_SIZE - 1)) AND NOT (DISPATCH_CONTINUATION_SIZE - 1)"

definition CONTINUATIONS_PER_BITMAP :: nat where
  [magazine_layout]: "CONTINUATIONS_PER_BITMAP = nat (BYTES_PER_BITMAP * 8)"

definition BITMAPS_PER_SUPERMAP :: nat where
  [magazine_layout]: "BITMAPS_PER_SUPERMAP = nat (BYTES_PER_SUPERMAP * 8)"

definition BYTES_PER_MAGAZINE :: int where
  [magazine_layout]: "BYTES_PER_MAGAZINE = PAGES_PER_MAGAZINE * DISPATCH_ALLOCATOR_PAGE_SIZE"

definition CONSUMED_BYTES_PER_BITMAP :: int where
  [magazine_layout]: "CONSUMED_BYTES_PER_BITMAP =
    BYTES_PER_BITMAP + DISPATCH_CONTINUATION_SIZE * int CONTINUATIONS_PER_BITMAP"

definition CONSUMED_BYTES_PER_SUPERMAP :: int where
  [magazine_layout]: "CONSUMED_BYTES_PER_SUPERMAP =
    BYTES_PER_SUPERMAP + int BITMAPS_PER_SUPERMAP * CONSUMED_BYTES_PER_BITMAP"

definition CONTINUATIONS_PER_PAGE :: int where
  [magazine_layout]: "CONTINUATIONS_PER_PAGE =
    DISPATCH_ALLOCATOR_PAGE_SIZE div DISPATCH_CONTINUATION_SIZE"

definition BITMAPS_PER_PAGE :: nat where
  [magazine_layout]: "BITMAPS_PER_PAGE =
    nat (CONTINUATIONS_PER_PAGE div int CONTINUATIONS_PER_BITMAP)"

definition SUPERMAPS_PER_MAGAZINE :: nat where
  [magazine_layout]: "SUPERMAPS_PER_MAGAZINE =
    nat ((BYTES_PER_MAGAZINE - DISPATCH_ALLOCATOR_PAGE_SIZE) div CONSUMED_BYTES_PER_SUPERMAP)"

definition CONTINUATIONS_PER_MAGAZINE :: int where
  [magazine_layout]: "CONTINUATIONS_PER_MAGAZINE =
    int (SUPERMAPS_PER_MAGAZINE * BITMAPS_PER_SUPERMAP * CONTINUATIONS_PER_BITMAP)"

definition ROUND_UP_TO_BITMAP_ALIGNMENT :: "int \<Rightarrow> int" where
  [magazine_layout]: "ROUND_UP_TO_BITMAP_ALIGNMENT x =
    (x + (int BITMAPS_PER_PAGE * BYTES_PER_BITMAP - 1))
      AND NOT (int BITMAPS_PER_PAGE * BYTES_PER_BITMAP - 1)"

definition ROUND_UP_TO_BITMAP_ALIGNMENT_AND_CONTINUATION_SIZE :: "int \<Rightarrow> int" where
  [magazine_layout]: "ROUND_UP_TO_BITMAP_ALIGNMENT_AND_CONTINUATION_SIZE x =
    ROUND_UP_TO_CONTINUATION_SIZE (ROUND_UP_TO_BITMAP_ALIGNMENT x)"

definition SIZEOF_HEADER :: int where
  [magazine_layout]: "SIZEOF_HEADER = 16"

definition SIZEOF_SUPERMAPS :: int where
  [magazine_layout]: "SIZEOF_SUPERMAPS = BYTES_PER_SUPERMAP * int SUPERMAPS_PER_MAGAZINE"

definition SIZEOF_MAPS :: int where
  [magazine_layout]: "SIZEOF_MAPS =
    BYTES_PER_BITMAP * int BITMAPS_PER_SUPERMAP * int SUPERMAPS_PER_MAGAZINE"

definition HEADER_TO_SUPERMAPS_PADDING :: int where
  [magazine_layout]: "HEADER_TO_SUPERMAPS_PADDING = 0"

definition SUPERMAPS_TO_MAPS_PADDING :: int where
  [magazine_layout]: "SUPERMAPS_TO_MAPS_PADDING =
    (let x = SIZEOF_SUPERMAPS + HEADER_TO_SUPERMAPS_PADDING + SIZEOF_HEADER
     in ROUND_UP_TO_BITMAP_ALIGNMENT_AND_CONTINUATION_SIZE x - x)"

definition MAPS_TO_FPMAPS_PADDING :: int where
  [magazine_layout]: "MAPS_TO_FPMAPS_PADDING =
    ROUND_UP_TO_CONTINUATION_SIZE SIZEOF_MAPS - SIZEOF_MAPS"

definition BYTES_LEFT_IN_FIRST_PAGE :: int where
  [magazine_layout]: "BYTES_LEFT_IN_FIRST_PAGE =
    DISPATCH_ALLOCATOR_PAGE_SIZE - (SIZEOF_HEADER + HEADER_TO_SUPERMAPS_PADDING +
      SIZEOF_SUPERMAPS + SUPERMAPS_TO_MAPS_PADDING + SIZEOF_MAPS + MAPS_TO_FPMAPS_PADDING)"

definition MAPS_TO_CONTS_PADDING :: int where
  [magazine_layout]: "MAPS_TO_CONTS_PADDING = BYTES_LEFT_IN_FIRST_PAGE"

definition AFTER_CONTS_PADDING :: int where
  [magazine_layout]: "AFTER_CONTS_PADDING = BYTES_PER_MAGAZINE -
    (DISPATCH_ALLOCATOR_PAGE_SIZE + DISPATCH_CONTINUATION_SIZE * CONTINUATIONS_PER_MAGAZINE)"

text \<open>The offsets of the fields of \<open>struct dispatch_magazine_s\<close>, in the order of the struct.\<close>

definition offsetof_supermaps :: int where
  [magazine_layout]: "offsetof_supermaps = SIZEOF_HEADER + HEADER_TO_SUPERMAPS_PADDING"

definition offsetof_maps :: int where
  [magazine_layout]: "offsetof_maps =
    offsetof_supermaps + SIZEOF_SUPERMAPS + SUPERMAPS_TO_MAPS_PADDING"

definition offsetof_conts :: int where
  [magazine_layout]: "offsetof_conts =
    offsetof_maps + SIZEOF_MAPS + MAPS_TO_FPMAPS_PADDING + MAPS_TO_CONTS_PADDING"

definition sizeof_magazine :: int where
  [magazine_layout]: "sizeof_magazine =
    offsetof_conts + DISPATCH_CONTINUATION_SIZE * CONTINUATIONS_PER_MAGAZINE
      + AFTER_CONTS_PADDING"

lemma layout_values [simp]:
  "DISPATCH_CONTINUATION_SIZE = 64" "BYTES_PER_BITMAP = 8" "BYTES_PER_SUPERMAP = 8"
  "CONTINUATIONS_PER_BITMAP = 64" "BITMAPS_PER_SUPERMAP = 64" "BITMAPS_PER_PAGE = 1"
  "SUPERMAPS_PER_MAGAZINE = 7" "BYTES_PER_MAGAZINE = 2097152" "SIZEOF_HEADER = 16"
  "DISPATCH_ALLOCATOR_PAGE_SIZE = 4096"
  "offsetof_supermaps = 16" "offsetof_maps = 128" "offsetof_conts = 4096"
  "sizeof_magazine = 2097152" "CONTINUATIONS_PER_MAGAZINE = 28672"
  by (simp_all add: magazine_layout)

section \<open>Addresses\<close>

definition MAGAZINE_MASK :: int where
  "MAGAZINE_MASK = NOT (BYTES_PER_MAGAZINE - 1)"

definition DISPATCH_ALLOCATOR_PAGE_MASK :: int where
  "DISPATCH_ALLOCATOR_PAGE_MASK = DISPATCH_ALLOCATOR_PAGE_SIZE - 1"

definition supermap_address :: "int \<Rightarrow> nat \<Rightarrow> int" where
  "supermap_address magazine supermap = magazine + offsetof_supermaps + BYTES_PER_SUPERMAP * int supermap"

definition bitmap_address :: "int \<Rightarrow> nat \<Rightarrow> nat \<Rightarrow> int" where
  "bitmap_address magazine supermap bmap =
    magazine + offsetof_maps + BYTES_PER_BITMAP * int (supermap * BITMAPS_PER_SUPERMAP + bmap)"

definition continuation_address :: "int \<Rightarrow> nat \<Rightarrow> nat \<Rightarrow> nat \<Rightarrow> int" where
  "continuation_address magazine supermap bmap index =
    magazine + offsetof_conts + DISPATCH_CONTINUATION_SIZE *
      int ((supermap * BITMAPS_PER_SUPERMAP + bmap) * CONTINUATIONS_PER_BITMAP + index)"

definition magazine_for_continuation :: "int \<Rightarrow> int" where
  "magazine_for_continuation c = c AND MAGAZINE_MASK"

text \<open>The continuation, the supermap and the index in it that belong to a bit of a bitmap.\<close>

definition get_cont_and_indices_for_bitmap_and_index :: "int \<Rightarrow> nat \<Rightarrow> int \<times> int \<times> nat" where
  "get_cont_and_indices_for_bitmap_and_index bitmap index =
    (let m = magazine_for_continuation bitmap;
         mindex = nat ((bitmap - bitmap_address m 0 0) div BYTES_PER_BITMAP);
         bindex = mindex mod BITMAPS_PER_SUPERMAP;
         sindex = mindex div BITMAPS_PER_SUPERMAP
     in (continuation_address m sindex bindex index, supermap_address m sindex, bindex))"

definition continuation_is_in_first_page :: "int \<Rightarrow> bool" where
  "continuation_is_in_first_page c = False"

text \<open>The supermap, the index in it, the bitmap and the index in it of a continuation.\<close>

definition get_maps_and_indices_for_continuation :: "int \<Rightarrow> int \<times> nat \<times> int \<times> nat" where
  "get_maps_and_indices_for_continuation c =
    (let m = magazine_for_continuation c;
         cindex = nat ((c - continuation_address m 0 0 0) div DISPATCH_CONTINUATION_SIZE);
         sindex = cindex div (BITMAPS_PER_SUPERMAP * CONTINUATIONS_PER_BITMAP);
         mindex = (cindex div CONTINUATIONS_PER_BITMAP) mod BITMAPS_PER_SUPERMAP;
         index = cindex mod CONTINUATIONS_PER_BITMAP
     in (supermap_address m sindex, mindex, bitmap_address m sindex mindex, index))"

definition madvisable_page_base_for_continuation :: "int \<Rightarrow> int" where
  "madvisable_page_base_for_continuation c =
    (if continuation_is_in_first_page c then 0 else c AND NOT DISPATCH_ALLOCATOR_PAGE_MASK)"

definition first_bitmap_in_same_page :: "int \<Rightarrow> int" where
  "first_bitmap_in_same_page b =
    (let PAGE_BITMAP_MASK = int BITMAPS_PER_PAGE * BYTES_PER_BITMAP - 1
     in b AND NOT PAGE_BITMAP_MASK)"

text \<open>
  A magazine begins at a multiple of its size, so masking an address of its interior gives it
  back; the offset in the magazine then says what the address is the address of.
\<close>

definition magazine_aligned :: "int \<Rightarrow> bool" where
  "magazine_aligned m = (m mod BYTES_PER_MAGAZINE = 0)"

lemma and_not_mask_int: "x AND NOT (2 ^ n - 1) = x - x mod 2 ^ n" for x :: int
proof -
  have "x = (x AND NOT (mask n)) OR take_bit n x"
    by (rule bit_eqI) (auto simp: bit_simps)
  also have "\<dots> = (x AND NOT (mask n)) + take_bit n x"
    by (rule disjunctive_add [symmetric]) (auto simp: bit_simps)
  finally have "x AND NOT (mask n) = x - take_bit n x" by linarith
  then show ?thesis by (simp only: mask_eq_exp_minus_1 take_bit_eq_mod)
qed

lemma magazine_for_continuation_eq:
  "magazine_for_continuation c = c - c mod BYTES_PER_MAGAZINE"
  using and_not_mask_int [of c 21]
  by (simp add: magazine_for_continuation_def MAGAZINE_MASK_def)

lemma aligned_mod:
  assumes "magazine_aligned m" "0 \<le> k" "k < 2097152"
  shows "(m + k) mod 2097152 = k"
  using assms by (simp add: magazine_aligned_def mod_add_left_eq [symmetric])

lemma magazine_for_continuation_add:
  assumes "magazine_aligned m" "0 \<le> k" "k < 2097152"
  shows "magazine_for_continuation (m + k) = m"
  using aligned_mod [OF assms] by (simp add: magazine_for_continuation_eq)

lemma bitmap_offset: "s < 7 \<Longrightarrow> b < 64 \<Longrightarrow> s * 64 + b < 448" for s b :: nat
  by linarith

lemma map_in_magazine: "k < 448 \<Longrightarrow> 0 \<le> 128 + 8 * int k" "k < 448 \<Longrightarrow> 128 + 8 * int k < 2097152"
  by simp_all

lemma cont_in_magazine:
  assumes "k < 448" "i < 64"
  shows "0 \<le> 4096 + 64 * int (k * 64 + i)" "4096 + 64 * int (k * 64 + i) < 2097152"
  using assms by simp_all

lemma digit:
  fixes i m k :: nat
  assumes "i < m"
  shows "(k * m + i) div m = k" "(k * m + i) mod m = i"
  using assms by (simp_all only: add.commute [of _ i] div_mult_self1 mod_mult_self1) simp_all

lemma digit_unique:
  fixes i i' m k k' :: nat
  assumes "k * m + i = k' * m + i'" "i < m" "i' < m"
  shows "k = k' \<and> i = i'"
  using digit [OF assms(2), of k] digit [OF assms(3), of k'] assms(1) by simp

lemma bitmap_address_eq: "bitmap_address m s b = m + (128 + 8 * int (s * 64 + b))"
  by (simp add: bitmap_address_def)

lemma continuation_address_eq:
  "continuation_address m s b i = m + (4096 + 64 * int ((s * 64 + b) * 64 + i))"
  by (simp add: continuation_address_def)

lemma magazine_of_bitmap:
  assumes "magazine_aligned m" "s < 7" "b < 64"
  shows "magazine_for_continuation (bitmap_address m s b) = m"
  unfolding bitmap_address_eq using map_in_magazine [OF bitmap_offset [OF assms(2,3)]]
  by (intro magazine_for_continuation_add [OF assms(1)])

lemma magazine_of_continuation:
  assumes "magazine_aligned m" "s < 7" "b < 64" "i < 64"
  shows "magazine_for_continuation (continuation_address m s b i) = m"
  unfolding continuation_address_eq
  using cont_in_magazine [OF bitmap_offset [OF assms(2,3)] assms(4)]
  by (intro magazine_for_continuation_add [OF assms(1)])

lemma maps_of_continuation:
  assumes "magazine_aligned m" "s < 7" "b < 64" "i < 64"
  shows "get_maps_and_indices_for_continuation (continuation_address m s b i)
    = (supermap_address m s, b, bitmap_address m s b, i)"
proof -
  let ?c = "(s * 64 + b) * 64 + i"
  have c: "nat ((continuation_address m s b i - continuation_address m 0 0 0) div 64) = ?c"
    unfolding continuation_address_eq by (simp del: of_nat_add of_nat_mult)
  have d: "?c div 64 = s * 64 + b" "?c mod 64 = i" by (rule digit [OF assms(4)])+
  have e: "?c div (64 * 64) = s" unfolding div_mult2_eq d(1) by (rule digit(1) [OF assms(3)])
  have f: "(s * 64 + b) mod 64 = b" by (rule digit(2) [OF assms(3)])
  show ?thesis
    unfolding get_maps_and_indices_for_continuation_def magazine_of_continuation [OF assms]
      Let_def layout_values c d e f ..
qed

lemma cont_of_bitmap:
  assumes "magazine_aligned m" "s < 7" "b < 64"
  shows "get_cont_and_indices_for_bitmap_and_index (bitmap_address m s b) i
    = (continuation_address m s b i, supermap_address m s, b)"
proof -
  have "nat ((bitmap_address m s b - bitmap_address m 0 0) div 8) = s * 64 + b"
    unfolding bitmap_address_eq by (simp del: of_nat_add of_nat_mult)
  then show ?thesis
    unfolding get_cont_and_indices_for_bitmap_and_index_def magazine_of_bitmap [OF assms]
      Let_def layout_values by (simp only: digit [OF assms(3)])
qed

lemma bitmap_address_inj:
  assumes "magazine_aligned m" "s < 7" "b < 64" "magazine_aligned m'" "s' < 7" "b' < 64"
  shows "bitmap_address m s b = bitmap_address m' s' b' \<longleftrightarrow> m = m' \<and> s = s' \<and> b = b'"
proof
  assume eq: "bitmap_address m s b = bitmap_address m' s' b'"
  then have m: "m = m'" using magazine_of_bitmap assms by metis
  have "int (s * 64 + b) = int (s' * 64 + b')" using eq unfolding bitmap_address_eq m by (simp only: add_left_cancel mult_cancel_left) simp
  then have "s * 64 + b = s' * 64 + b'" by (rule of_nat_eq_iff [THEN iffD1])
  then show "m = m' \<and> s = s' \<and> b = b'" using m digit_unique assms(3,6) by blast
qed simp

lemma continuation_address_inj:
  assumes "magazine_aligned m" "s < 7" "b < 64" "i < 64"
    and "magazine_aligned m'" "s' < 7" "b' < 64" "i' < 64"
    and eq: "continuation_address m s b i = continuation_address m' s' b' i'"
  shows "m = m' \<and> s = s' \<and> b = b' \<and> i = i'"
proof -
  from maps_of_continuation [OF assms(1-4)] maps_of_continuation [OF assms(5-8)] eq
  have "bitmap_address m s b = bitmap_address m' s' b'" "i = i'" by auto
  then show ?thesis using bitmap_address_inj assms by metis
qed

lemma first_bitmap_in_same_page_eq:
  assumes "magazine_aligned m" 
  shows "first_bitmap_in_same_page (bitmap_address m s b) = bitmap_address m s b"
proof -
  have "8 dvd m"
    using assms dvd_trans [of 8 2097152 m] by (simp add: magazine_aligned_def mod_eq_0_iff_dvd)
  then have "8 dvd bitmap_address m s b" unfolding bitmap_address_eq by (intro dvd_add) simp_all
  then have "bitmap_address m s b mod 8 = 0" by simp
  then show ?thesis using and_not_mask_int [of "bitmap_address m s b" 3]
    by (simp add: first_bitmap_in_same_page_def Let_def)
qed

lemma page_base_of_continuation:
  assumes "magazine_aligned m" "s < 7" "b < 64" "i < 64"
  shows "madvisable_page_base_for_continuation (continuation_address m s b i)
    = continuation_address m s b 0"
proof -
  have m: "4096 dvd m"
    using assms(1) dvd_trans [of 4096 2097152 m]
    by (simp add: magazine_aligned_def mod_eq_0_iff_dvd)
  then have d: "(4096 :: int) dvd m + 4096 * (1 + int (s * 64 + b))"
    by (intro dvd_add dvd_triv_left)
  have "continuation_address m s b i = 64 * int i + (m + 4096 * (1 + int (s * 64 + b)))"
    by (simp add: continuation_address_eq)
  then have "continuation_address m s b i mod 4096 = 64 * int i mod 4096"
    using d by (metis mod_add_right_eq mod_eq_0_iff_dvd add.right_neutral)
  also have "\<dots> = 64 * int i" using assms(4) by (intro mod_pos_pos_trivial) simp_all
  finally show ?thesis using and_not_mask_int [of "continuation_address m s b i" 12]
    by (simp add: madvisable_page_base_for_continuation_def continuation_is_in_first_page_def
        DISPATCH_ALLOCATOR_PAGE_MASK_def continuation_address_eq)
qed

section \<open>Bitmaps\<close>

definition BITMAP_ALL_ONES :: u64 where
  "BITMAP_ALL_ONES = NOT 0"

definition bitmap_is_full :: "u64 \<Rightarrow> bool" where
  "bitmap_is_full bits = (bits = BITMAP_ALL_ONES)"

definition NO_BITS_WERE_UNSET :: nat where
  "NO_BITS_WERE_UNSET = 4294967295"

text \<open>\<open>__builtin_ffsl\<close>: one plus the index of the least significant set bit, or 0.\<close>

definition builtin_ffsl :: "u64 \<Rightarrow> nat" where
  "builtin_ffsl w = (case find (bit w) [0..<64] of None \<Rightarrow> 0 | Some i \<Rightarrow> i + 1)"

text \<open>The index set, or \<open>UINT_MAX\<close>, and the bitmap afterwards.\<close>

definition os_atomic_set_first_bit :: "u64 \<Rightarrow> nat \<Rightarrow> nat \<times> u64" where
  "os_atomic_set_first_bit b max_index =
    (let index = builtin_ffsl (NOT b)
     in if index = 0 then (NO_BITS_WERE_UNSET, b)
        else if index - 1 > max_index then (NO_BITS_WERE_UNSET, b)
        else (index - 1, b OR push_bit (index - 1) 1))"

lemma find_upt_Some:
  "find P [0..<n] = Some i \<longleftrightarrow> i < n \<and> P i \<and> (\<forall>j < i. \<not> P j)"
  by (auto simp: find_Some_iff)

lemma find_upt_None: "find P [0..<n] = None \<longleftrightarrow> (\<forall>i < n. \<not> P i)"
  by (auto simp: find_None_iff)

lemma set_first_bit_cases:
  obtains (full) "os_atomic_set_first_bit b max_index = (NO_BITS_WERE_UNSET, b)"
      "\<And>i. i < 64 \<Longrightarrow> i \<le> max_index \<Longrightarrow> bit b i"
  | (found) i where "os_atomic_set_first_bit b max_index = (i, b OR 2 ^ i)"
      "i < 64" "i \<le> max_index" "\<not> bit b i" "\<And>j. j < i \<Longrightarrow> bit b j"
proof (cases "find (bit (NOT b)) [0..<64]")
  case None
  then have "os_atomic_set_first_bit b max_index = (NO_BITS_WERE_UNSET, b)"
    by (simp add: os_atomic_set_first_bit_def builtin_ffsl_def)
  moreover have "bit b i" if "i < 64" for i
    using None that by (auto simp: find_upt_None bit_simps)
  ultimately show ?thesis by (intro full) auto
next
  case (Some i)
  then have i: "i < 64" "\<not> bit b i" "\<And>j. j < i \<Longrightarrow> bit b j"
    by (auto simp: find_upt_Some bit_simps)
  show ?thesis
  proof (cases "i > max_index")
    case True
    then have "bit b k" if "k < 64" "k \<le> max_index" for k using that i(3) [of k] by simp
    with True Some show ?thesis
      by (intro full) (auto simp: os_atomic_set_first_bit_def builtin_ffsl_def)
  next
    case False
    with Some i show ?thesis
      by (intro found [of i]) (auto simp: os_atomic_set_first_bit_def builtin_ffsl_def)
  qed
qed

lemma bit_set_bit [simp]: "bit (b OR 2 ^ i) j \<longleftrightarrow> bit b j \<or> (j = i \<and> i < 64)"
  for b :: u64
  by (auto simp: bit_simps)

lemma bit_clear_bit [simp]: "bit (b AND NOT (2 ^ i)) j \<longleftrightarrow> bit b j \<and> j \<noteq> i"
  for b :: u64
  by (auto simp: bit_simps dest: bit_u64_less)

lemma bitmap_is_full_bits: "bitmap_is_full b \<longleftrightarrow> (\<forall>i < 64. bit b i)"
  by (auto simp: bitmap_is_full_def BITMAP_ALL_ONES_def bit_simps intro!: bit_eqI dest: bit_u64_less)

lemma set_then_clear: "\<not> bit b i \<Longrightarrow> i < 64 \<Longrightarrow> (b OR 2 ^ i) AND NOT (2 ^ i) = b"
  for b :: u64
  by (rule bit_eqI) auto

section \<open>The allocator\<close>

text \<open>
  What \<open>mach_vm_map\<close> answers, call by call: the address of a fresh region of memory, filled
  with zeros and aligned to a magazine, or an error. \<open>cpus\<close> is what \<open>_dispatch_cpu_number\<close>
  answers, read by read. \<open>mapped\<close> are the heaps mapped into the address space, and
  \<open>madvised\<close> the pages given back by \<open>madvise\<close>.
\<close>

datatype vm_result = Vm_region int | Vm_error int

definition KERN_NO_SPACE :: int where
  "KERN_NO_SPACE = 3"

datatype alloc_crash = Could_not_allocate_heap int | Failed_to_clear_bit_exclusively u64

record alloc_state =
  mem :: "int \<Rightarrow> u64"
  main_heap :: int
  num_cpu :: nat
  cpus :: "nat \<Rightarrow> nat"
  cpu_reads :: nat
  vm :: "vm_result list"
  mapped :: "int list"
  madvised :: "int list"

type_synonym 'a alloc_run = "(alloc_crash + 'a) option"

definition store :: "int \<Rightarrow> u64 \<Rightarrow> alloc_state \<Rightarrow> alloc_state" where
  "store a w st = st\<lparr>mem := (mem st)(a := w)\<rparr>"

definition dispatch_cpu_number :: "alloc_state \<Rightarrow> nat \<times> alloc_state" where
  "dispatch_cpu_number st = (cpus st (cpu_reads st), st\<lparr>cpu_reads := cpu_reads st + 1\<rparr>)"

definition last_found_address :: "int \<Rightarrow> nat \<Rightarrow> int" where
  "last_found_address heap cpu = heap + BYTES_PER_MAGAZINE * int cpu + 8"

definition set_last_found_page :: "int \<Rightarrow> alloc_state \<Rightarrow> alloc_state" where
  "set_last_found_page val st =
    (let (cpu, st) = dispatch_cpu_number st
     in store (last_found_address (main_heap st) cpu) (word_of_int val) st)"

definition last_found_page :: "alloc_state \<Rightarrow> int \<times> alloc_state" where
  "last_found_page st =
    (let (cpu, st) = dispatch_cpu_number st
     in (uint (mem st (last_found_address (main_heap st) cpu)), st))"

definition bitmap_set_first_unset_bit_upto_index ::
  "int \<Rightarrow> nat \<Rightarrow> alloc_state \<Rightarrow> nat \<times> alloc_state" where
  "bitmap_set_first_unset_bit_upto_index bitmap max_index st =
    (let (index, w) = os_atomic_set_first_bit (mem st bitmap) max_index
     in (index, store bitmap w st))"

definition bitmap_set_first_unset_bit :: "int \<Rightarrow> alloc_state \<Rightarrow> nat \<times> alloc_state" where
  "bitmap_set_first_unset_bit bitmap st =
    bitmap_set_first_unset_bit_upto_index bitmap 4294967295 st"

definition bitmap_clear_bit ::
  "int \<Rightarrow> nat \<Rightarrow> bool \<Rightarrow> alloc_state \<Rightarrow> alloc_crash + bool \<times> alloc_state" where
  "bitmap_clear_bit bitmap index exclusively st =
    (let mask = push_bit index 1; b = mem st bitmap
     in if exclusively \<and> b AND mask = 0 then Inl (Failed_to_clear_bit_exclusively b)
        else let b = b AND NOT mask in Inr (b = 0, store bitmap b st))"

definition mark_bitmap_as_full_if_still_full ::
  "int \<Rightarrow> nat \<Rightarrow> int \<Rightarrow> alloc_state \<Rightarrow> alloc_state" where
  "mark_bitmap_as_full_if_still_full supermap bitmap_index bitmap st =
    (let mask = push_bit bitmap_index 1
     in if \<not> bitmap_is_full (mem st bitmap) then st
        else let s = mem st supermap; s_masked = s OR mask in store supermap s_masked st)"

fun alloc_from_bitmaps :: "int \<Rightarrow> nat \<Rightarrow> nat list \<Rightarrow> alloc_state \<Rightarrow> int \<times> alloc_state" where
  "alloc_from_bitmaps magazine s [] st = (0, st)"
| "alloc_from_bitmaps magazine s (b # bs) st =
    (let bitmap = bitmap_address magazine s b;
         (index, st) = bitmap_set_first_unset_bit bitmap st
     in if index \<noteq> NO_BITS_WERE_UNSET
        then (let st = set_last_found_page (first_bitmap_in_same_page bitmap) st;
                  st = mark_bitmap_as_full_if_still_full (supermap_address magazine s) b bitmap st
              in (continuation_address magazine s b index, st))
        else alloc_from_bitmaps magazine s bs st)"

fun alloc_from_supermaps :: "int \<Rightarrow> nat list \<Rightarrow> alloc_state \<Rightarrow> int \<times> alloc_state" where
  "alloc_from_supermaps magazine [] st = (0, st)"
| "alloc_from_supermaps magazine (s # ss) st =
    (if bitmap_is_full (mem st (supermap_address magazine s))
     then alloc_from_supermaps magazine ss st
     else let (c, st) = alloc_from_bitmaps magazine s [0..<BITMAPS_PER_SUPERMAP] st
          in if c \<noteq> 0 then (c, st) else alloc_from_supermaps magazine ss st)"

definition alloc_continuation_from_magazine :: "int \<Rightarrow> alloc_state \<Rightarrow> int \<times> alloc_state" where
  "alloc_continuation_from_magazine magazine st =
    alloc_from_supermaps magazine [0..<SUPERMAPS_PER_MAGAZINE] st"

text \<open>The variable that links to a heap: the main one, or the field of the heap before it.\<close>

datatype heap_ptr = Main_heap | Dh_next int

fun load_heap :: "heap_ptr \<Rightarrow> alloc_state \<Rightarrow> int" where
  "load_heap Main_heap st = main_heap st"
| "load_heap (Dh_next heap) st = uint (mem st heap)"

fun store_heap :: "heap_ptr \<Rightarrow> int \<Rightarrow> alloc_state \<Rightarrow> alloc_state" where
  "store_heap Main_heap h st = st\<lparr>main_heap := h\<rparr>"
| "store_heap (Dh_next heap) h st = store heap (word_of_int h) st"

text \<open>
  The loop around \<open>mach_vm_map\<close>: without an answer that ends it, it sleeps and asks again, and
  does not return.
\<close>

fun mach_vm_map_loop :: "vm_result list \<Rightarrow> (int \<times> vm_result list) alloc_run" where
  "mach_vm_map_loop [] = None"
| "mach_vm_map_loop (Vm_region a # rs) = Some (Inr (a, rs))"
| "mach_vm_map_loop (Vm_error kr # rs) =
    (if kr \<noteq> KERN_NO_SPACE then Some (Inl (Could_not_allocate_heap kr))
     else mach_vm_map_loop rs)"

definition dispatch_alloc_try_create_heap :: "heap_ptr \<Rightarrow> alloc_state \<Rightarrow> alloc_state alloc_run" where
  "dispatch_alloc_try_create_heap heap_ptr st =
    (case mach_vm_map_loop (vm st) of
       None \<Rightarrow> None
     | Some (Inl e) \<Rightarrow> Some (Inl e)
     | Some (Inr (region, rs)) \<Rightarrow>
         let st = st\<lparr>vm := rs\<rparr>
         in if load_heap heap_ptr st = 0
            then Some (Inr ((store_heap heap_ptr region st)\<lparr>mapped := mapped st @ [region]\<rparr>))
            else Some (Inr st))"

definition dispatch_alloc_continuation_from_heap :: "int \<Rightarrow> alloc_state \<Rightarrow> int \<times> alloc_state" where
  "dispatch_alloc_continuation_from_heap heap st =
    (let (cpu_number, st) = dispatch_cpu_number st
     in alloc_continuation_from_magazine (heap + BYTES_PER_MAGAZINE * int cpu_number) st)"

partial_function (option) alloc_from_heap_loop ::
  "heap_ptr \<Rightarrow> alloc_state \<Rightarrow> (int \<times> alloc_state) alloc_run" where
  "alloc_from_heap_loop heap st =
    (case (if load_heap heap st = 0 then dispatch_alloc_try_create_heap heap st
           else Some (Inr st)) of
       None \<Rightarrow> None
     | Some (Inl e) \<Rightarrow> Some (Inl e)
     | Some (Inr st) \<Rightarrow>
         (case dispatch_alloc_continuation_from_heap (load_heap heap st) st of
            (cont, st) \<Rightarrow>
              if cont \<noteq> 0 then Some (Inr (cont, st))
              else alloc_from_heap_loop (Dh_next (load_heap heap st)) st))"

definition dispatch_alloc_continuation_from_heap_slow ::
  "alloc_state \<Rightarrow> (int \<times> alloc_state) alloc_run" where
  "dispatch_alloc_continuation_from_heap_slow st = alloc_from_heap_loop Main_heap st"

text \<open>The page where a continuation was found last time.\<close>

fun alloc_from_last_page :: "int \<Rightarrow> nat list \<Rightarrow> alloc_state \<Rightarrow> int \<times> alloc_state" where
  "alloc_from_last_page last_page [] st = (0, st)"
| "alloc_from_last_page last_page (i # rest) st =
    (let cur = last_page + BYTES_PER_BITMAP * int i;
         (index, st) = bitmap_set_first_unset_bit cur st
     in if index \<noteq> NO_BITS_WERE_UNSET
        then (let (cont, supermap, bindex) = get_cont_and_indices_for_bitmap_and_index cur index
              in (cont, mark_bitmap_as_full_if_still_full supermap bindex cur st))
        else alloc_from_last_page last_page rest st)"

definition dispatch_alloc_continuation_alloc :: "alloc_state \<Rightarrow> (int \<times> alloc_state) alloc_run" where
  "dispatch_alloc_continuation_alloc st =
    (if main_heap st \<noteq> 0
     then let (last_page, st) = last_found_page st;
              (cont, st) = (if last_page \<noteq> 0 then alloc_from_last_page last_page [0..<BITMAPS_PER_PAGE] st
                            else (0, st))
          in if cont \<noteq> 0 then Some (Inr (cont, st))
             else let (cont, st) = dispatch_alloc_continuation_from_heap (main_heap st) st
                  in if cont \<noteq> 0 then Some (Inr (cont, st))
                     else dispatch_alloc_continuation_from_heap_slow st
     else dispatch_alloc_continuation_from_heap_slow st)"

section \<open>Freeing\<close>

fun madvise_lock :: "int \<Rightarrow> nat \<Rightarrow> nat \<Rightarrow> alloc_state \<Rightarrow> bool \<times> nat \<times> alloc_state" where
  "madvise_lock page_bitmaps last_locked 0 st = (True, last_locked, st)"
| "madvise_lock page_bitmaps last_locked (Suc left) st =
    (let b = page_bitmaps + BYTES_PER_BITMAP * int last_locked
     in if mem st b = 0
        then madvise_lock page_bitmaps (last_locked + 1) left (store b BITMAP_ALL_ONES st)
        else (False, last_locked, st))"

fun madvise_unlock :: "int \<Rightarrow> nat \<Rightarrow> alloc_state \<Rightarrow> alloc_state" where
  "madvise_unlock page_bitmaps (Suc (Suc n)) st =
    madvise_unlock page_bitmaps (Suc n) (store (page_bitmaps + BYTES_PER_BITMAP * int (Suc n)) 0 st)"
| "madvise_unlock page_bitmaps (Suc 0) st = store page_bitmaps 0 st"
| "madvise_unlock page_bitmaps 0 st = st"

definition dispatch_alloc_maybe_madvise_page :: "int \<Rightarrow> alloc_state \<Rightarrow> alloc_state" where
  "dispatch_alloc_maybe_madvise_page c st =
    (let page = madvisable_page_base_for_continuation c
     in if page = 0 then st
        else let (_, _, page_bitmaps, _) = get_maps_and_indices_for_continuation page
             in if \<exists>i \<in> set [0..<BITMAPS_PER_PAGE]. mem st (page_bitmaps + BYTES_PER_BITMAP * int i) \<noteq> 0
                then st
                else let (locked, last_locked, st) = madvise_lock page_bitmaps 0 BITMAPS_PER_PAGE st;
                         st = (if locked then st\<lparr>madvised := madvised st @ [page]\<rparr> else st)
                     in madvise_unlock page_bitmaps last_locked st)"

definition dispatch_alloc_continuation_free :: "int \<Rightarrow> alloc_state \<Rightarrow> alloc_crash + alloc_state" where
  "dispatch_alloc_continuation_free c st =
    (let (s, b_idx, b, idx) = get_maps_and_indices_for_continuation c
     in case bitmap_clear_bit b idx True st of
          Inl e \<Rightarrow> Inl e
        | Inr (bitmap_now_empty, st) \<Rightarrow>
            (case (if s \<noteq> 0 then bitmap_clear_bit s b_idx False st else Inr (False, st)) of
               Inl e \<Rightarrow> Inl e
             | Inr (_, st) \<Rightarrow>
                 if bitmap_now_empty \<and> s \<noteq> 0 then Inr (dispatch_alloc_maybe_madvise_page c st)
                 else Inr st))"

end
