(* ===== verification/Allocator_Page.thy ===== *)
theory Allocator_Page
  imports Allocator Thread_Lists "HOL-Library.Multiset"
begin

text \<open>
  The continuations of one page, allocated and freed by any number of threads: every access of
  \<open>src/allocator.c\<close> to the bitmaps of the page and to their supermap is a step, and the steps of
  the threads interleave in every order. A page has any number of bitmaps (one, or four with
  the pages of 16 kB of the embedded processors), so that the loops of
  \<open>_dispatch_alloc_maybe_madvise_page\<close> over them are loops here.
\<close>

section \<open>The page and the threads\<close>

text \<open>
  \<open>live\<close> is the multiset of the continuations that clients hold, by bitmap and bit: allocating
  adds one, and calling free hands it over to the thread that frees it. \<open>first_map\<close> is the
  index in the supermap of the first bitmap of the page.
\<close>

record page =
  bitmaps :: "u64 list"
  supermap :: u64
  first_map :: nat
  live :: "(nat \<times> nat) multiset"
  madvise_calls :: nat

datatype page_pc =
    Idle
  | Alloc_load nat
  | Alloc_set nat nat
  | Mark_load nat
  | Mark_swap nat u64
  | Free_check nat nat
  | Free_clear nat nat
  | Free_supermap nat bool
  | Scan nat
  | Lock nat
  | Madvise
  | Unlock nat
  | Crashed

section \<open>The steps\<close>

text \<open>
  Allocating: \<open>os_atomic_set_first_bit\<close> loads the bitmap, picks the first bit that is unset,
  and sets it with an atomic instruction that tells whether it was set by then; if so it starts
  over. A full bitmap ends the search in it.
\<close>

definition page_alloc_load :: "nat \<Rightarrow> page \<Rightarrow> page \<times> page_pc" where
  "page_alloc_load b st =
    (let index = builtin_ffsl (NOT (bitmaps st ! b))
     in if index = 0 then (st, Idle) else (st, Alloc_set b (index - 1)))"

definition page_alloc_set :: "nat \<Rightarrow> nat \<Rightarrow> page \<Rightarrow> page \<times> page_pc" where
  "page_alloc_set b i st =
    (if bit (bitmaps st ! b) i then (st, Alloc_load b)
     else (st\<lparr>bitmaps := (bitmaps st)[b := bitmaps st ! b OR push_bit i 1],
              live := add_mset (b, i) (live st)\<rparr>, Mark_load b))"

definition page_mark_load :: "nat \<Rightarrow> page \<Rightarrow> page \<times> page_pc" where
  "page_mark_load b st =
    (if \<not> bitmap_is_full (bitmaps st ! b) then (st, Idle) else (st, Mark_swap b (supermap st)))"

text \<open>The compare and exchange is a weak one: it may also fail although the value is the expected one.\<close>

definition page_mark_swap :: "bool \<Rightarrow> nat \<Rightarrow> u64 \<Rightarrow> page \<Rightarrow> page \<times> page_pc" where
  "page_mark_swap spurious b s st =
    (if supermap st = s \<and> \<not> spurious
     then (st\<lparr>supermap := s OR push_bit (first_map st + b) 1\<rparr>, Idle)
     else if \<not> bitmap_is_full (bitmaps st ! b) then (st, Idle)
     else (st, Mark_swap b (supermap st)))"

definition page_free_call :: "nat \<Rightarrow> nat \<Rightarrow> page \<Rightarrow> page \<times> page_pc" where
  "page_free_call b i st = (st\<lparr>live := live st - {#(b, i)#}\<rparr>, Free_check b i)"

definition page_free_check :: "nat \<Rightarrow> nat \<Rightarrow> page \<Rightarrow> page \<times> page_pc" where
  "page_free_check b i st =
    (if bitmaps st ! b AND push_bit i 1 = 0 then (st, Crashed) else (st, Free_clear b i))"

definition page_free_clear :: "nat \<Rightarrow> nat \<Rightarrow> page \<Rightarrow> page \<times> page_pc" where
  "page_free_clear b i st =
    (let w = bitmaps st ! b AND NOT (push_bit i 1)
     in (st\<lparr>bitmaps := (bitmaps st)[b := w]\<rparr>, Free_supermap b (w = 0)))"

definition page_free_supermap :: "nat \<Rightarrow> bool \<Rightarrow> page \<Rightarrow> page \<times> page_pc" where
  "page_free_supermap b now_empty st =
    (st\<lparr>supermap := supermap st AND NOT (push_bit (first_map st + b) 1)\<rparr>,
     if now_empty then Scan 0 else Idle)"

text \<open>Giving the page back: all its bitmaps are read, then taken one by one, and put back.\<close>

definition page_scan :: "nat \<Rightarrow> page \<Rightarrow> page \<times> page_pc" where
  "page_scan i st =
    (if bitmaps st ! i \<noteq> 0 then (st, Idle)
     else if i + 1 < length (bitmaps st) then (st, Scan (i + 1)) else (st, Lock 0))"

definition page_lock :: "nat \<Rightarrow> page \<Rightarrow> page \<times> page_pc" where
  "page_lock last_locked st =
    (if bitmaps st ! last_locked \<noteq> 0 then (st, Unlock last_locked)
     else (st\<lparr>bitmaps := (bitmaps st)[last_locked := BITMAP_ALL_ONES]\<rparr>,
           if last_locked + 1 < length (bitmaps st) then Lock (last_locked + 1) else Madvise))"

definition page_madvise :: "page \<Rightarrow> page \<times> page_pc" where
  "page_madvise st = (st\<lparr>madvise_calls := madvise_calls st + 1\<rparr>, Unlock (length (bitmaps st)))"

definition page_unlock :: "nat \<Rightarrow> page \<Rightarrow> page \<times> page_pc" where
  "page_unlock last_locked st =
    (if last_locked > 1
     then (st\<lparr>bitmaps := (bitmaps st)[last_locked - 1 := 0]\<rparr>, Unlock (last_locked - 1))
     else if last_locked \<noteq> 0 then (st\<lparr>bitmaps := (bitmaps st)[0 := 0]\<rparr>, Idle)
     else (st, Idle))"

text \<open>One step of a thread, from where it is to where it goes.\<close>

inductive page_move :: "page \<Rightarrow> page_pc \<Rightarrow> page \<times> page_pc \<Rightarrow> bool" where
  alloc_call: "b < length (bitmaps st) \<Longrightarrow> page_move st Idle (st, Alloc_load b)"
| alloc_load: "page_move st (Alloc_load b) (page_alloc_load b st)"
| alloc_set: "page_move st (Alloc_set b i) (page_alloc_set b i st)"
| mark_load: "page_move st (Mark_load b) (page_mark_load b st)"
| mark_swap: "page_move st (Mark_swap b s) (page_mark_swap spurious b s st)"
| free_call: "(b, i) \<in># live st \<Longrightarrow> page_move st Idle (page_free_call b i st)"
| free_check: "page_move st (Free_check b i) (page_free_check b i st)"
| free_clear: "page_move st (Free_clear b i) (page_free_clear b i st)"
| free_supermap: "page_move st (Free_supermap b e) (page_free_supermap b e st)"
| scan: "page_move st (Scan i) (page_scan i st)"
| lock: "page_move st (Lock k) (page_lock k st)"
| madvise: "page_move st Madvise (page_madvise st)"
| unlock: "page_move st (Unlock k) (page_unlock k st)"

inductive page_step :: "page \<times> page_pc list \<Rightarrow> page \<times> page_pc list \<Rightarrow> bool" where
  step: "t < length pcs \<Longrightarrow> page_move st (pcs ! t) (st', pc') \<Longrightarrow>
    page_step (st, pcs) (st', pcs[t := pc'])"

text \<open>All the runs of \<open>threads\<close> threads on a page of \<open>maps\<close> bitmaps that starts out unused.\<close>

definition new_page :: "nat \<Rightarrow> nat \<Rightarrow> page" where
  "new_page maps first =
    \<lparr>bitmaps = replicate maps 0, supermap = 0, first_map = first, live = {#}, madvise_calls = 0\<rparr>"

inductive page_run :: "nat \<Rightarrow> nat \<Rightarrow> nat \<Rightarrow> page \<times> page_pc list \<Rightarrow> bool"
  for maps first threads where
  start: "page_run maps first threads (new_page maps first, replicate threads Idle)"
| more: "page_run maps first threads c \<Longrightarrow> page_step c c' \<Longrightarrow> page_run maps first threads c'"

inductive_simps page_step_iff: "page_step (st, pcs) c'"

section \<open>Who holds what\<close>

text \<open>A thread holds a continuation while it frees it, and a bitmap between taking and putting it back.\<close>

fun frees_bit :: "nat \<Rightarrow> nat \<Rightarrow> page_pc \<Rightarrow> bool" where
  "frees_bit b i (Free_check b' i') = (b' = b \<and> i' = i)"
| "frees_bit b i (Free_clear b' i') = (b' = b \<and> i' = i)"
| "frees_bit b i _ = False"

fun locks_bitmap :: "nat \<Rightarrow> page_pc \<Rightarrow> bool" where
  "locks_bitmap b (Lock k) = (b < k)"
| "locks_bitmap b Madvise = True"
| "locks_bitmap b (Unlock k) = (b < k)"
| "locks_bitmap b _ = False"

fun pc_in_range :: "nat \<Rightarrow> page_pc \<Rightarrow> bool" where
  "pc_in_range n (Alloc_load b) = (b < n)"
| "pc_in_range n (Alloc_set b i) = (b < n \<and> i < 64)"
| "pc_in_range n (Mark_load b) = (b < n)"
| "pc_in_range n (Mark_swap b s) = (b < n)"
| "pc_in_range n (Free_check b i) = (b < n \<and> i < 64)"
| "pc_in_range n (Free_clear b i) = (b < n \<and> i < 64)"
| "pc_in_range n (Free_supermap b e) = (b < n)"
| "pc_in_range n (Scan k) = (k < n)"
| "pc_in_range n (Lock k) = (k < n)"
| "pc_in_range n (Unlock k) = (k \<le> n)"
| "pc_in_range n Crashed = False"
| "pc_in_range n _ = True"

text \<open>
  The invariant: a bit is set exactly if one client has the continuation, or one thread is
  freeing it, or one thread holds the whole bitmap; never two of these.
\<close>

definition bit_owners :: "page \<Rightarrow> page_pc list \<Rightarrow> nat \<Rightarrow> nat \<Rightarrow> nat" where
  "bit_owners st pcs b i =
    count (live st) (b, i) + at_pc (frees_bit b i) pcs + at_pc (locks_bitmap b) pcs"

definition page_inv :: "nat \<Rightarrow> page \<times> page_pc list \<Rightarrow> bool" where
  "page_inv n c = (case c of (st, pcs) \<Rightarrow>
    length (bitmaps st) = n \<and> 0 < n \<and>
    (\<forall>t < length pcs. pc_in_range n (pcs ! t)) \<and>
    (\<forall>x \<in># live st. fst x < n \<and> snd x < 64) \<and>
    (\<forall>b < n. \<forall>i < 64. bit_owners st pcs b i = of_bool (bit (bitmaps st ! b) i)))"

text \<open>A step keeps the balance if what the thread and the clients gain is what the bit gains.\<close>

definition balanced :: "page \<Rightarrow> page_pc \<Rightarrow> page \<times> page_pc \<Rightarrow> bool" where
  "balanced st pc r = (case r of (st', pc') \<Rightarrow>
    length (bitmaps st') = length (bitmaps st) \<and>
    (\<forall>b < length (bitmaps st). \<forall>i < 64.
      count (live st') (b, i) + of_bool (frees_bit b i pc') + of_bool (locks_bitmap b pc')
        + of_bool (bit (bitmaps st ! b) i) =
      count (live st) (b, i) + of_bool (frees_bit b i pc) + of_bool (locks_bitmap b pc)
        + (of_bool (bit (bitmaps st' ! b) i) :: nat)))"

lemma balanced_owners:
  assumes "t < length pcs" "balanced st (pcs ! t) (st', pc')" "b < length (bitmaps st)" "i < 64"
    and "bit_owners st pcs b i = of_bool (bit (bitmaps st ! b) i)"
  shows "bit_owners st' (pcs[t := pc']) b i = of_bool (bit (bitmaps st' ! b) i)"
  using assms(2-5) at_pc_update [OF assms(1), of "frees_bit b i" pc']
    at_pc_update [OF assms(1), of "locks_bitmap b" pc']
  unfolding balanced_def bit_owners_def by fastforce

lemma member_at_pc: "t < length pcs \<Longrightarrow> P (pcs ! t) \<Longrightarrow> 0 < at_pc P pcs"
  using at_pc_pos by blast

lemma lock_owner:
  assumes "page_inv n (st, pcs)" "t < length pcs" "locks_bitmap b (pcs ! t)" "b < n" "i < 64"
  shows "bit (bitmaps st ! b) i" "count (live st) (b, i) = 0" "at_pc (frees_bit b i) pcs = 0"
    "at_pc (locks_bitmap b) pcs = 1"
proof -
  have "bit_owners st pcs b i = of_bool (bit (bitmaps st ! b) i)"
    using assms(1,4,5) by (simp add: page_inv_def)
  moreover have "0 < at_pc (locks_bitmap b) pcs" by (rule member_at_pc [where P = "locks_bitmap b", OF assms(2,3)])
  ultimately show "bit (bitmaps st ! b) i" "count (live st) (b, i) = 0"
    "at_pc (frees_bit b i) pcs = 0" "at_pc (locks_bitmap b) pcs = 1"
    unfolding bit_owners_def by (cases "bit (bitmaps st ! b) i"; simp)+
qed

lemma free_owner:
  assumes "page_inv n (st, pcs)" "t < length pcs" "frees_bit b i (pcs ! t)" "b < n" "i < 64"
  shows "bit (bitmaps st ! b) i"
proof -
  have "bit_owners st pcs b i = of_bool (bit (bitmaps st ! b) i)"
    using assms(1,4,5) by (simp add: page_inv_def)
  moreover have "0 < at_pc (frees_bit b i) pcs" by (rule member_at_pc [where P = "frees_bit b i", OF assms(2,3)])
  ultimately show ?thesis unfolding bit_owners_def by (cases "bit (bitmaps st ! b) i") simp_all
qed

lemma clear_owned:
  assumes "page_inv n (st, pcs)" "t < length pcs" "pcs ! t = Free_clear b i" "b < n" "i < 64"
  shows "bit (bitmaps st ! b) i"
  using free_owner [OF assms(1,2) _ assms(4,5)] assms(3) by simp

text \<open>Every step of a thread keeps the balance, the ranges, and does not crash.\<close>

lemma page_move_ok:
  assumes inv: "page_inv n (st, pcs)" and t: "t < length pcs" and m: "page_move st (pcs ! t) (st', pc')"
  shows "balanced st (pcs ! t) (st', pc') \<and> pc_in_range n pc' \<and> (\<forall>x \<in># live st'. fst x < n \<and> snd x < 64)"
proof -
  have n: "length (bitmaps st) = n" "0 < n" and r: "pc_in_range n (pcs ! t)"
    and lv: "\<And>b i. (b, i) \<in># live st \<Longrightarrow> b < n \<and> i < 64"
    using inv t by (auto simp: page_inv_def)
  show ?thesis using m
  proof (cases rule: page_move.cases)
    case (alloc_call b)
    then show ?thesis using lv n by (auto simp: balanced_def)
  next
    case (alloc_load b)
    have "builtin_ffsl w - 1 < 64" for w
      by (auto simp: builtin_ffsl_def find_Some_iff split: option.splits)
    then show ?thesis using alloc_load r lv n
      by (auto simp: page_alloc_load_def balanced_def Let_def split: if_splits)
  next
    case (alloc_set b i)
    then show ?thesis using r lv n
      by (auto simp: page_alloc_set_def balanced_def nth_list_update split: if_splits)
  next
    case (mark_load b)
    then show ?thesis using r lv n by (auto simp: page_mark_load_def balanced_def split: if_splits)
  next
    case (mark_swap b s spurious)
    then show ?thesis using r lv n by (auto simp: page_mark_swap_def balanced_def split: if_splits)
  next
    case (free_call b i)
    have "0 < count (live st) (b, i)" using free_call by simp
    then show ?thesis using free_call lv n
      by (auto simp: page_free_call_def balanced_def dest: in_diffD)
  next
    case (free_check b i)
    then have "bit (bitmaps st ! b) i"
      using free_owner [OF inv t, of b i] r by simp
    then show ?thesis using free_check r lv n
      by (auto simp: page_free_check_def balanced_def and_exp_eq_0_iff_not_bit split: if_splits)
  next
    case (free_clear b i)
    then have "bit (bitmaps st ! b) i" using clear_owned [OF inv t] r by simp
    then show ?thesis using free_clear r lv n
      by (auto simp: page_free_clear_def balanced_def nth_list_update Let_def)
  next
    case (free_supermap b e)
    then show ?thesis using r lv n by (auto simp: page_free_supermap_def balanced_def)
  next
    case (scan i)
    then show ?thesis using r lv n by (auto simp: page_scan_def balanced_def split: if_splits)
  next
    case (lock k)
    then show ?thesis using r lv n
      by (auto simp: page_lock_def balanced_def nth_list_update BITMAP_ALL_ONES_def bit_simps
          less_Suc_eq split: if_splits)
  next
    case madvise
    then show ?thesis using lv n by (auto simp: page_madvise_def balanced_def)
  next
    case (unlock k)
    have own: "bit (bitmaps st ! b) i" if "b < k" "i < 64" for b i
      using lock_owner(1) [OF inv t, of b i] unlock r that by simp
    show ?thesis
    proof (cases k)
      case (Suc j)
      then show ?thesis using unlock own r lv n
        by (auto simp: page_unlock_def balanced_def nth_list_update less_Suc_eq split: if_splits)
    qed (use unlock lv n in \<open>auto simp: page_unlock_def balanced_def\<close>)
  qed
qed

lemma page_step_inv:
  assumes "page_inv n c" "page_step c c'"
  shows "page_inv n c'"
  using assms(2,1)
proof cases
  case (step t pcs st st' pc')
  then have inv: "page_inv n (st, pcs)" using assms(1) by simp
  note ok = page_move_ok [OF inv step(3,4)]
  have "bit_owners st' (pcs[t := pc']) b i = of_bool (bit (bitmaps st' ! b) i)" if "b < n" "i < 64" for b i
    by (rule balanced_owners [OF step(3) ok [THEN conjunct1]]) (use inv that in \<open>simp_all add: page_inv_def\<close>)
  moreover have "length (bitmaps st') = n" using ok inv by (simp add: balanced_def page_inv_def)
  ultimately show ?thesis using inv ok step
    by (auto simp: page_inv_def nth_list_update)
qed

lemma page_run_inv:
  assumes "page_run maps first threads c" "0 < maps"
  shows "page_inv maps c"
  using assms(1)
proof induction
  case start
  show ?case using assms(2)
    by (auto simp: page_inv_def new_page_def bit_owners_def at_pc_replicate)
next
  case (more c c')
  then show ?case by (blast intro: page_step_inv)
qed

section \<open>Properties of the page\<close>

lemma page_run_move:
  assumes "page_run maps first threads (st, pcs)" "t < length pcs" "page_move st (pcs ! t) r"
  shows "page_run maps first threads (fst r, pcs[t := snd r])"
  by (rule page_run.more [OF assms(1)], rule page_step.step [OF assms(2)]) (simp add: assms(3))

lemma madvise_owner:
  assumes inv: "page_inv n (st, pcs)" and t: "t < length pcs" "pcs ! t = Madvise"
  shows "live st = {#}" and "u < length pcs \<Longrightarrow> \<not> frees_bit b i (pcs ! u)"
proof -
  have l: "locks_bitmap b (pcs ! t)" for b using t(2) by simp
  show "live st = {#}"
  proof (rule ccontr)
    assume "live st \<noteq> {#}"
    then obtain b i where x: "(b, i) \<in># live st" by fastforce
    then have "b < n" "i < 64" using inv by (auto simp: page_inv_def)
    from lock_owner(2) [OF inv t(1) l this] x show False by (simp add: not_in_iff [symmetric])
  qed
  show "\<not> frees_bit b i (pcs ! u)" if u: "u < length pcs"
  proof
    assume f: "frees_bit b i (pcs ! u)"
    have "pc_in_range n (pcs ! u)" using inv u by (simp add: page_inv_def)
    with f have "b < n" "i < 64" by (cases "pcs ! u"; auto)+
    with lock_owner(3) [OF inv t(1) l] member_at_pc [where P = "frees_bit b i", OF u f]
    show False by simp
  qed
qed

text \<open>
  C1. However the threads interleave, no continuation of the page is handed out twice, no free
  is mistaken for a corruption, the bits say exactly which continuations are held whenever no
  thread is inside the allocator, and when the page is given back with \<open>madvise\<close> no client holds
  a continuation of it and none is being freed.
\<close>

text \<open>
  C18. However allocating and freeing threads interleave, no continuation is handed out twice,
  no free is mistaken for a corruption, and when the page is given back with madvise no client
  holds a continuation of it and none is being freed.
\<close>
theorem page_is_given_back_unused:
  assumes "page_run maps first threads (st, pcs)" "0 < maps"
  shows "(\<forall>x. count (live st) x \<le> 1) \<and> Crashed \<notin> set pcs \<and>
    (\<forall>t < length pcs. pcs ! t = Madvise \<longrightarrow>
      live st = {#} \<and> (\<forall>u < length pcs. \<forall>b i. pcs ! u \<noteq> Free_check b i \<and> pcs ! u \<noteq> Free_clear b i)) \<and>
    ((\<forall>t < length pcs. pcs ! t = Idle) \<longrightarrow>
      (\<forall>b < maps. \<forall>i < 64. bit (bitmaps st ! b) i = ((b, i) \<in># live st)))"
proof -
  have inv: "page_inv maps (st, pcs)" by (rule page_run_inv [OF assms])
  have eq: "bit_owners st pcs b i = of_bool (bit (bitmaps st ! b) i)" if "b < maps" "i < 64" for b i
    using inv that by (simp add: page_inv_def)
  have one: "count (live st) (b, i) \<le> 1" for b i
  proof (cases "(b, i) \<in># live st")
    case True
    then have "b < maps" "i < 64" using inv by (auto simp: page_inv_def)
    from eq [OF this] show ?thesis
      unfolding bit_owners_def by (cases "bit (bitmaps st ! b) i") simp_all
  qed (simp add: not_in_iff)
  have "Crashed \<notin> set pcs"
    using inv by (fastforce simp: page_inv_def in_set_conv_nth)
  moreover have "bit (bitmaps st ! b) i = ((b, i) \<in># live st)"
    if "\<forall>t < length pcs. pcs ! t = Idle" "b < maps" "i < 64" for b i
  proof -
    have "at_pc (frees_bit b i) pcs = 0" "at_pc (locks_bitmap b) pcs = 0"
      using that(1) by (simp_all add: at_pc_none)
    then have c: "count (live st) (b, i) = of_bool (bit (bitmaps st ! b) i)"
      using eq [OF that(2,3)] by (simp add: bit_owners_def)
    show ?thesis unfolding count_greater_zero_iff [symmetric] c by simp
  qed
  moreover have "pcs ! u \<noteq> Free_check b i \<and> pcs ! u \<noteq> Free_clear b i"
    if "t < length pcs" "pcs ! t = Madvise" "u < length pcs" for t u b i
    using madvise_owner(2) [OF inv that, of b i] by auto
  ultimately show ?thesis using one madvise_owner(1) [OF inv] by auto
qed

text \<open>
  A run of two threads: the first allocates a continuation and has not yet looked whether the
  bitmap is full, the second frees it and is about to give the page back.
\<close>

definition one_map :: "u64 \<Rightarrow> u64 \<Rightarrow> (nat \<times> nat) multiset \<Rightarrow> nat \<Rightarrow> page" where
  "one_map w s l m = \<lparr>bitmaps = [w], supermap = s, first_map = 0, live = l, madvise_calls = m\<rparr>"

lemma one_map_fields [simp]:
  "bitmaps (one_map w s l m) = [w]" "supermap (one_map w s l m) = s" "live (one_map w s l m) = l"
  "first_map (one_map w s l m) = 0" "madvise_calls (one_map w s l m) = m"
  "(one_map w s l m)\<lparr>bitmaps := [w']\<rparr> = one_map w' s l m"
  "(one_map w s l m)\<lparr>supermap := s'\<rparr> = one_map w s' l m"
  "(one_map w s l m)\<lparr>live := l'\<rparr> = one_map w s l' m"
  "(one_map w s l m)\<lparr>madvise_calls := m'\<rparr> = one_map w s l m'"
  by (simp_all add: one_map_def)

lemma madvise_run: "page_run 1 0 2 (one_map BITMAP_ALL_ONES 0 {#} 0, [Mark_load 0, Madvise])"
proof -
  note ops = page_alloc_load_def page_alloc_set_def page_free_call_def page_free_check_def
    page_free_clear_def page_free_supermap_def page_scan_def page_lock_def Let_def
  have ffs: "builtin_ffsl (- 1) = 1" by (simp add: builtin_ffsl_def upt_rec [of 0])
  have "page_run 1 0 2 (one_map 0 0 {#} 0, [Idle, Idle])"
    using page_run.start [of 1 0 2] by (simp add: new_page_def one_map_def numeral_2_eq_2)
  from page_run_move [OF this, of 0, simplified, OF page_move.alloc_call [of 0]]
  have "page_run 1 0 2 (one_map 0 0 {#} 0, [Alloc_load 0, Idle])" by simp
  from page_run_move [OF this, of 0, simplified, OF page_move.alloc_load]
  have "page_run 1 0 2 (one_map 0 0 {#} 0, [Alloc_set 0 0, Idle])" by (simp add: ops ffs)
  from page_run_move [OF this, of 0, simplified, OF page_move.alloc_set]
  have "page_run 1 0 2 (one_map 1 0 {#(0, 0)#} 0, [Mark_load 0, Idle])" by (simp add: ops)
  from page_run_move [OF this, of 1, simplified, OF page_move.free_call [of 0 0]]
  have "page_run 1 0 2 (one_map 1 0 {#} 0, [Mark_load 0, Free_check 0 0])" by (simp add: ops)
  from page_run_move [OF this, of 1, simplified, OF page_move.free_check]
  have "page_run 1 0 2 (one_map 1 0 {#} 0, [Mark_load 0, Free_clear 0 0])" by (simp add: ops)
  from page_run_move [OF this, of 1, simplified, OF page_move.free_clear]
  have "page_run 1 0 2 (one_map 0 0 {#} 0, [Mark_load 0, Free_supermap 0 True])" by (simp add: ops)
  from page_run_move [OF this, of 1, simplified, OF page_move.free_supermap]
  have "page_run 1 0 2 (one_map 0 0 {#} 0, [Mark_load 0, Scan 0])" by (simp add: ops)
  from page_run_move [OF this, of 1, simplified, OF page_move.scan]
  have "page_run 1 0 2 (one_map 0 0 {#} 0, [Mark_load 0, Lock 0])" by (simp add: ops)
  from page_run_move [OF this, of 1, simplified, OF page_move.lock]
  show ?thesis by (simp add: ops)
qed

theorem page_is_given_back_unused_witness:
  "\<exists>st pcs. page_run 1 0 2 (st, pcs) \<and> pcs ! 1 = Madvise \<and> live st = {#} \<and> Crashed \<notin> set pcs"
proof -
  have pos: "(0::nat) < 1" by simp
  let ?pcs = "[Mark_load 0, Madvise]"
  note safe = page_is_given_back_unused [OF madvise_run pos]
  have "Crashed \<notin> set ?pcs" using safe by (elim conjE)
  moreover have "live (one_map BITMAP_ALL_ONES 0 {#} 0) = {#}"
    using safe [THEN conjunct2, THEN conjunct2, THEN conjunct1, rule_format, of 1] by simp
  ultimately show ?thesis
    using madvise_run by (intro exI [of _ "one_map BITMAP_ALL_ONES 0 {#} 0"] exI [of _ ?pcs]) simp
qed

theorem supermap_bit_can_be_stale:
  "\<exists>st. page_run 1 0 2 (st, [Idle, Idle]) \<and> bit (supermap st) 0 \<and> bitmaps st ! 0 = 0 \<and> live st = {#}"
proof -
  note ops = page_mark_load_def page_mark_swap_def page_madvise_def page_unlock_def Let_def
  have full: "bitmap_is_full BITMAP_ALL_ONES" by (simp add: bitmap_is_full_def)
  from page_run_move [OF madvise_run, of 0, simplified, OF page_move.mark_load]
  have "page_run 1 0 2 (one_map BITMAP_ALL_ONES 0 {#} 0, [Mark_swap 0 0, Madvise])"
    by (simp add: ops full)
  from page_run_move [OF this, of 0, simplified, OF page_move.mark_swap [where spurious = False]]
  have "page_run 1 0 2 (one_map BITMAP_ALL_ONES 1 {#} 0, [Idle, Madvise])" by (simp add: ops)
  from page_run_move [OF this, of 1, simplified, OF page_move.madvise]
  have "page_run 1 0 2 (one_map BITMAP_ALL_ONES 1 {#} 1, [Idle, Unlock 1])" by (simp add: ops)
  from page_run_move [OF this, of 1, simplified, OF page_move.unlock]
  have "page_run 1 0 2 (one_map 0 1 {#} 1, [Idle, Idle])" by (simp add: ops)
  then show ?thesis by (intro exI [of _ "one_map 0 1 {#} 1"]) simp
qed

end
