(* ===== verification/Allocator_Heap.thy ===== *)
theory Allocator_Heap
  imports Allocator
begin

text \<open>
  Correctness of the operations of \<open>src/allocator.c\<close>, one at a time: the invariant of the
  heaps, the set of the allocated continuations that the bitmaps stand for, and what each
  operation does to it.
\<close>

section \<open>Where the words of the metadata are\<close>

named_theorems address_class \<open>the offset in its magazine tells two addresses apart\<close>

lemma mod_bitmap_address [address_class]:
  assumes "magazine_aligned m" "s < 7" "b < 64"
  shows "bitmap_address m s b mod 2097152 = 128 + 8 * int (s * 64 + b)"
  unfolding bitmap_address_eq
  by (rule aligned_mod [OF assms(1) map_in_magazine [OF bitmap_offset [OF assms(2,3)]]])

lemma mod_supermap_address [address_class]:
  assumes "magazine_aligned m" "s < 7"
  shows "supermap_address m s mod 2097152 = 16 + 8 * int s"
proof -
  have "supermap_address m s = m + (16 + 8 * int s)" by (simp add: supermap_address_def)
  then show ?thesis using aligned_mod [OF assms(1), of "16 + 8 * int s"] assms(2) by simp
qed

lemma magazine_aligned_add:
  "magazine_aligned h \<Longrightarrow> magazine_aligned (h + BYTES_PER_MAGAZINE * int k)"
  by (simp add: magazine_aligned_def)

lemma mod_last_found_address [address_class]:
  assumes "magazine_aligned h"
  shows "last_found_address h cpu mod 2097152 = 8"
  using aligned_mod [OF magazine_aligned_add [OF assms, of cpu], of 8]
  by (simp add: last_found_address_def)

lemma bitmap_is_no_supermap:
  assumes "magazine_aligned m" "s < 7" "b < 64" "magazine_aligned m'" "s' < 7"
  shows "bitmap_address m s b \<noteq> supermap_address m' s'"
  using mod_bitmap_address [OF assms(1-3)] mod_supermap_address [OF assms(4,5)] assms(5) by force

lemma magazine_of_supermap:
  assumes "magazine_aligned m" "s < 7"
  shows "magazine_for_continuation (supermap_address m s) = m"
  using mod_supermap_address [OF assms] by (simp add: magazine_for_continuation_eq supermap_address_def)

lemma magazine_of_last_found:
  assumes "magazine_aligned h"
  shows "magazine_for_continuation (last_found_address h k) = h + BYTES_PER_MAGAZINE * int k"
  using mod_last_found_address [OF assms, of k]
  by (simp add: magazine_for_continuation_eq last_found_address_def)

section \<open>The invariant\<close>

definition magazines :: "nat \<Rightarrow> int list \<Rightarrow> int set" where
  "magazines n hs = {h + BYTES_PER_MAGAZINE * int k | h k. h \<in> set hs \<and> k < n}"

definition heap_ok :: "nat \<Rightarrow> int \<Rightarrow> bool" where
  "heap_ok n h = (0 < h \<and> magazine_aligned h \<and> h + BYTES_PER_MAGAZINE * int n \<le> 2 ^ 64)"

fun vm_regions :: "vm_result list \<Rightarrow> int list" where
  "vm_regions [] = []"
| "vm_regions (Vm_region a # rs) = a # vm_regions rs"
| "vm_regions (Vm_error kr # rs) = vm_regions rs"

fun heap_chain :: "alloc_state \<Rightarrow> heap_ptr \<Rightarrow> int list \<Rightarrow> bool" where
  "heap_chain st p [] = (load_heap p st = 0)"
| "heap_chain st p (h # hs) = (load_heap p st = h \<and> heap_chain st (Dh_next h) hs)"

text \<open>
  What \<open>mach_vm_map\<close> promises of the regions it will still answer with: they are aligned as
  asked, none overlaps another or a heap, and they are filled with zeros.
\<close>

definition vm_promise :: "alloc_state \<Rightarrow> bool" where
  "vm_promise st =
    (list_all (heap_ok (num_cpu st)) (vm_regions (vm st)) \<and>
     sorted_wrt (\<lambda>h h'. magazines (num_cpu st) [h] \<inter> magazines (num_cpu st) [h'] = {})
       (mapped st @ vm_regions (vm st)) \<and>
     (\<forall>a. magazine_for_continuation a \<in> magazines (num_cpu st) (vm_regions (vm st)) \<longrightarrow>
       mem st a = 0))"

definition last_found_ok :: "alloc_state \<Rightarrow> bool" where
  "last_found_ok st = (\<forall>k < num_cpu st. main_heap st \<noteq> 0 \<longrightarrow>
    (let w = uint (mem st (last_found_address (main_heap st) k))
     in w = 0 \<or> (\<exists>m \<in> magazines (num_cpu st) (mapped st). \<exists>s < 7. \<exists>b < 64. w = bitmap_address m s b)))"

definition heaps_ok :: "alloc_state \<Rightarrow> bool" where
  "heaps_ok st =
    (0 < num_cpu st \<and> (\<forall>k. cpus st k < num_cpu st) \<and>
     list_all (heap_ok (num_cpu st)) (mapped st) \<and>
     heap_chain st Main_heap (mapped st) \<and> last_found_ok st \<and> vm_promise st)"

text \<open>The continuations whose bit is set.\<close>

definition allocated :: "alloc_state \<Rightarrow> int set" where
  "allocated st = {continuation_address m s b i | m s b i.
    m \<in> magazines (num_cpu st) (mapped st) \<and> s < 7 \<and> b < 64 \<and> i < 64 \<and>
    bit (mem st (bitmap_address m s b)) i}"

lemma magazineE:
  assumes "m \<in> magazines n hs"
  obtains h k where "h \<in> set hs" "k < n" "m = h + BYTES_PER_MAGAZINE * int k"
  using assms by (auto simp: magazines_def)

lemma magazineI: "h \<in> set hs \<Longrightarrow> k < n \<Longrightarrow> h + BYTES_PER_MAGAZINE * int k \<in> magazines n hs"
  by (auto simp: magazines_def)

lemma magazines_append: "magazines n (hs @ hs') = magazines n hs \<union> magazines n hs'"
  by (auto simp: magazines_def)

lemma magazines_Cons: "magazines n (h # hs) = magazines n [h] \<union> magazines n hs"
  by (auto simp: magazines_def)

lemma magazine_ok:
  assumes "list_all (heap_ok n) hs" "m \<in> magazines n hs"
  shows "magazine_aligned m" "0 < m" "m + 2097152 \<le> 2 ^ 64"
proof -
  obtain h k where h: "h \<in> set hs" "k < n" "m = h + BYTES_PER_MAGAZINE * int k"
    by (rule magazineE [OF assms(2)])
  with assms(1) have ok: "heap_ok n h" by (auto simp: list_all_iff)
  then show "magazine_aligned m" unfolding h(3) heap_ok_def by (intro magazine_aligned_add) simp
  show "0 < m" using ok unfolding h(3) heap_ok_def by (simp add: add_pos_nonneg)
  have "int k + 1 \<le> int n" using h(2) by simp
  then have "2097152 * (int k + 1) \<le> 2097152 * int n" by (rule mult_left_mono) simp
  then show "m + 2097152 \<le> 2 ^ 64" using ok unfolding h(3) heap_ok_def by simp
qed

lemma uint_bitmap_address:
  assumes "list_all (heap_ok n) hs" "m \<in> magazines n hs" "s < 7" "b < 64"
  shows "uint (word_of_int (bitmap_address m s b) :: u64) = bitmap_address m s b"
proof -
  note m = magazine_ok [OF assms(1,2)] and o = map_in_magazine [OF bitmap_offset [OF assms(3,4)]]
  have "0 \<le> bitmap_address m s b" "bitmap_address m s b < 2 ^ 64"
    unfolding bitmap_address_eq using m(2,3) o by linarith+
  then show ?thesis by (simp add: uint_word_of_int)
qed

lemma continuation_not_null:
  assumes "list_all (heap_ok n) hs" "m \<in> magazines n hs"
  shows "continuation_address m s b i \<noteq> 0"
proof -
  have "0 < m" by (rule magazine_ok [OF assms])
  moreover have "0 \<le> 4096 + 64 * int ((s * 64 + b) * 64 + i)" by simp
  ultimately show ?thesis unfolding continuation_address_eq by linarith
qed

section \<open>Taking a bit\<close>

text \<open>The parts of the state that neither allocating from a magazine nor freeing touches.\<close>

definition same_heaps :: "alloc_state \<Rightarrow> alloc_state \<Rightarrow> bool" where
  "same_heaps st st' = (main_heap st' = main_heap st \<and> num_cpu st' = num_cpu st \<and>
    cpus st' = cpus st \<and> vm st' = vm st \<and> mapped st' = mapped st)"

text \<open>The words that an operation on the magazines of the heaps may write: not the links.\<close>

definition writes_only :: "(int \<Rightarrow> bool) \<Rightarrow> alloc_state \<Rightarrow> alloc_state \<Rightarrow> bool" where
  "writes_only P st st' = (same_heaps st st' \<and> (\<forall>a. \<not> P a \<longrightarrow> mem st' a = mem st a))"

definition supermap_word :: "alloc_state \<Rightarrow> int \<Rightarrow> bool" where
  "supermap_word st a = (\<exists>m \<in> magazines (num_cpu st) (mapped st). \<exists>s < 7. a = supermap_address m s)"

definition last_found_word :: "alloc_state \<Rightarrow> int \<Rightarrow> bool" where
  "last_found_word st a = (main_heap st \<in> set (mapped st) \<and>
    (\<exists>k < num_cpu st. a = last_found_address (main_heap st) k))"

definition takes :: "int \<Rightarrow> nat \<Rightarrow> nat \<Rightarrow> nat \<Rightarrow> alloc_state \<Rightarrow> alloc_state \<Rightarrow> bool" where
  "takes m s b i st st' =
    (\<not> bit (mem st (bitmap_address m s b)) i \<and>
     mem st' (bitmap_address m s b) = mem st (bitmap_address m s b) OR 2 ^ i \<and>
     writes_only (\<lambda>a. supermap_word st a \<or> last_found_word st a \<or> a = bitmap_address m s b) st st' \<and>
     (\<forall>a. last_found_word st a \<longrightarrow>
        mem st' a = mem st a \<or> uint (mem st' a) = bitmap_address m s b))"

lemma same_heaps_refl [simp]: "same_heaps st st"
  by (simp add: same_heaps_def)

lemma same_heaps_trans: "same_heaps st st' \<Longrightarrow> same_heaps st' st'' \<Longrightarrow> same_heaps st st''"
  by (simp add: same_heaps_def)

lemma same_heaps_words:
  "same_heaps st st' \<Longrightarrow> supermap_word st' = supermap_word st"
  "same_heaps st st' \<Longrightarrow> last_found_word st' = last_found_word st"
  by (simp_all add: same_heaps_def supermap_word_def last_found_word_def fun_eq_iff)

lemma load_heap_field: "heaps_ok st \<Longrightarrow> h \<in> set (mapped st) \<Longrightarrow> h mod 2097152 = 0"
  by (auto simp: heaps_ok_def list_all_iff heap_ok_def magazine_aligned_def)

lemma heaps_list_ok: "heaps_ok st \<Longrightarrow> list_all (heap_ok (num_cpu st)) (mapped st)"
  by (simp add: heaps_ok_def)

lemmas heap_magazine_ok = magazine_ok [OF heaps_list_ok]

lemma bitmap_word_classes:
  assumes "heaps_ok st" "m \<in> magazines (num_cpu st) (mapped st)" "s < 7" "b < 64"
  shows "\<not> supermap_word st (bitmap_address m s b)" "\<not> last_found_word st (bitmap_address m s b)"
proof -
  note m = heap_magazine_ok(1) [OF assms(1,2)]
  show "\<not> supermap_word st (bitmap_address m s b)"
    using bitmap_is_no_supermap [OF m assms(3,4) heap_magazine_ok(1) [OF assms(1)]]
    unfolding supermap_word_def by blast
  have "last_found_address h k \<noteq> bitmap_address m s b" if "h \<in> set (mapped st)" for h k
    using load_heap_field [OF assms(1) that] mod_last_found_address [of h k]
      mod_bitmap_address [OF m assms(3,4)] by (auto simp: magazine_aligned_def)
  then show "\<not> last_found_word st (bitmap_address m s b)"
    unfolding last_found_word_def by metis
qed

lemma supermap_is_no_last_found:
  assumes "heaps_ok st" "supermap_word st a"
  shows "\<not> last_found_word st a"
proof
  assume "last_found_word st a"
  then obtain k where k: "main_heap st \<in> set (mapped st)" "a = last_found_address (main_heap st) k"
    unfolding last_found_word_def by blast
  obtain m s where m: "m \<in> magazines (num_cpu st) (mapped st)" "s < 7" "a = supermap_address m s"
    using assms(2) unfolding supermap_word_def by blast
  have "a mod 2097152 = 8" unfolding k(2)
    using load_heap_field [OF assms(1) k(1)] by (intro mod_last_found_address) (simp add: magazine_aligned_def)
  moreover have "a mod 2097152 = 16 + 8 * int s" unfolding m(3)
    using mod_supermap_address [OF heap_magazine_ok(1) [OF assms(1) m(1)] m(2)] .
  ultimately show False by linarith
qed

lemma link_word_classes:
  assumes "heaps_ok st" "a mod 2097152 = 0"
  shows "\<not> supermap_word st a" "\<not> last_found_word st a"
    and "m \<in> magazines (num_cpu st) (mapped st) \<Longrightarrow> s < 7 \<Longrightarrow> b < 64 \<Longrightarrow> a \<noteq> bitmap_address m s b"
proof -
  show "\<not> supermap_word st a"
    using assms(2) mod_supermap_address [OF heap_magazine_ok(1) [OF assms(1)]]
    unfolding supermap_word_def by fastforce
  show "\<not> last_found_word st a"
  proof
    assume "last_found_word st a"
    then obtain k where "main_heap st \<in> set (mapped st)" "a = last_found_address (main_heap st) k"
      unfolding last_found_word_def by blast
    then have "a mod 2097152 = 8"
      using load_heap_field [OF assms(1)] by (simp add: mod_last_found_address magazine_aligned_def)
    with assms(2) show False by simp
  qed
  show "a \<noteq> bitmap_address m s b"
    if "m \<in> magazines (num_cpu st) (mapped st)" "s < 7" "b < 64"
    using assms(2) mod_bitmap_address [OF heap_magazine_ok(1) [OF assms(1) that(1)] that(2,3)]
    by fastforce
qed

text \<open>Writing the words of mapped magazines other than the links keeps the heaps well formed.\<close>

definition metadata_word :: "alloc_state \<Rightarrow> int \<Rightarrow> bool" where
  "metadata_word st a = (supermap_word st a \<or> last_found_word st a \<or>
    (\<exists>m \<in> magazines (num_cpu st) (mapped st). \<exists>s < 7. \<exists>b < 64. a = bitmap_address m s b))"

lemma metadata_magazine:
  assumes "heaps_ok st" "metadata_word st a"
  shows "magazine_for_continuation a \<in> magazines (num_cpu st) (mapped st)"
proof -
  have "magazine_for_continuation (last_found_address h k) \<in> magazines (num_cpu st) (mapped st)"
    if "h \<in> set (mapped st)" "k < num_cpu st" for h k
    using magazine_of_last_found [of h k] load_heap_field [OF assms(1) that(1)] magazineI [OF that]
    by (simp add: magazine_aligned_def)
  then show ?thesis using assms(2) heap_magazine_ok(1) [OF assms(1)]
    unfolding metadata_word_def supermap_word_def last_found_word_def
    by (auto simp: magazine_of_supermap magazine_of_bitmap)
qed

lemma heap_chain_cong:
  assumes "load_heap p st' = load_heap p st" "\<And>h. h \<in> set hs \<Longrightarrow> mem st' h = mem st h"
  shows "heap_chain st' p hs = heap_chain st p hs"
  using assms by (induction hs arbitrary: p) auto

lemma sorted_wrt_disjoint_append:
  assumes "sorted_wrt (\<lambda>h h'. magazines n [h] \<inter> magazines n [h'] = {}) (hs @ hs')"
  shows "magazines n hs \<inter> magazines n hs' = {}"
  using assms by (fastforce simp: sorted_wrt_append magazines_def)

lemma heaps_ok_writes:
  assumes ok: "heaps_ok st" and w: "writes_only (metadata_word st) st st'"
    and lf: "\<And>a. last_found_word st a \<Longrightarrow> mem st' a = mem st a \<or>
      (\<exists>m \<in> magazines (num_cpu st) (mapped st). \<exists>s < 7. \<exists>b < 64. uint (mem st' a) = bitmap_address m s b)"
  shows "heaps_ok st'"
proof -
  have eq: "main_heap st' = main_heap st" "num_cpu st' = num_cpu st" "cpus st' = cpus st"
    "vm st' = vm st" "mapped st' = mapped st"
    and m: "\<And>a. \<not> metadata_word st a \<Longrightarrow> mem st' a = mem st a"
    using w by (auto simp: writes_only_def same_heaps_def)
  have link: "mem st' a = mem st a" if "a mod 2097152 = 0" for a
    using m link_word_classes [OF ok that] unfolding metadata_word_def by metis
  have "heap_chain st' Main_heap (mapped st) = heap_chain st Main_heap (mapped st)"
    by (rule heap_chain_cong) (simp_all add: eq link load_heap_field [OF ok])
  moreover have "mem st' a = 0"
    if "magazine_for_continuation a \<in> magazines (num_cpu st) (vm_regions (vm st))" for a
  proof -
    have "vm_promise st" using ok by (simp add: heaps_ok_def)
    then have z: "mem st a = 0" and "magazines (num_cpu st) (mapped st)
        \<inter> magazines (num_cpu st) (vm_regions (vm st)) = {}"
      using that sorted_wrt_disjoint_append unfolding vm_promise_def by blast+
    then have "\<not> metadata_word st a" using metadata_magazine [OF ok] that by blast
    then show ?thesis using m z by simp
  qed
  moreover have "last_found_ok st'"
    unfolding last_found_ok_def eq
  proof (intro allI impI)
    fix k assume k: "k < num_cpu st" and nz: "main_heap st \<noteq> 0"
    have "main_heap st \<in> set (mapped st)" using ok nz unfolding heaps_ok_def
      by (cases "mapped st") auto
    then have "last_found_word st (last_found_address (main_heap st) k)"
      using k by (auto simp: last_found_word_def)
    with lf ok k nz show "let w = uint (mem st' (last_found_address (main_heap st) k))
      in w = 0 \<or> (\<exists>m \<in> magazines (num_cpu st) (mapped st). \<exists>s < 7. \<exists>b < 64. w = bitmap_address m s b)"
      unfolding heaps_ok_def last_found_ok_def Let_def by metis
  qed
  ultimately show ?thesis using ok unfolding heaps_ok_def vm_promise_def eq by simp
qed

lemma takes_heaps_ok:
  assumes "heaps_ok st" "m \<in> magazines (num_cpu st) (mapped st)" "s < 7" "b < 64" "takes m s b i st st'"
  shows "heaps_ok st'"
proof (rule heaps_ok_writes [OF assms(1)])
  show "writes_only (metadata_word st) st st'"
    using assms(2-5) unfolding takes_def writes_only_def metadata_word_def by blast
qed (use assms(2-5) in \<open>unfold takes_def; blast\<close>)

lemma mem_takes:
  assumes "heaps_ok st" "m \<in> magazines (num_cpu st) (mapped st)" "s < 7" "b < 64" "takes m s b i st st'"
    and "m' \<in> magazines (num_cpu st) (mapped st)" "s' < 7" "b' < 64"
  shows "mem st' (bitmap_address m' s' b') =
    (if m' = m \<and> s' = s \<and> b' = b then mem st (bitmap_address m s b) OR 2 ^ i
     else mem st (bitmap_address m' s' b'))"
  using assms(5) bitmap_word_classes [OF assms(1,6-8)]
    bitmap_address_inj [OF heap_magazine_ok(1) [OF assms(1,6)] assms(7,8)
      heap_magazine_ok(1) [OF assms(1,2)] assms(3,4)]
  unfolding takes_def writes_only_def by auto

lemma continuation_allocated:
  assumes "heaps_ok st" "m \<in> magazines (num_cpu st) (mapped st)" "s < 7" "b < 64" "i < 64"
  shows "continuation_address m s b i \<in> allocated st \<longleftrightarrow> bit (mem st (bitmap_address m s b)) i"
proof
  assume "continuation_address m s b i \<in> allocated st"
  then obtain m' s' b' i' where c: "continuation_address m s b i = continuation_address m' s' b' i'"
    "m' \<in> magazines (num_cpu st) (mapped st)" "s' < 7" "b' < 64" "i' < 64"
    "bit (mem st (bitmap_address m' s' b')) i'"
    by (auto simp: allocated_def)
  with continuation_address_inj [OF heap_magazine_ok(1) [OF assms(1,2)] assms(3-5)
      heap_magazine_ok(1) [OF assms(1) c(2)] c(3-5)]
  show "bit (mem st (bitmap_address m s b)) i" by simp
qed (use assms in \<open>auto simp: allocated_def\<close>)

lemma allocatedE:
  assumes "c \<in> allocated st"
  obtains m s b i where "c = continuation_address m s b i" "m \<in> magazines (num_cpu st) (mapped st)"
    "s < 7" "b < 64" "i < 64" "bit (mem st (bitmap_address m s b)) i"
  using assms by (auto simp: allocated_def)

lemma takes_allocated:
  assumes ok: "heaps_ok st" and m: "m \<in> magazines (num_cpu st) (mapped st)" "s < 7" "b < 64" "i < 64"
    and t: "takes m s b i st st'"
  shows "continuation_address m s b i \<notin> allocated st"
    and "allocated st' = insert (continuation_address m s b i) (allocated st)"
proof -
  show "continuation_address m s b i \<notin> allocated st"
    using t continuation_allocated [OF ok m] by (simp add: takes_def)
  have eq: "num_cpu st' = num_cpu st" "mapped st' = mapped st"
    using t by (auto simp: takes_def writes_only_def same_heaps_def)
  note mem = mem_takes [OF ok m(1-3) t]
  show "allocated st' = insert (continuation_address m s b i) (allocated st)"
  proof (intro set_eqI iffI)
    fix c assume "c \<in> allocated st'"
    then show "c \<in> insert (continuation_address m s b i) (allocated st)"
      by (rule allocatedE)
        (auto simp: eq mem continuation_allocated [OF ok] split: if_splits)
  next
    fix c assume "c \<in> insert (continuation_address m s b i) (allocated st)"
    moreover have "continuation_address m s b i \<in> allocated st'"
      using continuation_allocated [OF takes_heaps_ok [OF ok m(1-3) t]] m mem by (simp add: eq)
    moreover have "c \<in> allocated st'" if "c \<in> allocated st"
      using that
    proof (rule allocatedE)
      fix m' s' b' i' assume c: "c = continuation_address m' s' b' i'"
        "m' \<in> magazines (num_cpu st) (mapped st)" "s' < 7" "b' < 64" "i' < 64"
        "bit (mem st (bitmap_address m' s' b')) i'"
      then show "c \<in> allocated st'"
        using continuation_allocated [OF takes_heaps_ok [OF ok m(1-3) t]] mem
        by (simp add: eq) (metis bit_or_iff)
    qed
    ultimately show "c \<in> allocated st'" by blast
  qed
qed

section \<open>Allocating from a magazine\<close>

text \<open>A state that differs in how often the processor number was read.\<close>

definition reads_only :: "alloc_state \<Rightarrow> alloc_state \<Rightarrow> bool" where
  "reads_only st st' = (same_heaps st st' \<and> mem st' = mem st)"

lemma reads_only_refl [simp]: "reads_only st st"
  by (simp add: reads_only_def)

lemma reads_only_trans: "reads_only st st' \<Longrightarrow> reads_only st' st'' \<Longrightarrow> reads_only st st''"
  by (auto simp: reads_only_def intro: same_heaps_trans)

lemma reads_only_cpu [simp]: "reads_only st (st\<lparr>cpu_reads := k\<rparr>)"
  by (simp add: reads_only_def same_heaps_def)

lemma reads_only_heaps_ok:
  assumes "reads_only st st'" "heaps_ok st"
  shows "heaps_ok st'"
  by (rule heaps_ok_writes [OF assms(2)]) (use assms(1) in \<open>auto simp: reads_only_def writes_only_def\<close>)

lemma reads_only_fields:
  assumes "reads_only st st'"
  shows "mem st' = mem st" "main_heap st' = main_heap st" "num_cpu st' = num_cpu st"
    "cpus st' = cpus st" "vm st' = vm st" "mapped st' = mapped st" "allocated st' = allocated st"
  using assms by (simp_all add: reads_only_def same_heaps_def allocated_def)

lemma reads_only_takes:
  assumes "reads_only st st'"
  shows "takes m s b i st' st'' = takes m s b i st st''"
  using assms
  by (auto simp: takes_def writes_only_def reads_only_def same_heaps_words intro: same_heaps_trans)
    (auto simp: same_heaps_def)

lemma store_same [simp]: "store a (mem st a) st = st"
  by (simp add: store_def)

lemma store_fields [simp]:
  "mem (store a w st) = (mem st)(a := w)" "same_heaps st' (store a w st) = same_heaps st' st"
  "main_heap (store a w st) = main_heap st" "cpus (store a w st) = cpus st"
  "num_cpu (store a w st) = num_cpu st" "mapped (store a w st) = mapped st" "vm (store a w st) = vm st"
  by (simp_all add: store_def same_heaps_def)

lemma set_first_unset_bit_cases:
  obtains (full) "bitmap_set_first_unset_bit a st = (NO_BITS_WERE_UNSET, st)" "bitmap_is_full (mem st a)"
  | (found) i where "bitmap_set_first_unset_bit a st = (i, store a (mem st a OR 2 ^ i) st)"
      "i < 64" "\<not> bit (mem st a) i" "i \<noteq> NO_BITS_WERE_UNSET"
  by (rule set_first_bit_cases [of "mem st a" 4294967295])
    (auto simp: bitmap_set_first_unset_bit_def bitmap_set_first_unset_bit_upto_index_def
      bitmap_is_full_bits NO_BITS_WERE_UNSET_def)

lemma takes_store:
  assumes "heaps_ok st" "m \<in> magazines (num_cpu st) (mapped st)" "s < 7" "b < 64"
    and "\<not> bit (mem st (bitmap_address m s b)) i"
  shows "takes m s b i st
    (store (bitmap_address m s b) (mem st (bitmap_address m s b) OR 2 ^ i) st)"
  using assms bitmap_word_classes [OF assms(1-4)] by (auto simp: takes_def writes_only_def)

lemma takes_mark:
  assumes "heaps_ok st" "m \<in> magazines (num_cpu st) (mapped st)" "s < 7" "b < 64" "takes m s b i st st'"
  shows "takes m s b i st (mark_bitmap_as_full_if_still_full (supermap_address m s) b' a st')"
proof -
  have sw: "supermap_word st (supermap_address m s)"
    using assms(2,3) by (auto simp: supermap_word_def)
  then show ?thesis
    using assms(5) bitmap_word_classes [OF assms(1-4)] supermap_is_no_last_found [OF assms(1) sw]
    by (auto simp: mark_bitmap_as_full_if_still_full_def takes_def writes_only_def Let_def)
qed

lemma takes_set_last_found_page:
  assumes "heaps_ok st" "m \<in> magazines (num_cpu st) (mapped st)" "s < 7" "b < 64" "takes m s b i st st'"
    and "main_heap st \<noteq> 0"
  shows "takes m s b i st (set_last_found_page (bitmap_address m s b) st')"
proof -
  have same: "same_heaps st st'" using assms(5) by (simp add: takes_def writes_only_def)
  obtain cpu where cpu: "cpus st (cpu_reads st') = cpu" "cpu < num_cpu st"
    using assms(1) by (simp add: heaps_ok_def)
  have "main_heap st \<in> set (mapped st)"
    using assms(1,6) unfolding heaps_ok_def by (cases "mapped st") auto
  then have lf: "last_found_word st (last_found_address (main_heap st) cpu)"
    using cpu(2) by (auto simp: last_found_word_def)
  then have "bitmap_address m s b \<noteq> last_found_address (main_heap st) cpu"
    using bitmap_word_classes(2) [OF assms(1-4)] by metis
  moreover have "set_last_found_page (bitmap_address m s b) st'
      = store (last_found_address (main_heap st) cpu) (word_of_int (bitmap_address m s b))
          (st'\<lparr>cpu_reads := cpu_reads st' + 1\<rparr>)"
    using same cpu by (simp add: set_last_found_page_def dispatch_cpu_number_def same_heaps_def)
  ultimately show ?thesis
    using assms(5) lf uint_bitmap_address [OF heaps_list_ok [OF assms(1)] assms(2-4)]
    by (auto simp: takes_def writes_only_def same_heaps_def simp del: uint_word_of_int)
qed

lemma alloc_from_bitmaps_cases:
  assumes "heaps_ok st" "m \<in> magazines (num_cpu st) (mapped st)" "s < 7" "main_heap st \<noteq> 0"
    and "set bs \<subseteq> {..<64}"
  obtains (full) "alloc_from_bitmaps m s bs st = (0, st)"
      "\<And>b. b \<in> set bs \<Longrightarrow> bitmap_is_full (mem st (bitmap_address m s b))"
  | (found) b i st' where "alloc_from_bitmaps m s bs st = (continuation_address m s b i, st')"
      "b < 64" "i < 64" "takes m s b i st st'"
  using assms(5)
proof (induction bs arbitrary: thesis)
  case (Cons b bs)
  let ?a = "bitmap_address m s b"
  have b: "b < 64" using Cons.prems(3) by simp
  show ?case
  proof (cases rule: set_first_unset_bit_cases [of ?a st])
    case full
    show ?thesis
      by (rule Cons.IH) (use Cons.prems full in auto)
  next
    case (found i)
    have al: "first_bitmap_in_same_page ?a = ?a"
      by (rule first_bitmap_in_same_page_eq [OF heap_magazine_ok(1) [OF assms(1,2)]])
    have t: "takes m s b i st (mark_bitmap_as_full_if_still_full (supermap_address m s) b ?a
        (set_last_found_page ?a (store ?a (mem st ?a OR 2 ^ i) st)))"
      by (intro takes_mark takes_set_last_found_page takes_store assms(1-4) b found(3))
    show ?thesis
      by (rule Cons.prems(2) [OF _ b found(2) t]) (simp add: found(1,4) al Let_def)
  qed
qed simp

lemma alloc_from_supermaps_cases:
  assumes "heaps_ok st" "m \<in> magazines (num_cpu st) (mapped st)" "main_heap st \<noteq> 0"
    and "set ss \<subseteq> {..<7}"
  obtains (full) "alloc_from_supermaps m ss st = (0, st)"
      "\<And>s b. s \<in> set ss \<Longrightarrow> b < 64 \<Longrightarrow>
        bitmap_is_full (mem st (supermap_address m s)) \<or> bitmap_is_full (mem st (bitmap_address m s b))"
  | (found) s b i st' where "alloc_from_supermaps m ss st = (continuation_address m s b i, st')"
      "s < 7" "b < 64" "i < 64" "takes m s b i st st'"
  using assms(4)
proof (induction ss arbitrary: thesis)
  case (Cons s ss)
  have s: "s < 7" using Cons.prems(3) by simp
  show ?case
  proof (cases "bitmap_is_full (mem st (supermap_address m s))")
    case True
    show ?thesis
      by (rule Cons.IH) (use Cons.prems True in auto)
  next
    case False
    have sub: "set [0..<64] \<subseteq> {..<64}" by auto
    show ?thesis
    proof (cases rule: alloc_from_bitmaps_cases [OF assms(1,2) s assms(3) sub])
      case 1
      have f: "bitmap_is_full (mem st (bitmap_address m s b))" if "b < 64" for b
        using 1(2) [of b] that by simp
      have eq: "alloc_from_supermaps m (s # ss) st = alloc_from_supermaps m ss st"
        using False 1(1) by simp
      show ?thesis
      proof (rule Cons.IH)
        assume "alloc_from_supermaps m ss st = (0, st)"
          and "\<And>s b. s \<in> set ss \<Longrightarrow> b < 64 \<Longrightarrow> bitmap_is_full (mem st (supermap_address m s))
            \<or> bitmap_is_full (mem st (bitmap_address m s b))"
        then show ?thesis using f by (intro Cons.prems(1)) (auto simp del: alloc_from_supermaps.simps simp: eq)
      qed (use Cons.prems(2,3) in \<open>simp_all only: eq set_simps insert_subset\<close>)
    next
      case (2 b i st')
      show ?thesis
        by (rule Cons.prems(2) [OF _ s 2(2-4)])
          (simp add: False 2(1) continuation_not_null [OF heaps_list_ok [OF assms(1)] assms(2)])
    qed
  qed
qed simp

lemma alloc_from_magazine_cases:
  assumes "heaps_ok st" "m \<in> magazines (num_cpu st) (mapped st)" "main_heap st \<noteq> 0"
  obtains (full) "alloc_continuation_from_magazine m st = (0, st)"
      "\<And>s b. s < 7 \<Longrightarrow> b < 64 \<Longrightarrow>
        bitmap_is_full (mem st (supermap_address m s)) \<or> bitmap_is_full (mem st (bitmap_address m s b))"
  | (found) s b i st' where "alloc_continuation_from_magazine m st = (continuation_address m s b i, st')"
      "s < 7" "b < 64" "i < 64" "takes m s b i st st'"
  by (rule alloc_from_supermaps_cases [OF assms, of "[0..<7]"])
    (auto simp: alloc_continuation_from_magazine_def)

section \<open>What an allocation promises\<close>

text \<open>
  Allocating gives a continuation that was not allocated, marks it as allocated and nothing
  else, and keeps the heaps well formed.
\<close>

definition allocates :: "alloc_state \<Rightarrow> int \<Rightarrow> alloc_state \<Rightarrow> bool" where
  "allocates st c st' =
    (heaps_ok st' \<and> c \<notin> allocated st \<and> allocated st' = insert c (allocated st) \<and> c \<noteq> 0)"

lemma takes_allocates:
  assumes "heaps_ok st" "m \<in> magazines (num_cpu st) (mapped st)" "s < 7" "b < 64" "i < 64"
    and "takes m s b i st st'"
  shows "allocates st (continuation_address m s b i) st'"
  unfolding allocates_def
  using takes_heaps_ok [OF assms(1-4,6)] takes_allocated [OF assms]
    continuation_not_null [OF heaps_list_ok [OF assms(1)] assms(2)] by blast

lemma allocates_same:
  assumes "allocated st' = allocated st"
  shows "allocates st' c st'' = allocates st c st''"
  using assms by (simp add: allocates_def)

text \<open>From the magazine of the processor in a heap: a full magazine leaves everything as it is.\<close>

lemma alloc_from_heap_cases:
  assumes "heaps_ok st" "h \<in> set (mapped st)"
  obtains (full) st' k where "dispatch_alloc_continuation_from_heap h st = (0, st')" "reads_only st st'"
      "k < num_cpu st" "\<And>s b. s < 7 \<Longrightarrow> b < 64 \<Longrightarrow>
        bitmap_is_full (mem st (supermap_address (h + BYTES_PER_MAGAZINE * int k) s)) \<or>
        bitmap_is_full (mem st (bitmap_address (h + BYTES_PER_MAGAZINE * int k) s b))"
  | (found) c st' where "dispatch_alloc_continuation_from_heap h st = (c, st')" "allocates st c st'"
proof -
  obtain k where k: "k = cpus st (cpu_reads st)" "k < num_cpu st"
    using assms(1) by (simp add: heaps_ok_def)
  let ?st = "st\<lparr>cpu_reads := cpu_reads st + 1\<rparr>" and ?m = "h + BYTES_PER_MAGAZINE * int k"
  have r: "reads_only st ?st" by simp
  note ok = reads_only_heaps_ok [OF r assms(1)] and f = reads_only_fields [OF r]
  have m: "?m \<in> magazines (num_cpu ?st) (mapped ?st)"
    unfolding f by (rule magazineI [OF assms(2) k(2)])
  have eq: "dispatch_alloc_continuation_from_heap h st = alloc_continuation_from_magazine ?m ?st"
    using k by (simp add: dispatch_alloc_continuation_from_heap_def dispatch_cpu_number_def)
  have main: "main_heap ?st \<noteq> 0"
    using assms by (cases "mapped st") (auto simp: heaps_ok_def heap_ok_def)
  show ?thesis
  proof (cases rule: alloc_from_magazine_cases [OF ok m main])
    case 1
    show ?thesis by (rule full [OF _ r k(2)]) (use 1 in \<open>simp_all only: eq f\<close>)
  next
    case (2 s b i st')
    show ?thesis
      by (rule found) (use 2(1) takes_allocates [OF ok m 2(2-5)] in
          \<open>simp_all only: eq allocates_same [OF f(7)]\<close>)
  qed
qed

section \<open>Creating a heap\<close>

definition tail_ptr :: "heap_ptr \<Rightarrow> int list \<Rightarrow> heap_ptr" where
  "tail_ptr p hs = (if hs = [] then p else Dh_next (last hs))"

lemma tail_ptr_simps [simp]: "tail_ptr p [] = p" "tail_ptr p (h # hs) = tail_ptr (Dh_next h) hs"
  by (simp_all add: tail_ptr_def)

lemma heap_chain_tail: "heap_chain st p hs \<Longrightarrow> load_heap (tail_ptr p hs) st = 0"
  by (induction hs arbitrary: p) auto

lemma mach_vm_map_loop_region:
  "mach_vm_map_loop rs = Some (Inr (r, rs')) \<Longrightarrow> vm_regions rs = r # vm_regions rs'"
  by (induction rs rule: mach_vm_map_loop.induct) (auto split: if_splits)

lemma mach_vm_map_loop_crash:
  "mach_vm_map_loop rs = Some (Inl e) \<Longrightarrow> \<exists>kr. e = Could_not_allocate_heap kr"
  by (induction rs rule: mach_vm_map_loop.induct) (auto split: if_splits)

lemma disjoint_heaps_distinct:
  assumes "0 < n" "sorted_wrt (\<lambda>h h'. magazines n [h] \<inter> magazines n [h'] = {}) hs"
  shows "distinct hs"
  using assms(2)
proof (induction hs)
  case (Cons h hs)
  have "h \<in> magazines n [h]" using magazineI [of h "[h]" 0 n] assms(1) by simp
  then have "h \<notin> set hs" using Cons.prems by auto
  then show ?case using Cons by simp
qed simp

lemma store_heap_load:
  "p = q \<Longrightarrow> 0 \<le> r \<Longrightarrow> r < 2 ^ 64 \<Longrightarrow> load_heap q (store_heap p r st) = r"
  "p \<noteq> q \<Longrightarrow> load_heap q (store_heap p r st) = load_heap q st"
  by (cases p; cases q; simp add: store_def uint_word_of_int)+

lemma heap_chain_extend:
  assumes "heap_chain st p hs" "distinct hs" "\<And>h. p = Dh_next h \<Longrightarrow> h \<notin> set hs"
    and r: "0 \<le> r" "r < 2 ^ 64" "mem st r = 0" "tail_ptr p hs \<noteq> Dh_next r"
  shows "heap_chain (store_heap (tail_ptr p hs) r st) p (hs @ [r])"
  using assms(1-3,7)
proof (induction hs arbitrary: p)
  case Nil
  then show ?case using r(1-3) store_heap_load(2) [of p "Dh_next r" r st]
    by (simp add: store_heap_load(1))
next
  case (Cons h hs)
  have "p \<noteq> tail_ptr (Dh_next h) hs"
    using Cons.prems(3) by (cases hs rule: rev_cases) (auto simp: tail_ptr_def)
  then show ?case
    using Cons.IH [of "Dh_next h"] Cons.prems by (simp add: store_heap_load(2))
qed

definition heap_created :: "heap_ptr \<Rightarrow> int \<Rightarrow> vm_result list \<Rightarrow> alloc_state \<Rightarrow> alloc_state" where
  "heap_created p r rs st =
    (store_heap p r (st\<lparr>vm := rs\<rparr>))\<lparr>mapped := mapped st @ [r]\<rparr>"

lemma heap_created_fields [simp]:
  "num_cpu (heap_created p r rs st) = num_cpu st" "cpus (heap_created p r rs st) = cpus st"
  "mapped (heap_created p r rs st) = mapped st @ [r]" "vm (heap_created p r rs st) = rs"
  "mem (heap_created Main_heap r rs st) = mem st"
  "mem (heap_created (Dh_next h) r rs st) = (mem st)(h := word_of_int r)"
  "main_heap (heap_created Main_heap r rs st) = r"
  "main_heap (heap_created (Dh_next h) r rs st) = main_heap st"
  by (cases p; simp add: heap_created_def store_def)+

lemma load_heap_created: "load_heap q (heap_created p r rs st) = load_heap q (store_heap p r st)"
  by (cases p; cases q; simp add: heap_created_def store_def)

lemma heap_chain_created: "heap_chain (heap_created p r rs st) q hs = heap_chain (store_heap p r st) q hs"
  by (induction hs arbitrary: q) (simp_all add: load_heap_created)

text \<open>The facts about the heap that \<open>mach_vm_map\<close> has just answered with.\<close>

lemma fresh_heap:
  assumes ok: "heaps_ok st" and r: "vm_regions (vm st) = r # vm_regions rs"
  shows "heap_ok (num_cpu st) r" "r \<notin> set (mapped st)" "0 \<le> r" "r < 2 ^ 64"
    and "\<And>a. magazine_for_continuation a \<in> magazines (num_cpu st) [r] \<Longrightarrow> mem st a = 0"
    and "\<And>a. magazine_for_continuation a \<in> magazines (num_cpu st) (vm_regions rs) \<Longrightarrow>
      mem st a = 0 \<and> magazine_for_continuation a \<notin> magazines (num_cpu st) (mapped st)"
    and "magazines (num_cpu st) (mapped st) \<inter> magazines (num_cpu st) [r] = {}"
    and "distinct (mapped st)"
proof -
  have n: "0 < num_cpu st" and v: "vm_promise st" using ok by (simp_all add: heaps_ok_def)
  have srt: "sorted_wrt (\<lambda>h h'. magazines (num_cpu st) [h] \<inter> magazines (num_cpu st) [h'] = {})
      (mapped st @ r # vm_regions rs)"
    using v r by (simp add: vm_promise_def)
  have d: "distinct (mapped st @ r # vm_regions rs)"
    using disjoint_heaps_distinct [OF n srt] .
  show hr: "heap_ok (num_cpu st) r" using v r by (simp add: vm_promise_def)
  then have "0 < r" "r + 2097152 * int (num_cpu st) \<le> 2 ^ 64" by (simp_all add: heap_ok_def)
  moreover have "0 < 2097152 * int (num_cpu st)" using n by simp
  ultimately show "0 \<le> r" "r < 2 ^ 64" by linarith+
  show "r \<notin> set (mapped st)" "distinct (mapped st)" using d by auto
  have dis: "magazines (num_cpu st) (mapped st) \<inter> magazines (num_cpu st) (r # vm_regions rs) = {}"
    by (rule sorted_wrt_disjoint_append [OF srt])
  then show "magazines (num_cpu st) (mapped st) \<inter> magazines (num_cpu st) [r] = {}"
    using magazines_Cons [of "num_cpu st" r "vm_regions rs"] by blast
  have z: "mem st a = 0"
    if "magazine_for_continuation a \<in> magazines (num_cpu st) (r # vm_regions rs)" for a
    using v r that by (simp add: vm_promise_def)
  then show "mem st a = 0" if "magazine_for_continuation a \<in> magazines (num_cpu st) [r]" for a
    using that magazines_Cons [of "num_cpu st" r "vm_regions rs"] by blast
  show "mem st a = 0 \<and> magazine_for_continuation a \<notin> magazines (num_cpu st) (mapped st)"
    if "magazine_for_continuation a \<in> magazines (num_cpu st) (vm_regions rs)" for a
    using that z dis magazines_Cons [of "num_cpu st" r "vm_regions rs"] by blast
qed

text \<open>Linking a fresh heap keeps the invariant and allocates nothing.\<close>

lemma heap_created_last_found:
  assumes ok: "heaps_ok st" and r: "vm_regions (vm st) = r # vm_regions rs"
  shows "last_found_ok (heap_created (tail_ptr Main_heap (mapped st)) r rs st)"
proof -
  note fresh = fresh_heap [OF ok r]
  show ?thesis
  proof (cases "mapped st = []")
    case True
    have "mem st (last_found_address r k) = 0" if "k < num_cpu st" for k
    proof (rule fresh(5))
      have "magazine_aligned r" using fresh(1) by (simp add: heap_ok_def)
      then show "magazine_for_continuation (last_found_address r k) \<in> magazines (num_cpu st) [r]"
        using magazine_of_last_found [of r k] magazineI [of r "[r]" k] that by simp
    qed
    with True show ?thesis by (simp add: last_found_ok_def)
  next
    case False
    then have main: "main_heap st \<in> set (mapped st)"
      using ok by (cases "mapped st") (auto simp: heaps_ok_def)
    have "last_found_address (main_heap st) k \<noteq> last (mapped st)" for k
      using mod_last_found_address [of "main_heap st" k] load_heap_field [OF ok main]
        load_heap_field [OF ok last_in_set [OF False]] by (auto simp: magazine_aligned_def)
    moreover have "last_found_ok st" using ok by (simp add: heaps_ok_def)
    ultimately show ?thesis
      using False by (fastforce simp: last_found_ok_def tail_ptr_def magazines_append Let_def)
  qed
qed

lemma mem_heap_created:
  assumes "\<And>h. p = Dh_next h \<Longrightarrow> a \<noteq> h"
  shows "mem (heap_created p r rs st) a = mem st a"
  using assms by (cases p) auto

lemma heap_created_heaps_ok:
  assumes ok: "heaps_ok st" and r: "vm_regions (vm st) = r # vm_regions rs"
  shows "heaps_ok (heap_created (tail_ptr Main_heap (mapped st)) r rs st)"
proof -
  let ?p = "tail_ptr Main_heap (mapped st)"
  note fresh = fresh_heap [OF ok r]
  have tail: "h \<in> set (mapped st)" if "?p = Dh_next h" for h
    using that by (auto simp: tail_ptr_def split: if_splits)
  have mr: "magazine_for_continuation r = r"
    using fresh(1) by (simp add: heap_ok_def magazine_aligned_def magazine_for_continuation_eq)
  have "r \<in> magazines (num_cpu st) [r]"
    using magazineI [of r "[r]" 0 "num_cpu st"] ok by (simp add: heaps_ok_def)
  then have mem_r: "mem st r = 0" using fresh(5) [of r] by (simp only: mr)
  have "heap_chain (heap_created ?p r rs st) Main_heap (mapped st @ [r])"
    unfolding heap_chain_created using ok tail fresh(2)
    by (intro heap_chain_extend fresh(3,4,8) mem_r) (auto simp: heaps_ok_def)
  moreover have "mem (heap_created ?p r rs st) a = 0"
    if "magazine_for_continuation a \<in> magazines (num_cpu st) (vm_regions rs)" for a
  proof -
    have "magazine_for_continuation h \<in> magazines (num_cpu st) (mapped st)" if "h \<in> set (mapped st)" for h
      using load_heap_field [OF ok that] magazineI [OF that, of 0 "num_cpu st"] ok
      by (simp add: magazine_for_continuation_eq heaps_ok_def)
    then show ?thesis
      using fresh(6) [OF that] tail by (subst mem_heap_created) auto
  qed
  ultimately show ?thesis
    using ok fresh(1) r heap_created_last_found [OF ok r]
    by (simp add: heaps_ok_def vm_promise_def)
qed

lemma heap_created_allocated:
  assumes ok: "heaps_ok st" and r: "vm_regions (vm st) = r # vm_regions rs"
  shows "allocated (heap_created (tail_ptr Main_heap (mapped st)) r rs st) = allocated st"
proof -
  let ?p = "tail_ptr Main_heap (mapped st)"
  note fresh = fresh_heap [OF ok r] and ok' = heap_created_heaps_ok [OF ok r]
  have mem: "mem (heap_created ?p r rs st) (bitmap_address m s b) = mem st (bitmap_address m s b)"
    if m: "magazine_aligned m" "s < 7" "b < 64" for m s b
  proof (rule mem_heap_created)
    fix h assume "?p = Dh_next h"
    then have "h \<in> set (mapped st)" by (auto simp: tail_ptr_def split: if_splits)
    then show "bitmap_address m s b \<noteq> h"
      using mod_bitmap_address [OF m] load_heap_field [OF ok] by fastforce
  qed
  have "mem st (bitmap_address m s b) = 0"
    if "m \<in> magazines (num_cpu st) [r]" "s < 7" "b < 64" for m s b
  proof (rule fresh(5))
    have "magazine_aligned m"
      using magazine_ok(1) [of "num_cpu st" "[r]"] fresh(1) that(1) by simp
    then show "magazine_for_continuation (bitmap_address m s b) \<in> magazines (num_cpu st) [r]"
      using that by (simp add: magazine_of_bitmap)
  qed
  moreover have "magazine_aligned m" if "m \<in> magazines (num_cpu st) (mapped st @ [r])" for m
    using heap_magazine_ok(1) [OF ok', of m] that by simp
  ultimately have "m \<in> magazines (num_cpu st) (mapped st @ [r]) \<and> s < 7 \<and> b < 64 \<and> i < 64 \<and>
      bit (mem (heap_created ?p r rs st) (bitmap_address m s b)) i \<longleftrightarrow>
      m \<in> magazines (num_cpu st) (mapped st) \<and> s < 7 \<and> b < 64 \<and> i < 64 \<and>
      bit (mem st (bitmap_address m s b)) i" for m s b i
    using mem [of m s b] unfolding magazines_append by (metis Un_iff bit_0_eq bot_apply bot_bool_def)
  then show ?thesis unfolding allocated_def heap_created_fields by simp
qed

lemma try_create_heap_cases:
  assumes ok: "heaps_ok st"
  obtains (waits) "dispatch_alloc_try_create_heap (tail_ptr Main_heap (mapped st)) st = None"
      "mach_vm_map_loop (vm st) = None"
  | (crash) kr where "dispatch_alloc_try_create_heap (tail_ptr Main_heap (mapped st)) st
      = Some (Inl (Could_not_allocate_heap kr))"
  | (created) r rs where "dispatch_alloc_try_create_heap (tail_ptr Main_heap (mapped st)) st
      = Some (Inr (heap_created (tail_ptr Main_heap (mapped st)) r rs st))"
      "vm_regions (vm st) = r # vm_regions rs"
proof (cases "mach_vm_map_loop (vm st)")
  case None
  then show ?thesis by (intro waits) (simp_all add: dispatch_alloc_try_create_heap_def)
next
  case (Some x)
  show ?thesis
  proof (cases x)
    case (Inl e)
    then show ?thesis
      using Some mach_vm_map_loop_crash [of "vm st" e]
      by (auto simp: dispatch_alloc_try_create_heap_def intro: crash)
  next
    case (Inr y)
    obtain r rs where y: "y = (r, rs)" by (cases y)
    have "load_heap (tail_ptr Main_heap (mapped st)) (st\<lparr>vm := rs\<rparr>) = 0"
      using heap_chain_tail [of st Main_heap "mapped st"] ok
      by (cases "tail_ptr Main_heap (mapped st)") (simp_all add: heaps_ok_def)
    then show ?thesis
      using Some Inr y mach_vm_map_loop_region [of "vm st" r rs]
      by (intro created [of r rs]) (simp_all add: dispatch_alloc_try_create_heap_def heap_created_def Let_def)
  qed
qed

section \<open>Allocating from the heaps\<close>

lemma fresh_heap_not_full:
  assumes ok: "heaps_ok st" and r: "vm_regions (vm st) = r # vm_regions rs"
    and m: "m \<in> magazines (num_cpu st) [r]" "s < 7" "b < 64"
  defines "st' \<equiv> heap_created (tail_ptr Main_heap (mapped st)) r rs st"
  shows "\<not> bitmap_is_full (mem st' (supermap_address m s))"
    and "\<not> bitmap_is_full (mem st' (bitmap_address m s b))"
proof -
  note fresh = fresh_heap [OF ok r]
  have al: "magazine_aligned m" using magazine_ok(1) [of "num_cpu st" "[r]"] fresh(1) m(1) by simp
  have nz: "a \<noteq> h" if "h \<in> set (mapped st)" "a mod 2097152 \<noteq> 0" for a h
    using load_heap_field [OF ok that(1)] that(2) by auto
  have tail: "h \<in> set (mapped st)" if "tail_ptr Main_heap (mapped st) = Dh_next h" for h
    using that by (auto simp: tail_ptr_def split: if_splits)
  have mem: "mem st' a = mem st a" if "a mod 2097152 \<noteq> 0" for a
    unfolding st'_def using nz tail that by (intro mem_heap_created) metis
  have "supermap_address m s mod 2097152 \<noteq> 0" "bitmap_address m s b mod 2097152 \<noteq> 0"
    using mod_supermap_address [OF al m(2)] mod_bitmap_address [OF al m(2,3)] by simp_all
  then have "mem st' (supermap_address m s) = 0" "mem st' (bitmap_address m s b) = 0"
    using mem fresh(5) m magazine_of_supermap [OF al m(2)] magazine_of_bitmap [OF al m(2,3)] by simp_all
  then show "\<not> bitmap_is_full (mem st' (supermap_address m s))"
    "\<not> bitmap_is_full (mem st' (bitmap_address m s b))"
    by (simp_all add: bitmap_is_full_def BITMAP_ALL_ONES_def)
qed

lemma alloc_from_fresh_heap:
  assumes ok: "heaps_ok st" and r: "vm_regions (vm st) = r # vm_regions rs"
  defines "st' \<equiv> heap_created (tail_ptr Main_heap (mapped st)) r rs st"
  obtains c st'' where "dispatch_alloc_continuation_from_heap r st' = (c, st'')" "allocates st' c st''"
proof -
  have ok': "heaps_ok st'" unfolding st'_def by (rule heap_created_heaps_ok [OF ok r])
  have r': "r \<in> set (mapped st')" by (simp add: st'_def)
  show ?thesis
  proof (cases rule: alloc_from_heap_cases [OF ok' r'])
    case (1 st'' k)
    then have "r + BYTES_PER_MAGAZINE * int k \<in> magazines (num_cpu st) [r]"
      by (intro magazineI) (simp_all add: st'_def)
    from fresh_heap_not_full [OF ok r this, of 0 0] 1(4) [of 0 0]
    show ?thesis unfolding st'_def by simp
  next
    case (2 c st'')
    then show ?thesis by (rule that)
  qed
qed

text \<open>What the loop returns, and that it does whenever \<open>mach_vm_map\<close> ends its own loop.\<close>

definition alloc_outcome :: "alloc_state \<Rightarrow> (int \<times> alloc_state) alloc_run \<Rightarrow> bool" where
  "alloc_outcome st res =
    (case res of
       None \<Rightarrow> mach_vm_map_loop (vm st) = None
     | Some (Inl e) \<Rightarrow> \<exists>kr. e = Could_not_allocate_heap kr
     | Some (Inr (c, st')) \<Rightarrow> allocates st c st')"

lemma alloc_outcome_reads:
  assumes "reads_only st st'"
  shows "alloc_outcome st' res = alloc_outcome st res"
  unfolding alloc_outcome_def allocates_def reads_only_fields [OF assms] by (rule refl)

lemma alloc_from_heap_loop_outcome:
  assumes "heaps_ok st" "mapped st = pre @ hs"
  shows "alloc_outcome st (alloc_from_heap_loop (tail_ptr Main_heap pre) st)"
  using assms
proof (induction hs arbitrary: st pre)
  case Nil
  have z: "load_heap (tail_ptr Main_heap (mapped st)) st = 0"
    using heap_chain_tail Nil.prems(1) by (simp add: heaps_ok_def)
  have pre: "pre = mapped st" using Nil by simp
  show ?case
  proof (cases rule: try_create_heap_cases [OF Nil.prems(1)])
    case (3 r rs)
    obtain c st'' where
      c: "dispatch_alloc_continuation_from_heap r
          (heap_created (tail_ptr Main_heap (mapped st)) r rs st) = (c, st'')"
        "allocates (heap_created (tail_ptr Main_heap (mapped st)) r rs st) c st''"
      by (rule alloc_from_fresh_heap [OF Nil.prems(1) 3(2)])
    have "load_heap (tail_ptr Main_heap (mapped st)) (heap_created (tail_ptr Main_heap (mapped st)) r rs st) = r"
      unfolding load_heap_created
      by (rule store_heap_load(1) [OF refl fresh_heap(3,4) [OF Nil.prems(1) 3(2)]])
    moreover have "allocates st c st''"
      using c(2) allocates_same [OF heap_created_allocated [OF Nil.prems(1) 3(2)]] by simp
    ultimately show ?thesis
      by (subst alloc_from_heap_loop.simps)
        (simp add: pre z 3(1) c(1) alloc_outcome_def allocates_def)
  qed (subst alloc_from_heap_loop.simps; simp add: pre z alloc_outcome_def)+
next
  case (Cons h hs)
  have h: "h \<in> set (mapped st)" "h \<noteq> 0"
    using Cons.prems by (auto simp: heaps_ok_def heap_ok_def)
  have load: "load_heap (tail_ptr Main_heap pre) st = h"
  proof -
    have "heap_chain st p (pre @ h # hs) \<Longrightarrow> load_heap (tail_ptr p pre) st = h" for p
      by (induction pre arbitrary: p) auto
    then show ?thesis using Cons.prems by (simp add: heaps_ok_def)
  qed
  show ?case
  proof (cases rule: alloc_from_heap_cases [OF Cons.prems(1) h(1)])
    case (1 st' k)
    have f: "heaps_ok st'" "mapped st' = (pre @ [h]) @ hs"
      using reads_only_heaps_ok [OF 1(2) Cons.prems(1)] reads_only_fields [OF 1(2)] Cons.prems(2) by simp_all
    have load': "load_heap (tail_ptr Main_heap pre) st' = h"
      using load reads_only_fields [OF 1(2)] by (cases "tail_ptr Main_heap pre") simp_all
    have "alloc_from_heap_loop (tail_ptr Main_heap pre) st = alloc_from_heap_loop (Dh_next h) st'"
      by (subst alloc_from_heap_loop.simps) (simp add: load load' h(2) 1(1))
    then have "alloc_from_heap_loop (tail_ptr Main_heap pre) st
        = alloc_from_heap_loop (tail_ptr Main_heap (pre @ [h])) st'"
      by (simp add: tail_ptr_def)
    then show ?thesis using Cons.IH [OF f] alloc_outcome_reads [OF 1(2)] by simp
  next
    case (2 c st')
    then show ?thesis
      by (subst alloc_from_heap_loop.simps)
        (simp add: load h(2) alloc_outcome_def allocates_def)
  qed
qed

lemma last_found_page_cases:
  assumes ok: "heaps_ok st" and "main_heap st \<noteq> 0"
  obtains (none) st' where "last_found_page st = (0, st')" "reads_only st st'"
  | (page) m s b st' where "last_found_page st = (bitmap_address m s b, st')" "reads_only st st'"
      "m \<in> magazines (num_cpu st) (mapped st)" "s < 7" "b < 64"
proof -
  obtain k where k: "k = cpus st (cpu_reads st)" "k < num_cpu st" using ok by (simp add: heaps_ok_def)
  let ?w = "uint (mem st (last_found_address (main_heap st) k))"
  have eq: "last_found_page st = (?w, st\<lparr>cpu_reads := cpu_reads st + 1\<rparr>)"
    using k by (simp add: last_found_page_def dispatch_cpu_number_def)
  have "?w = 0 \<or> (\<exists>m \<in> magazines (num_cpu st) (mapped st). \<exists>s < 7. \<exists>b < 64. ?w = bitmap_address m s b)"
    using ok k(2) assms(2) unfolding heaps_ok_def last_found_ok_def Let_def by blast
  then show ?thesis using none page eq reads_only_cpu by metis
qed

lemma alloc_from_last_page_cases:
  assumes ok: "heaps_ok st" and m: "m \<in> magazines (num_cpu st) (mapped st)" "s < 7" "b < 64"
  obtains (full) "alloc_from_last_page (bitmap_address m s b) [0..<BITMAPS_PER_PAGE] st = (0, st)"
  | (found) c st' where
      "alloc_from_last_page (bitmap_address m s b) [0..<BITMAPS_PER_PAGE] st = (c, st')"
      "allocates st c st'"
proof (cases rule: set_first_unset_bit_cases [of "bitmap_address m s b" st])
  case full
  then show ?thesis by (intro that(1)) simp
next
  case (found i)
  note t = takes_mark [OF ok m takes_store [OF ok m found(3)], of b "bitmap_address m s b"]
  show ?thesis
    by (rule that(2) [OF _ takes_allocates [OF ok m found(2) t]])
      (simp add: found(1,4) Let_def cont_of_bitmap [OF heap_magazine_ok(1) [OF ok m(1)] m(2,3)])
qed

theorem alloc_outcome_alloc:
  assumes ok: "heaps_ok st"
  shows "alloc_outcome st (dispatch_alloc_continuation_alloc st)"
proof -
  have slow: "alloc_outcome st (dispatch_alloc_continuation_from_heap_slow st')"
    if "reads_only st st'" for st'
    using alloc_from_heap_loop_outcome [OF reads_only_heaps_ok [OF that ok], of "[]"]
      alloc_outcome_reads [OF that]
    by (simp add: dispatch_alloc_continuation_from_heap_slow_def)
  have heap: "alloc_outcome st (let (cont, st) = dispatch_alloc_continuation_from_heap (main_heap st') st'
      in if cont \<noteq> 0 then Some (Inr (cont, st)) else dispatch_alloc_continuation_from_heap_slow st)"
    if r: "reads_only st st'" and nz: "main_heap st \<noteq> 0" for st'
  proof -
    have main: "main_heap st' \<in> set (mapped st')"
      using ok nz reads_only_fields [OF r] by (cases "mapped st") (auto simp: heaps_ok_def)
    show ?thesis
    proof (cases rule: alloc_from_heap_cases [OF reads_only_heaps_ok [OF r ok] main])
      case (1 st'' k)
      then show ?thesis using slow [OF reads_only_trans [OF r 1(2)]] by simp
    next
      case (2 c st'')
      then show ?thesis
        using alloc_outcome_reads [OF r, of "Some (Inr (c, st''))"]
        by (simp add: alloc_outcome_def allocates_def)
    qed
  qed
  show ?thesis
  proof (cases "main_heap st = 0")
    case True
    then show ?thesis using slow [of st] by (simp add: dispatch_alloc_continuation_alloc_def)
  next
    case False
    show ?thesis
    proof (cases rule: last_found_page_cases [OF ok False])
      case (1 st')
      then show ?thesis using heap [OF 1(2) False] False
        by (simp add: dispatch_alloc_continuation_alloc_def)
    next
      case (2 m s b st')
      note ok' = reads_only_heaps_ok [OF 2(2) ok] and f = reads_only_fields [OF 2(2)]
      have m: "m \<in> magazines (num_cpu st') (mapped st')" using 2(3) f by simp
      have nz: "bitmap_address m s b \<noteq> 0"
        using heap_magazine_ok(2) [OF ok 2(3)] by (simp add: bitmap_address_def)
      show ?thesis
      proof (cases rule: alloc_from_last_page_cases [OF ok' m 2(4,5)])
        case 1
        then show ?thesis using heap [OF 2(2) False] False nz 2(1)
          by (simp add: dispatch_alloc_continuation_alloc_def)
      next
        case (2 c st'')
        then show ?thesis
          using False nz \<open>last_found_page st = (bitmap_address m s b, st')\<close>
            allocates_same [OF f(7), of c st'']
          by (simp add: dispatch_alloc_continuation_alloc_def alloc_outcome_def allocates_def)
      qed
    qed
  qed
qed

section \<open>Freeing\<close>

text \<open>
  Giving a page back is possible only when none of its continuations is allocated; the bitmap
  that was taken for it is put back.
\<close>

lemma maybe_madvise_page_eq:
  assumes ok: "heaps_ok st" and m: "m \<in> magazines (num_cpu st) (mapped st)" "s < 7" "b < 64" "i < 64"
  shows "dispatch_alloc_maybe_madvise_page (continuation_address m s b i) st =
    (if mem st (bitmap_address m s b) = 0
     then st\<lparr>madvised := madvised st @ [continuation_address m s b 0]\<rparr> else st)"
proof -
  note al = heap_magazine_ok(1) [OF ok m(1)]
  have eq: "madvisable_page_base_for_continuation (continuation_address m s b i) = continuation_address m s b 0"
    "get_maps_and_indices_for_continuation (continuation_address m s b 0)
      = (supermap_address m s, b, bitmap_address m s b, 0)"
    using page_base_of_continuation [OF al m(2-4)] maps_of_continuation [OF al m(2,3), of 0] by simp_all
  have nz: "continuation_address m s b 0 \<noteq> 0"
    by (rule continuation_not_null [OF heaps_list_ok [OF ok] m(1)])
  show ?thesis
    by (simp add: dispatch_alloc_maybe_madvise_page_def eq nz Let_def)
      (auto simp: eval_nat_numeral store_def fun_upd_idem)
qed

lemma supermap_not_null:
  assumes "heaps_ok st" "m \<in> magazines (num_cpu st) (mapped st)"
  shows "supermap_address m s \<noteq> 0"
  using heap_magazine_ok(2) [OF assms] by (simp add: supermap_address_def)

lemma bit_test: "w AND 2 ^ i = 0 \<longleftrightarrow> \<not> bit w i" for w :: u64
  by (rule and_exp_eq_0_iff_not_bit)

definition cleared :: "int \<Rightarrow> nat \<Rightarrow> nat \<Rightarrow> nat \<Rightarrow> alloc_state \<Rightarrow> alloc_state" where
  "cleared m s b i st =
    (let st = store (bitmap_address m s b) (mem st (bitmap_address m s b) AND NOT (2 ^ i)) st
     in store (supermap_address m s) (mem st (supermap_address m s) AND NOT (2 ^ b)) st)"

lemma cleared_writes:
  assumes ok: "heaps_ok st" and m: "m \<in> magazines (num_cpu st) (mapped st)" "s < 7" "b < 64"
  shows "heaps_ok (cleared m s b i st)"
    and "mem (cleared m s b i st) (bitmap_address m s b) = mem st (bitmap_address m s b) AND NOT (2 ^ i)"
proof -
  have sw: "supermap_word st (supermap_address m s)" using m by (auto simp: supermap_word_def)
  have ne: "supermap_address m s \<noteq> bitmap_address m s b"
    using bitmap_word_classes(1) [OF ok m] sw by metis
  show "heaps_ok (cleared m s b i st)"
  proof (rule heaps_ok_writes [OF ok])
    show "writes_only (metadata_word st) st (cleared m s b i st)"
      using sw m by (auto simp: writes_only_def metadata_word_def cleared_def Let_def)
  next
    fix a assume "last_found_word st a"
    then have "a \<noteq> supermap_address m s" "a \<noteq> bitmap_address m s b"
      using supermap_is_no_last_found [OF ok sw] bitmap_word_classes(2) [OF ok m] by auto
    then show "mem (cleared m s b i st) a = mem st a \<or>
      (\<exists>m' \<in> magazines (num_cpu st) (mapped st). \<exists>s' < 7. \<exists>b' < 64.
        uint (mem (cleared m s b i st) a) = bitmap_address m' s' b')"
      by (simp add: cleared_def Let_def)
  qed
  show "mem (cleared m s b i st) (bitmap_address m s b) = mem st (bitmap_address m s b) AND NOT (2 ^ i)"
    using ne by (simp add: cleared_def Let_def)
qed

lemma cleared_allocated:
  assumes ok: "heaps_ok st" and m: "m \<in> magazines (num_cpu st) (mapped st)" "s < 7" "b < 64" "i < 64"
  shows "allocated (cleared m s b i st) = allocated st - {continuation_address m s b i}"
proof (rule set_eqI)
  note ok' = cleared_writes(1) [OF ok m(1-3), of i]
  have f: "num_cpu (cleared m s b i st) = num_cpu st" "mapped (cleared m s b i st) = mapped st"
    by (simp_all add: cleared_def Let_def)
  have bits: "bit (mem (cleared m s b i st) (bitmap_address m' s' b')) i' \<longleftrightarrow>
      bit (mem st (bitmap_address m' s' b')) i' \<and> \<not> (m' = m \<and> s' = s \<and> b' = b \<and> i' = i)"
    if m': "m' \<in> magazines (num_cpu st) (mapped st)" "s' < 7" "b' < 64" for m' s' b' i'
  proof -
    have "bitmap_address m' s' b' \<noteq> supermap_address m s"
      using bitmap_word_classes(1) [OF ok m'] m by (auto simp: supermap_word_def)
    then have "mem (cleared m s b i st) (bitmap_address m' s' b') = mem st (bitmap_address m' s' b')"
      if "bitmap_address m' s' b' \<noteq> bitmap_address m s b"
      using that by (simp add: cleared_def Let_def)
    then show ?thesis
      using cleared_writes(2) [OF ok m(1-3), of i] bitmap_address_inj [OF
        heap_magazine_ok(1) [OF ok m'(1)] m'(2,3) heap_magazine_ok(1) [OF ok m(1)] m(2,3)]
      by (cases "m' = m \<and> s' = s \<and> b' = b") auto
  qed
  fix c
  have "c \<in> allocated (cleared m s b i st) \<longleftrightarrow> (\<exists>m' s' b' i'. c = continuation_address m' s' b' i' \<and>
      m' \<in> magazines (num_cpu st) (mapped st) \<and> s' < 7 \<and> b' < 64 \<and> i' < 64 \<and>
      bit (mem st (bitmap_address m' s' b')) i' \<and> \<not> (m' = m \<and> s' = s \<and> b' = b \<and> i' = i))"
    unfolding allocated_def f using bits by blast
  also have "\<dots> \<longleftrightarrow> c \<in> allocated st - {continuation_address m s b i}"
    using continuation_address_inj [OF heap_magazine_ok(1) [OF ok m(1)] m(2-4)
        heap_magazine_ok(1) [OF ok]]
    unfolding allocated_def by blast
  finally show "c \<in> allocated (cleared m s b i st) \<longleftrightarrow> c \<in> allocated st - {continuation_address m s b i}" .
qed

lemma free_cleared:
  assumes ok: "heaps_ok st" and m: "m \<in> magazines (num_cpu st) (mapped st)" "s < 7" "b < 64" "i < 64"
  shows "dispatch_alloc_continuation_free (continuation_address m s b i) st =
    (let w = mem st (bitmap_address m s b); st' = cleared m s b i st
     in if \<not> bit w i then Inl (Failed_to_clear_bit_exclusively w)
        else Inr (if w AND NOT (2 ^ i) = 0
                  then st'\<lparr>madvised := madvised st' @ [continuation_address m s b 0]\<rparr> else st'))"
proof -
  have m': "m \<in> magazines (num_cpu (cleared m s b i st)) (mapped (cleared m s b i st))"
    using m(1) by (simp add: cleared_def Let_def)
  let ?w = "mem st (bitmap_address m s b)"
  have clear: "bitmap_clear_bit (bitmap_address m s b) i True st =
      (if \<not> bit ?w i then Inl (Failed_to_clear_bit_exclusively ?w)
       else Inr (?w AND NOT (2 ^ i) = 0, store (bitmap_address m s b) (?w AND NOT (2 ^ i)) st))"
    by (simp add: bitmap_clear_bit_def bit_test Let_def)
  have super: "\<exists>e. bitmap_clear_bit (supermap_address m s) b False
      (store (bitmap_address m s b) (?w AND NOT (2 ^ i)) st) = Inr (e, cleared m s b i st)"
    by (simp add: bitmap_clear_bit_def cleared_def Let_def)
  have madvise: "dispatch_alloc_maybe_madvise_page (continuation_address m s b i) (cleared m s b i st) =
      (if ?w AND NOT (2 ^ i) = 0
       then (cleared m s b i st)\<lparr>madvised := madvised (cleared m s b i st) @ [continuation_address m s b 0]\<rparr>
       else cleared m s b i st)"
    using maybe_madvise_page_eq [OF cleared_writes(1) [OF ok m(1-3)] m' m(2-4)]
    by (simp only: cleared_writes(2) [OF ok m(1-3), of i])
  show ?thesis
    using super supermap_not_null [OF ok m(1), of s]
    by (auto simp: dispatch_alloc_continuation_free_def madvise clear Let_def
        maps_of_continuation [OF heap_magazine_ok(1) [OF ok m(1)] m(2-4)])
qed

definition frees :: "alloc_state \<Rightarrow> int \<Rightarrow> alloc_state \<Rightarrow> bool" where
  "frees st c st' =
    (heaps_ok st' \<and> allocated st' = allocated st - {c} \<and>
     (madvised st' = madvised st \<or>
      (\<exists>m \<in> magazines (num_cpu st') (mapped st'). \<exists>s < 7. \<exists>b < 64.
         madvised st' = madvised st @ [continuation_address m s b 0] \<and>
         (\<forall>i < 64. continuation_address m s b i \<notin> allocated st'))))"

lemma heaps_ok_madvised [simp]: "heaps_ok (st\<lparr>madvised := ps\<rparr>) = heaps_ok st"
proof -
  have chain: "heap_chain (st\<lparr>madvised := ps\<rparr>) p hs = heap_chain st p hs" for p hs
  proof -
    have "load_heap q (st\<lparr>madvised := ps\<rparr>) = load_heap q st" for q by (cases q) simp_all
    then show ?thesis by (intro heap_chain_cong) simp_all
  qed
  show ?thesis by (simp add: heaps_ok_def chain last_found_ok_def vm_promise_def)
qed

lemma allocated_madvised [simp]: "allocated (st\<lparr>madvised := ps\<rparr>) = allocated st"
  by (simp add: allocated_def)

theorem free_allocated:
  assumes ok: "heaps_ok st" and c: "c \<in> allocated st"
  obtains st' where "dispatch_alloc_continuation_free c st = Inr st'" "frees st c st'"
proof -
  obtain m s b i where m: "c = continuation_address m s b i"
    "m \<in> magazines (num_cpu st) (mapped st)" "s < 7" "b < 64" "i < 64"
    "bit (mem st (bitmap_address m s b)) i"
    using c by (rule allocatedE)
  let ?st' = "cleared m s b i st"
  note ok' = cleared_writes(1) [OF ok m(2-4), of i] and al = cleared_allocated [OF ok m(2-5)]
  have f: "num_cpu ?st' = num_cpu st" "mapped ?st' = mapped st" "madvised ?st' = madvised st"
    by (simp_all add: cleared_def store_def Let_def)
  have none: "continuation_address m s b j \<notin> allocated ?st'"
    if "mem st (bitmap_address m s b) AND NOT (2 ^ i) = 0" "j < 64" for j
    using continuation_allocated [OF ok' _ m(3,4) that(2), of m] m(2) that(1)
    by (simp add: f cleared_writes(2) [OF ok m(2-4)])
  let ?w = "mem st (bitmap_address m s b)"
  show ?thesis
  proof (rule that)
    show "dispatch_alloc_continuation_free c st = Inr (if ?w AND NOT (2 ^ i) = 0
      then ?st'\<lparr>madvised := madvised ?st' @ [continuation_address m s b 0]\<rparr> else ?st')"
      using free_cleared [OF ok m(2-5)] m(6) by (simp add: m(1) Let_def)
    show "frees st c (if ?w AND NOT (2 ^ i) = 0
      then ?st'\<lparr>madvised := madvised ?st' @ [continuation_address m s b 0]\<rparr> else ?st')"
    proof (cases "?w AND NOT (2 ^ i) = 0")
      case True
      have "frees st c (?st'\<lparr>madvised := madvised ?st' @ [continuation_address m s b 0]\<rparr>)"
        unfolding frees_def
        by (intro conjI disjI2 bexI [of _ m] exI [of _ s] exI [of _ b] allI impI)
          (use m ok' al none [OF True] f in simp_all)
      then show ?thesis using True by simp
    next
      case False
      then show ?thesis using ok' al f m(1) by (simp add: frees_def)
    qed
  qed
qed

section \<open>A first allocation\<close>

text \<open>A process of one processor, whose first heap will be mapped at 2 MB.\<close>

definition first_state :: alloc_state where
  "first_state = \<lparr>mem = (\<lambda>_. 0), main_heap = 0, num_cpu = 1, cpus = (\<lambda>_. 0), cpu_reads = 0,
    vm = [Vm_error KERN_NO_SPACE, Vm_region BYTES_PER_MAGAZINE], mapped = [], madvised = []\<rparr>"

lemma first_state_ok: "heaps_ok first_state"
  by (simp add: first_state_def heaps_ok_def last_found_ok_def vm_promise_def heap_ok_def
      magazine_aligned_def)

lemma first_state_alloc:
  "\<exists>st'. dispatch_alloc_continuation_alloc first_state
    = Some (Inr (continuation_address BYTES_PER_MAGAZINE 0 0 0, st'))"
proof -
  have b: "bitmap_set_first_unset_bit a st = (0, store a 1 st)" if "mem st a = 0" for a st
    using that by (simp add: bitmap_set_first_unset_bit_def bitmap_set_first_unset_bit_upto_index_def
        os_atomic_set_first_bit_def builtin_ffsl_def upt_rec [of 0] Let_def)
  have u: "[0..<64] = 0 # [Suc 0..<64]" "[0..<7] = 0 # [Suc 0..<7]" by (simp_all add: upt_rec [of 0])
  have f: "\<not> bitmap_is_full 0" by (simp add: bitmap_is_full_def BITMAP_ALL_ONES_def)
  show ?thesis
    apply (simp add: dispatch_alloc_continuation_alloc_def first_state_def
        dispatch_alloc_continuation_from_heap_slow_def)
    apply (subst alloc_from_heap_loop.simps)
    apply (simp add: dispatch_alloc_try_create_heap_def KERN_NO_SPACE_def Let_def
        dispatch_alloc_continuation_from_heap_def dispatch_cpu_number_def
        alloc_continuation_from_magazine_def u f b del: upt_conv_Cons upt_rec_numeral)
    apply (simp add: NO_BITS_WERE_UNSET_def continuation_address_def)
    done
qed

section \<open>Properties of the allocator\<close>

text \<open>
  C15. The allocator is a set of allocated continuations: allocating adds one that was not in
  it, freeing takes one out, and freeing one that is not in it is the crash for a corruption.
\<close>
theorem allocator_refines_set:
  assumes "heaps_ok st"
  shows "(\<forall>c st'. dispatch_alloc_continuation_alloc st = Some (Inr (c, st')) \<longrightarrow>
      heaps_ok st' \<and> c \<notin> allocated st \<and> allocated st' = insert c (allocated st)) \<and>
    (\<forall>c \<in> allocated st. \<exists>st'. dispatch_alloc_continuation_free c st = Inr st' \<and>
      heaps_ok st' \<and> allocated st' = allocated st - {c}) \<and>
    (\<forall>m \<in> magazines (num_cpu st) (mapped st). \<forall>s < 7. \<forall>b < 64. \<forall>i < 64.
      continuation_address m s b i \<notin> allocated st \<longrightarrow>
      dispatch_alloc_continuation_free (continuation_address m s b i) st
        = Inl (Failed_to_clear_bit_exclusively (mem st (bitmap_address m s b))))"
proof (intro conjI allI ballI impI)
  fix c st' assume "dispatch_alloc_continuation_alloc st = Some (Inr (c, st'))"
  then show "heaps_ok st'" "c \<notin> allocated st" "allocated st' = insert c (allocated st)"
    using alloc_outcome_alloc [OF assms] by (simp_all add: alloc_outcome_def allocates_def)
next
  fix c assume "c \<in> allocated st"
  then show "\<exists>st'. dispatch_alloc_continuation_free c st = Inr st' \<and> heaps_ok st' \<and>
      allocated st' = allocated st - {c}"
    by (rule free_allocated [OF assms]) (auto simp: frees_def)
next
  fix m s b i
  assume m: "m \<in> magazines (num_cpu st) (mapped st)" "s < 7" "b < 64" "i < 64"
    and "continuation_address m s b i \<notin> allocated st"
  then show "dispatch_alloc_continuation_free (continuation_address m s b i) st
      = Inl (Failed_to_clear_bit_exclusively (mem st (bitmap_address m s b)))"
    using free_cleared [OF assms m] continuation_allocated [OF assms m] by (simp add: Let_def)
qed

theorem allocator_refines_set_witness:
  "\<exists>st'. dispatch_alloc_continuation_alloc first_state
      = Some (Inr (continuation_address BYTES_PER_MAGAZINE 0 0 0, st')) \<and>
    heaps_ok st' \<and> allocated st' = insert (continuation_address BYTES_PER_MAGAZINE 0 0 0) (allocated first_state)"
proof -
  obtain st' where a: "dispatch_alloc_continuation_alloc first_state
      = Some (Inr (continuation_address BYTES_PER_MAGAZINE 0 0 0, st'))"
    using first_state_alloc by (rule exE)
  from allocator_refines_set [OF first_state_ok, THEN conjunct1, rule_format, OF a] a
  show ?thesis by (intro exI [of _ st']) simp
qed

text \<open>
  C1. Allocating a continuation terminates: however many heaps are full, the loop over them
  returns if the loop around \<open>mach_vm_map\<close> does.
\<close>

text \<open>
  C16. Allocating a continuation terminates: however many heaps are full, the loop over them
  returns if the loop around mach_vm_map does.
\<close>
theorem alloc_terminates:
  assumes "heaps_ok st" "mach_vm_map_loop (vm st) \<noteq> None"
  shows "\<exists>r. dispatch_alloc_continuation_alloc st = Some r"
  using alloc_outcome_alloc [OF assms(1)] assms(2)
  by (auto simp: alloc_outcome_def split: option.splits)

theorem alloc_terminates_witness:
  "mach_vm_map_loop (vm first_state) \<noteq> None \<and> (\<exists>r. dispatch_alloc_continuation_alloc first_state = Some r)"
  using alloc_terminates [OF first_state_ok] by (simp add: first_state_def)

lemma continuation_bounds:
  assumes "s < 7" "b < 64" "i < 64"
  shows "m + 4096 \<le> continuation_address m s b i"
    and "continuation_address m s b i + 64 \<le> m + 2097152"
proof -
  have k: "(s * 64 + b) * 64 + i < 28672" using bitmap_offset [OF assms(1,2)] assms(3) by simp
  have bound: "64 * int n + 64 \<le> 2097152 - 4096" if "n < 28672" for n using that by simp
  show "m + 4096 \<le> continuation_address m s b i" by (simp add: continuation_address_eq)
  show "continuation_address m s b i + 64 \<le> m + 2097152"
    using bound [OF k] unfolding continuation_address_eq by linarith
qed

lemma metadata_offset:
  assumes ok: "heaps_ok st" and "metadata_word st a"
  shows "a mod 2097152 < 4096"
proof -
  have bound: "128 + 8 * int n < 4096" if "n < 448" for n using that by simp
  have "bitmap_address m s b mod 2097152 < 4096"
    if "m \<in> magazines (num_cpu st) (mapped st)" "s < 7" "b < 64" for m s b
    using mod_bitmap_address [OF heap_magazine_ok(1) [OF ok that(1)] that(2,3)]
      bound [OF bitmap_offset [OF that(2,3)]] by (simp only:)
  moreover have "supermap_address m s mod 2097152 < 4096"
    if "m \<in> magazines (num_cpu st) (mapped st)" "s < 7" for m s
    using mod_supermap_address [OF heap_magazine_ok(1) [OF ok that(1)] that(2)] that(2) by simp
  moreover have "last_found_address h k mod 2097152 < 4096" if "h \<in> set (mapped st)" for h k
    using load_heap_field [OF ok that] by (simp add: mod_last_found_address magazine_aligned_def)
  ultimately show ?thesis
    using assms(2) unfolding metadata_word_def supermap_word_def last_found_word_def by metis
qed

lemma continuation_aligned: "magazine_aligned m \<Longrightarrow> 64 dvd continuation_address m s b i"
  unfolding continuation_address_eq
  using dvd_trans [of 64 2097152 m] by (simp add: magazine_aligned_def mod_eq_0_iff_dvd)

lemma dvd_apart: "d dvd x \<Longrightarrow> d dvd y \<Longrightarrow> x < y \<Longrightarrow> x + d \<le> y" for d x y :: int
  by (metis diff_add_cancel dvd_diff linorder_not_less zdvd_imp_le add.commute
      diff_gt_0_iff_gt add_le_cancel_right)

text \<open>
  C17. An allocated continuation is a padded continuation of a mapped magazine: aligned to its
  size, between the metadata and the end of the magazine, overlapping no other allocated
  continuation, no word of the bitmaps and no link word of a magazine.
\<close>
theorem allocated_memory_is_typed:
  assumes ok: "heaps_ok st" and c: "c \<in> allocated st"
  shows "c mod DISPATCH_CONTINUATION_SIZE = 0 \<and>
    (\<exists>m \<in> magazines (num_cpu st) (mapped st). magazine_for_continuation c = m \<and>
      m + offsetof_conts \<le> c \<and> c + DISPATCH_CONTINUATION_SIZE \<le> m + sizeof_magazine) \<and>
    (\<forall>c' \<in> allocated st. c' \<noteq> c \<longrightarrow>
      c + DISPATCH_CONTINUATION_SIZE \<le> c' \<or> c' + DISPATCH_CONTINUATION_SIZE \<le> c) \<and>
    (\<forall>a. metadata_word st a \<or> a \<in> magazines (num_cpu st) (mapped st) \<longrightarrow>
      a < c \<or> c + DISPATCH_CONTINUATION_SIZE \<le> a)"
proof -
  obtain m s b i where m: "c = continuation_address m s b i"
    "m \<in> magazines (num_cpu st) (mapped st)" "s < 7" "b < 64" "i < 64"
    using c by (rule allocatedE)
  note al = heap_magazine_ok(1) [OF ok m(2)] and bounds = continuation_bounds [OF m(3-5), of m]
  have div: "64 dvd c'" if "c' \<in> allocated st" for c'
    using that by (rule allocatedE) (simp add: continuation_aligned heap_magazine_ok(1) [OF ok])
  have "c + 64 \<le> c' \<or> c' + 64 \<le> c" if "c' \<in> allocated st" "c' \<noteq> c" for c'
    using dvd_apart [OF div [OF c] div [OF that(1)]] dvd_apart [OF div [OF that(1)] div [OF c]]
      that(2) by linarith
  moreover have "a < c \<or> c + 64 \<le> a" if "metadata_word st a \<or> a \<in> magazines (num_cpu st) (mapped st)" for a
  proof (rule ccontr)
    assume "\<not> (a < c \<or> c + 64 \<le> a)"
    then have k: "4096 \<le> a - m" "a - m < 2097152" using bounds m(1) by linarith+
    then have "a mod 2097152 = a - m" using aligned_mod [OF al, of "a - m"] by simp
    moreover have "a mod 2097152 < 4096"
      using that metadata_offset [OF ok] heap_magazine_ok(1) [OF ok] by (auto simp: magazine_aligned_def)
    ultimately show False using k(1) by simp
  qed
  ultimately show ?thesis
    using div [OF c] m(2) bounds magazine_of_continuation [OF al m(3-5)]
    by (simp add: m(1) [symmetric] mod_eq_0_iff_dvd)
qed

theorem allocated_memory_is_typed_witness:
  "\<exists>st. heaps_ok st \<and> continuation_address BYTES_PER_MAGAZINE 0 0 0 \<in> allocated st \<and>
    continuation_address BYTES_PER_MAGAZINE 0 0 0 mod DISPATCH_CONTINUATION_SIZE = 0"
proof -
  obtain st' where "dispatch_alloc_continuation_alloc first_state
      = Some (Inr (continuation_address BYTES_PER_MAGAZINE 0 0 0, st'))"
    using first_state_alloc by (rule exE)
  then have "allocates first_state (continuation_address BYTES_PER_MAGAZINE 0 0 0) st'"
    using alloc_outcome_alloc [OF first_state_ok] by (simp add: alloc_outcome_def)
  then have ok: "heaps_ok st'" "continuation_address BYTES_PER_MAGAZINE 0 0 0 \<in> allocated st'"
    by (auto simp: allocates_def)
  from allocated_memory_is_typed [OF this] ok show ?thesis by (intro exI [of _ st']) blast
qed

text \<open>
  C1. The address arithmetic is a round trip: from the indices of a continuation to its address
  and back, from a bit of a bitmap to its continuation and back, and the page of a continuation
  is the first continuation of its bitmap.
\<close>

theorem continuation_addresses_round_trip:
  assumes "magazine_aligned m" "s < SUPERMAPS_PER_MAGAZINE" "b < BITMAPS_PER_SUPERMAP"
    "i < CONTINUATIONS_PER_BITMAP"
  shows "(let c = continuation_address m s b i; (supermap, bi, bitmap, index) = get_maps_and_indices_for_continuation c
     in index = i \<and> bi = b \<and> bitmap = bitmap_address m s b \<and> supermap = supermap_address m s \<and>
        get_cont_and_indices_for_bitmap_and_index bitmap index = (c, supermap, b) \<and>
        first_bitmap_in_same_page bitmap = bitmap \<and> magazine_for_continuation c = m \<and>
        madvisable_page_base_for_continuation c = continuation_address m s b 0)"
proof -
  have l: "s < 7" "b < 64" "i < 64" using assms(2-4) by simp_all
  show ?thesis
    by (simp add: maps_of_continuation [OF assms(1) l] cont_of_bitmap [OF assms(1) l(1,2)]
        first_bitmap_in_same_page_eq [OF assms(1)] magazine_of_continuation [OF assms(1) l]
        page_base_of_continuation [OF assms(1) l])
qed

theorem continuation_addresses_round_trip_witness:
  "get_maps_and_indices_for_continuation (continuation_address 2097152 6 63 1)
    = (supermap_address 2097152 6, 63, bitmap_address 2097152 6 63, 1)"
  using continuation_addresses_round_trip [of 2097152 6 63 1]
  by (simp add: magazine_aligned_def Let_def split: prod.splits)

end
