(* ===== verification/Continuation_Cache.thy ===== *)
theory Continuation_Cache
  imports Dispatch_Prelude
begin

text \<open>
  The per-thread caches of continuations: \<open>_dispatch_continuation_alloc\<close> and
  \<open>_dispatch_continuation_free\<close> of \<open>src/inline_internal.h\<close>, and the trimming and emptying of a
  cache in \<open>src/queue.c\<close>. The heap behind them is an interface: the operations that take a
  continuation from it and give one back are arguments here, and what they promise is the
  locale \<open>continuation_supplier\<close>.
\<close>

section \<open>The caches\<close>

text \<open>
  The fields \<open>do_next\<close> and \<open>dc_cache_cnt\<close> of every continuation, the cache of every thread (the
  thread specific value under \<open>dispatch_cache_key\<close>: its first continuation, or 0), and the limit
  of a cache and whether memory is short.
\<close>

record 'h cache_state =
  heap :: 'h
  do_next :: "int \<Rightarrow> int"
  dc_cache_cnt :: "int \<Rightarrow> int"
  dispatch_cache :: "nat \<Rightarrow> int"
  cache_limit :: int
  memory_warn :: bool

type_synonym ('e, 'a) run = "('e + 'a) option"

definition continuation_alloc_cacheonly :: "nat \<Rightarrow> 'h cache_state \<Rightarrow> int \<times> 'h cache_state" where
  "continuation_alloc_cacheonly t s =
    (let dc = dispatch_cache s t
     in if dc \<noteq> 0 then (dc, s\<lparr>dispatch_cache := (dispatch_cache s)(t := do_next s dc)\<rparr>)
        else (dc, s))"

definition continuation_alloc ::
  "('h \<Rightarrow> ('e, int \<times> 'h) run) \<Rightarrow> nat \<Rightarrow> 'h cache_state \<Rightarrow> ('e, int \<times> 'h cache_state) run" where
  "continuation_alloc alloc_from_heap t s =
    (let (dc, s) = continuation_alloc_cacheonly t s
     in if dc = 0
        then (case alloc_from_heap (heap s) of
                None \<Rightarrow> None
              | Some (Inl e) \<Rightarrow> Some (Inl e)
              | Some (Inr (dc, h)) \<Rightarrow> Some (Inr (dc, s\<lparr>heap := h\<rparr>)))
        else Some (Inr (dc, s)))"

definition continuation_free_cacheonly :: "nat \<Rightarrow> int \<Rightarrow> 'h cache_state \<Rightarrow> int \<times> 'h cache_state" where
  "continuation_free_cacheonly t dc s =
    (let prev_dc = dispatch_cache s t;
         cnt = (if prev_dc \<noteq> 0 then dc_cache_cnt s prev_dc + 1 else 1)
     in if cnt > cache_limit s then (dc, s)
        else (0, s\<lparr>do_next := (do_next s)(dc := prev_dc),
                   dc_cache_cnt := (dc_cache_cnt s)(dc := cnt),
                   dispatch_cache := (dispatch_cache s)(t := dc)\<rparr>))"

text \<open>The loop that gives the excess of a cache back: \<open>cnt\<close> continuations, at least one.\<close>

fun free_excess ::
  "(int \<Rightarrow> 'h \<Rightarrow> 'e + 'h) \<Rightarrow> nat \<Rightarrow> nat \<Rightarrow> int \<Rightarrow> 'h cache_state \<Rightarrow> 'e + 'h cache_state" where
  "free_excess free_to_heap t 0 dc s = Inr s"
| "free_excess free_to_heap t (Suc cnt) dc s =
    (let next_dc = do_next s dc
     in case free_to_heap dc (heap s) of
          Inl e \<Rightarrow> Inl e
        | Inr h \<Rightarrow>
            let s = s\<lparr>heap := h\<rparr>
            in if cnt \<noteq> 0 \<and> next_dc \<noteq> 0 then free_excess free_to_heap t cnt next_dc s
               else Inr (s\<lparr>dispatch_cache := (dispatch_cache s)(t := next_dc)\<rparr>))"

definition continuation_free_to_cache_limit ::
  "(int \<Rightarrow> 'h \<Rightarrow> 'e + 'h) \<Rightarrow> nat \<Rightarrow> int \<Rightarrow> 'h cache_state \<Rightarrow> 'e + 'h cache_state" where
  "continuation_free_to_cache_limit free_to_heap t dc s =
    (case free_to_heap dc (heap s) of
       Inl e \<Rightarrow> Inl e
     | Inr h \<Rightarrow>
         let s = s\<lparr>heap := h\<rparr>; dc = dispatch_cache s t
         in if dc = 0 then Inr s
            else let cnt = dc_cache_cnt s dc - cache_limit s
                 in if cnt \<le> 0 then Inr s else free_excess free_to_heap t (nat cnt) dc s)"

definition continuation_free ::
  "(int \<Rightarrow> 'h \<Rightarrow> 'e + 'h) \<Rightarrow> nat \<Rightarrow> int \<Rightarrow> 'h cache_state \<Rightarrow> 'e + 'h cache_state" where
  "continuation_free free_to_heap t dc s =
    (let (dc, s) = continuation_free_cacheonly t dc s
     in if dc \<noteq> 0 then continuation_free_to_cache_limit free_to_heap t dc s else Inr s)"

text \<open>Emptying the cache of a thread that exits, or of one that is told to.\<close>

partial_function (option) cache_cleanup ::
  "(int \<Rightarrow> 'h \<Rightarrow> 'e + 'h) \<Rightarrow> int \<Rightarrow> 'h cache_state \<Rightarrow> ('e, 'h cache_state) run" where
  "cache_cleanup free_to_heap dc s =
    (if dc = 0 then Some (Inr s)
     else let next_dc = do_next s dc
          in case free_to_heap dc (heap s) of
               Inl e \<Rightarrow> Some (Inl e)
             | Inr h \<Rightarrow> cache_cleanup free_to_heap next_dc (s\<lparr>heap := h\<rparr>))"

definition force_cache_cleanup ::
  "(int \<Rightarrow> 'h \<Rightarrow> 'e + 'h) \<Rightarrow> nat \<Rightarrow> 'h cache_state \<Rightarrow> ('e, 'h cache_state) run" where
  "force_cache_cleanup free_to_heap t s =
    (let dc = dispatch_cache s t
     in if dc \<noteq> 0
        then cache_cleanup free_to_heap dc (s\<lparr>dispatch_cache := (dispatch_cache s)(t := 0)\<rparr>)
        else Some (Inr s))"

text \<open>
  The limit follows the memory pressure that the kernel reports (what the handler tells the
  vouchers and \<open>malloc\<close> is left out).
\<close>

definition DISPATCH_CONTINUATION_CACHE_LIMIT :: int where
  "DISPATCH_CONTINUATION_CACHE_LIMIT = 1024"

definition DISPATCH_CONTINUATION_CACHE_LIMIT_MEMORYPRESSURE_PRESSURE_WARN :: int where
  "DISPATCH_CONTINUATION_CACHE_LIMIT_MEMORYPRESSURE_PRESSURE_WARN = 128"

definition DISPATCH_MEMORYPRESSURE_NORMAL :: u64 where
  "DISPATCH_MEMORYPRESSURE_NORMAL = 0x01"

definition DISPATCH_MEMORYPRESSURE_WARN :: u64 where
  "DISPATCH_MEMORYPRESSURE_WARN = 0x02"

definition dispatch_memorypressure_handler :: "u64 \<Rightarrow> 'h cache_state \<Rightarrow> 'h cache_state" where
  "dispatch_memorypressure_handler memorypressure s =
    (let s = (if memorypressure AND DISPATCH_MEMORYPRESSURE_NORMAL \<noteq> 0
              then s\<lparr>memory_warn := False, cache_limit := DISPATCH_CONTINUATION_CACHE_LIMIT\<rparr> else s)
     in if memorypressure AND DISPATCH_MEMORYPRESSURE_WARN \<noteq> 0
        then s\<lparr>memory_warn := True, cache_limit := DISPATCH_CONTINUATION_CACHE_LIMIT_MEMORYPRESSURE_PRESSURE_WARN\<rparr>
        else s)"

section \<open>Well formed caches\<close>

text \<open>The list that starts at a continuation, and the counts on it: each holds the length from there on.\<close>

fun cache_list :: "('h, 'z) cache_state_scheme \<Rightarrow> int \<Rightarrow> int list \<Rightarrow> bool" where
  "cache_list s dc [] = (dc = 0)"
| "cache_list s dc (x # xs) =
    (dc = x \<and> x \<noteq> 0 \<and> dc_cache_cnt s x = int (length (x # xs)) \<and> cache_list s (do_next s x) xs)"

lemma cache_list_cong:
  assumes "\<And>x. x \<in> set xs \<Longrightarrow> do_next s' x = do_next s x \<and> dc_cache_cnt s' x = dc_cache_cnt s x"
  shows "cache_list s' dc xs = cache_list s dc xs"
  using assms by (induction xs arbitrary: dc) auto

lemma cache_list_unique: "cache_list s dc xs \<Longrightarrow> cache_list s dc ys \<Longrightarrow> xs = ys"
proof (induction xs arbitrary: dc ys)
  case Nil
  then show ?case by (cases ys) auto
next
  case (Cons x xs)
  then show ?case by (cases ys) auto
qed

lemma cache_list_count: "cache_list s dc xs \<Longrightarrow> dc \<noteq> 0 \<Longrightarrow> dc_cache_cnt s dc = int (length xs)"
  by (cases xs) auto

definition caches :: "'h cache_state \<Rightarrow> (nat \<Rightarrow> int list) \<Rightarrow> bool" where
  "caches s xs = ((\<forall>t. cache_list s (dispatch_cache s t) (xs t) \<and> distinct (xs t)) \<and>
    (\<forall>t u. t \<noteq> u \<longrightarrow> set (xs t) \<inter> set (xs u) = {}))"

definition cached :: "(nat \<Rightarrow> int list) \<Rightarrow> int set" where
  "cached xs = (\<Union>t. set (xs t))"

lemma cached_Un: "cached xs = set (xs t) \<union> (\<Union>u \<in> - {t}. set (xs u))"
  unfolding cached_def by blast

lemma cached_fun_upd: "cached (xs(t := ys)) = set ys \<union> (\<Union>u \<in> - {t}. set (xs u))"
  unfolding cached_Un [of "xs(t := ys)" t] by simp

lemma caches_others:
  assumes "caches s xs"
  shows "set (xs t) \<inter> (\<Union>u \<in> - {t}. set (xs u)) = {}"
  using assms by (fastforce simp: caches_def)

text \<open>Changing the cache of one thread, and the fields of continuations that no other cache holds.\<close>

lemma caches_update:
  assumes c: "caches s xs" and l: "cache_list s' (dispatch_cache s' t) ys" "distinct ys"
    and o: "\<And>u. u \<noteq> t \<Longrightarrow> dispatch_cache s' u = dispatch_cache s u"
    and f: "\<And>u x. u \<noteq> t \<Longrightarrow> x \<in> set (xs u) \<Longrightarrow>
      do_next s' x = do_next s x \<and> dc_cache_cnt s' x = dc_cache_cnt s x \<and> x \<notin> set ys"
  shows "caches s' (xs(t := ys))"
proof -
  have list: "cache_list s' (dispatch_cache s' u) (xs u)" if "u \<noteq> t" for u
    using cache_list_cong [of "xs u" s' s "dispatch_cache s' u"] f [OF that] o [OF that] c
    by (simp add: caches_def)
  have "set ys \<inter> set (xs u) = {}" if "u \<noteq> t" for u using f [OF that] by blast
  then show ?thesis using c l list by (simp add: caches_def) blast
qed

lemma caches_heap [simp]: "caches (s\<lparr>heap := h\<rparr>) xs = caches s xs"
proof -
  have "cache_list (s\<lparr>heap := h\<rparr>) dc ys = cache_list s dc ys" for dc ys
    by (rule cache_list_cong) simp
  then show ?thesis by (simp add: caches_def)
qed

text \<open>
  The caches hold continuations that the heap gave out; the others that it gave out are the
  clients'.
\<close>

definition cache_fine :: "('h \<Rightarrow> bool) \<Rightarrow> ('h \<Rightarrow> int set) \<Rightarrow> 'h cache_state \<Rightarrow> (nat \<Rightarrow> int list) \<Rightarrow> bool" where
  "cache_fine heap_fine given s xs =
    (heap_fine (heap s) \<and> caches s xs \<and> cached xs \<subseteq> given (heap s) \<and> 0 \<notin> given (heap s))"

definition in_use :: "('h \<Rightarrow> int set) \<Rightarrow> 'h cache_state \<Rightarrow> (nat \<Rightarrow> int list) \<Rightarrow> int set" where
  "in_use given s xs = given (heap s) - cached xs"

lemma cache_fineD:
  assumes "cache_fine heap_fine given s xs"
  shows "heap_fine (heap s)" "caches s xs" "cached xs \<subseteq> given (heap s)" "0 \<notin> given (heap s)"
    and "cache_list s (dispatch_cache s t) (xs t)" "distinct (xs t)" "set (xs t) \<subseteq> given (heap s)"
proof -
  have f: "heap_fine (heap s)" "caches s xs" "cached xs \<subseteq> given (heap s)" "0 \<notin> given (heap s)"
    using assms by (simp_all add: cache_fine_def)
  then show "heap_fine (heap s)" "caches s xs" "cached xs \<subseteq> given (heap s)" "0 \<notin> given (heap s)"
    by simp_all
  show "cache_list s (dispatch_cache s t) (xs t)" "distinct (xs t)"
    using f(2) by (simp_all add: caches_def)
  have "set (xs t) \<subseteq> cached xs" unfolding cached_def by blast
  with f(3) show "set (xs t) \<subseteq> given (heap s)" by simp
qed

definition with_cache :: "'h \<Rightarrow> nat \<Rightarrow> int \<Rightarrow> 'h cache_state \<Rightarrow> 'h cache_state" where
  "with_cache h t dc s = s\<lparr>heap := h, dispatch_cache := (dispatch_cache s)(t := dc)\<rparr>"

lemma with_cache_fields [simp]:
  "heap (with_cache h t dc s) = h" "dispatch_cache (with_cache h t dc s) = (dispatch_cache s)(t := dc)"
  "do_next (with_cache h t dc s) = do_next s" "dc_cache_cnt (with_cache h t dc s) = dc_cache_cnt s"
  "cache_limit (with_cache h t dc s) = cache_limit s"
  "with_cache h t dc (s\<lparr>heap := h'\<rparr>) = with_cache h t dc s"
  by (simp_all add: with_cache_def)

lemma cache_list_same [simp]:
  "cache_list (with_cache h t dc s) d ys = cache_list s d ys"
  "cache_list (s\<lparr>heap := h\<rparr>) d ys = cache_list s d ys"
  by (rule cache_list_cong; simp)+

section \<open>The heap behind the caches\<close>

text \<open>
  What the caches rely on: the heap gives out continuations that nobody has, and takes back
  those that it gave out.
\<close>

locale continuation_supplier =
  fixes alloc_from_heap :: "'h \<Rightarrow> ('e, int \<times> 'h) run"
    and free_to_heap :: "int \<Rightarrow> 'h \<Rightarrow> 'e + 'h"
    and given :: "'h \<Rightarrow> int set"
    and heap_fine :: "'h \<Rightarrow> bool"
  assumes alloc_gives: "heap_fine h \<Longrightarrow> alloc_from_heap h = Some (Inr (c, h')) \<Longrightarrow>
      heap_fine h' \<and> c \<noteq> 0 \<and> c \<notin> given h \<and> given h' = insert c (given h)"
    and free_takes: "heap_fine h \<Longrightarrow> c \<in> given h \<Longrightarrow>
      \<exists>h'. free_to_heap c h = Inr h' \<and> heap_fine h' \<and> given h' = given h - {c}"
begin

lemma alloc_correct:
  assumes ok: "cache_fine heap_fine given s xs" and r: "continuation_alloc alloc_from_heap t s = Some (Inr (c, s'))"
  shows "\<exists>ys. cache_fine heap_fine given s' ys \<and> c \<noteq> 0 \<and> c \<notin> in_use given s xs \<and>
    in_use given s' ys = insert c (in_use given s xs)"
proof (cases "xs t")
  case Nil
  then have "dispatch_cache s t = 0" using cache_fineD(5) [OF ok, of t] by simp
  then obtain h where h: "alloc_from_heap (heap s) = Some (Inr (c, h))" "s' = s\<lparr>heap := h\<rparr>"
    using r by (auto simp: continuation_alloc_def continuation_alloc_cacheonly_def
        split: option.splits sum.splits)
  note a = alloc_gives [OF cache_fineD(1) [OF ok] h(1)]
  have "cache_fine heap_fine given s' xs"
    using a cache_fineD(2-4) [OF ok] unfolding cache_fine_def h(2) by auto
  moreover have "in_use given s' xs = insert c (in_use given s xs)" "c \<notin> in_use given s xs"
    using a cache_fineD(3) [OF ok] unfolding in_use_def h(2) by auto
  ultimately show ?thesis using a by blast
next
  case (Cons x ys)
  have list: "cache_list s (dispatch_cache s t) (x # ys)" "distinct (x # ys)"
    using cache_fineD(5,6) [OF ok, of t] by (simp_all only: Cons)
  have s': "c = x" "s' = s\<lparr>dispatch_cache := (dispatch_cache s)(t := do_next s x)\<rparr>" "x \<noteq> 0"
    using r list(1) by (auto simp: continuation_alloc_def continuation_alloc_cacheonly_def)
  have cong: "cache_list s' dc zs = cache_list s dc zs" for dc zs
    unfolding s'(2) by (rule cache_list_cong) simp
  have dis: "set (xs t) \<inter> set (xs u) = {}" if "u \<noteq> t" for u
    using cache_fineD(2) [OF ok] that by (simp add: caches_def)
  have "caches s' (xs(t := ys))"
  proof (rule caches_update)
    show "caches s xs" using ok by (simp add: cache_fine_def)
    show "cache_list s' (dispatch_cache s' t) ys" "distinct ys" using list s' cong by simp_all
  qed (use dis Cons s'(2) in auto)
  moreover have "cached xs = insert x (cached (xs(t := ys)))" "x \<notin> cached (xs(t := ys))"
    using caches_others [OF cache_fineD(2) [OF ok], of t] list(2)
    unfolding cached_fun_upd cached_Un [of xs t] Cons by auto
  moreover have "heap s' = heap s" using s'(2) by simp
  moreover have "x \<in> given (heap s)" "heap_fine (heap s)" "cached xs \<subseteq> given (heap s)" "0 \<notin> given (heap s)"
    using cache_fineD [OF ok] cache_fineD(7) [OF ok, of t] Cons by simp_all
  ultimately have "cache_fine heap_fine given s' (xs(t := ys))"
    and "in_use given s' (xs(t := ys)) = insert x (in_use given s xs)" "x \<notin> in_use given s xs"
    unfolding cache_fine_def in_use_def by (simp_all del: fun_upd_apply) blast+
  then show ?thesis using s'(1,3) by (intro exI [of _ "xs(t := ys)"]) simp
qed

lemma free_excess_list:
  assumes "heap_fine (heap s)" "cache_list s dc ys" "distinct ys" "set ys \<subseteq> given (heap s)"
    and "0 < n" "n \<le> length ys"
  shows "\<exists>h dc'. free_excess free_to_heap t n dc s = Inr (with_cache h t dc' s) \<and>
    heap_fine h \<and> given h = given (heap s) - set (take n ys) \<and> cache_list s dc' (drop n ys)"
  using assms
proof (induction n arbitrary: s dc ys)
  case (Suc n)
  obtain x zs where ys: "ys = x # zs" using Suc.prems(6) by (cases ys) auto
  then have x: "dc = x" "x \<noteq> 0" "cache_list s (do_next s x) zs" "x \<in> given (heap s)"
    "x \<notin> set zs" "distinct zs" "set zs \<subseteq> given (heap s)" "n \<le> length zs"
    using Suc.prems by auto
  obtain h where h: "free_to_heap x (heap s) = Inr h" "heap_fine h" "given h = given (heap s) - {x}"
    using free_takes [OF Suc.prems(1) x(4)] by blast
  show ?case
  proof (cases "n \<noteq> 0 \<and> do_next s x \<noteq> 0")
    case True
    let ?s = "s\<lparr>heap := h\<rparr>"
    have hf: "heap_fine (heap ?s)" using h(2) by simp
    have sub: "set zs \<subseteq> given (heap ?s)" using x(5,7) h(3) by auto
    have "0 < n" "cache_list ?s (do_next s x) zs" using True x(3) by simp_all
    from Suc.IH [OF hf this(2) x(6) sub this(1) x(8)]
    obtain h' dc' where ih: "free_excess free_to_heap t n (do_next s x) ?s = Inr (with_cache h' t dc' s)"
      "heap_fine h'" "given h' = given h - set (take n zs)" "cache_list s dc' (drop n zs)"
      by auto
    have "free_excess free_to_heap t (Suc n) dc s = Inr (with_cache h' t dc' s)"
      using True ih(1) by (simp add: x(1) h(1) Let_def)
    moreover have "given h' = given (heap s) - set (take (Suc n) ys)"
      using ih(3) h(3) by (auto simp: ys)
    moreover have "cache_list s dc' (drop (Suc n) ys)" using ih(4) by (simp add: ys)
    ultimately show ?thesis using ih(2) by blast
  next
    case False
    then have "n = 0 \<or> zs = []" using x(3) by (cases zs) auto
    then have n: "n = 0" using x(8) by auto
    have "free_excess free_to_heap t (Suc n) dc s = Inr (with_cache h t (do_next s x) s)"
      using n h(1) by (simp add: x(1) with_cache_def Let_def)
    moreover have "given h = given (heap s) - set (take (Suc n) ys)" using h(3) n by (simp add: ys)
    moreover have "cache_list s (do_next s x) (drop (Suc n) ys)" using x(3) n by (simp add: ys)
    ultimately show ?thesis using h(2) by blast
  qed
qed simp

lemma cache_fine_trim:
  assumes ok: "cache_fine heap_fine given s xs" and l: "cache_list s dc (drop n (xs t))"
    and h: "heap_fine h" "given h = given (heap s) - set (take n (xs t))"
  shows "cache_fine heap_fine given (with_cache h t dc s) (xs(t := drop n (xs t)))"
    and "in_use given (with_cache h t dc s) (xs(t := drop n (xs t))) = in_use given s xs"
proof -
  have d: "distinct (xs t)" by (rule cache_fineD(6) [OF ok])
  have split: "set (xs t) = set (take n (xs t)) \<union> set (drop n (xs t))"
    "set (take n (xs t)) \<inter> set (drop n (xs t)) = {}"
    using d append_take_drop_id [of n "xs t"] set_append distinct_append by metis+
  have dis: "set (xs t) \<inter> (\<Union>u \<in> - {t}. set (xs u)) = {}"
    by (rule caches_others [OF cache_fineD(2) [OF ok]])
  have "caches (with_cache h t dc s) (xs(t := drop n (xs t)))"
  proof (rule caches_update [OF cache_fineD(2) [OF ok]])
    fix u x assume "u \<noteq> t" "x \<in> set (xs u)"
    then have "x \<notin> set (drop n (xs t))" using dis split(1) by blast
    then show "do_next (with_cache h t dc s) x = do_next s x \<and>
      dc_cache_cnt (with_cache h t dc s) x = dc_cache_cnt s x \<and> x \<notin> set (drop n (xs t))" by simp
  qed (use l d in simp_all)
  moreover have c: "cached (xs(t := drop n (xs t))) = cached xs - set (take n (xs t))"
    using dis split unfolding cached_fun_upd cached_Un [of xs t] by blast
  moreover have sub: "set (take n (xs t)) \<subseteq> cached xs"
    using split(1) unfolding cached_Un [of xs t] by blast
  ultimately show "cache_fine heap_fine given (with_cache h t dc s) (xs(t := drop n (xs t)))"
    using h cache_fineD(3,4) [OF ok] unfolding cache_fine_def with_cache_fields by blast
  show "in_use given (with_cache h t dc s) (xs(t := drop n (xs t))) = in_use given s xs"
    using c sub h(2) cache_fineD(3) [OF ok] unfolding in_use_def with_cache_fields by blast
qed

lemma cache_fine_freed:
  assumes ok: "cache_fine heap_fine given s xs" and c: "c \<in> in_use given s xs"
    and h: "heap_fine h" "given h = given (heap s) - {c}"
  shows "cache_fine heap_fine given (s\<lparr>heap := h\<rparr>) xs"
    and "in_use given (s\<lparr>heap := h\<rparr>) xs = in_use given s xs - {c}"
  using h cache_fineD(2-4) [OF ok] c unfolding cache_fine_def in_use_def by auto

lemma free_to_cache_limit_correct:
  assumes ok: "cache_fine heap_fine given s xs" and c: "c \<in> in_use given s xs" and l: "0 \<le> cache_limit s"
  shows "\<exists>s' ys. continuation_free_to_cache_limit free_to_heap t c s = Inr s' \<and>
    cache_fine heap_fine given s' ys \<and> in_use given s' ys = in_use given s xs - {c} \<and>
    cache_limit s' = cache_limit s \<and> int (length (ys t)) \<le> cache_limit s"
proof -
  have g: "c \<in> given (heap s)" using c by (simp add: in_use_def)
  obtain h where h: "free_to_heap c (heap s) = Inr h" "heap_fine h" "given h = given (heap s) - {c}"
    using free_takes [OF cache_fineD(1) [OF ok] g] by blast
  let ?s = "s\<lparr>heap := h\<rparr>" and ?dc = "dispatch_cache s t"
  note ok' = cache_fine_freed [OF ok c h(2,3)]
  have list: "cache_list ?s ?dc (xs t)" using cache_fineD(5) [OF ok'(1), of t] by simp
  show ?thesis
  proof (cases "int (length (xs t)) \<le> cache_limit s")
    case True
    then have "continuation_free_to_cache_limit free_to_heap t c s = Inr ?s"
      using cache_list_count [OF list] by (auto simp: continuation_free_to_cache_limit_def h(1) Let_def)
    then show ?thesis
      using True ok' by (intro exI [of _ ?s] exI [of _ xs]) simp
  next
    case False
    define n where "n = nat (int (length (xs t)) - cache_limit s)"
    have n: "0 < n" "n \<le> length (xs t)" "int (length (xs t)) - int n \<le> cache_limit s"
      using False l by (simp_all add: n_def)
    have ne: "?dc \<noteq> 0" using n(1,2) list by (cases "xs t") auto
    have sub: "set (xs t) \<subseteq> given (heap ?s)" by (rule cache_fineD(7) [OF ok'(1)])
    obtain h' dc' where f: "free_excess free_to_heap t n ?dc ?s = Inr (with_cache h' t dc' ?s)"
      "heap_fine h'" "given h' = given (heap ?s) - set (take n (xs t))" "cache_list ?s dc' (drop n (xs t))"
      using free_excess_list [OF cache_fineD(1) [OF ok'(1)] list cache_fineD(6) [OF ok] sub n(1,2)]
      by blast
    have "continuation_free_to_cache_limit free_to_heap t c s = Inr (with_cache h' t dc' ?s)"
      using cache_list_count [OF list ne] False ne f(1)
      by (simp add: continuation_free_to_cache_limit_def h(1) Let_def n_def)
    moreover note cache_fine_trim [OF ok'(1) f(4,2,3)]
    moreover have "int (length ((xs(t := drop n (xs t))) t)) \<le> cache_limit s"
      using n(2,3) by (simp add: of_nat_diff)
    ultimately show ?thesis
      using ok'(2) by (intro exI [of _ "with_cache h' t dc' ?s"] exI [of _ "xs(t := drop n (xs t))"])
        (simp only: with_cache_fields cache_state.simps simp_thms)
  qed
qed

lemma free_correct:
  assumes ok: "cache_fine heap_fine given s xs" and c: "c \<in> in_use given s xs" and l: "0 \<le> cache_limit s"
  shows "\<exists>s' ys. continuation_free free_to_heap t c s = Inr s' \<and>
    cache_fine heap_fine given s' ys \<and> in_use given s' ys = in_use given s xs - {c} \<and>
    cache_limit s' = cache_limit s \<and> int (length (ys t)) \<le> cache_limit s"
proof -
  have nz: "c \<noteq> 0" using c cache_fineD(4) [OF ok] by (auto simp: in_use_def)
  have fresh: "c \<notin> set (xs u)" for u using c by (auto simp: in_use_def cached_def)
  note list = cache_fineD(5,6) [OF ok, of t]
  let ?prev = "dispatch_cache s t"
  define cnt where "cnt = (if ?prev \<noteq> 0 then dc_cache_cnt s ?prev + 1 else 1)"
  have cnt: "cnt = int (length (xs t)) + 1"
    using list(1) unfolding cnt_def by (cases "xs t") auto
  show ?thesis
  proof (cases "cnt > cache_limit s")
    case True
    then have "continuation_free free_to_heap t c s = continuation_free_to_cache_limit free_to_heap t c s"
      using nz by (simp add: continuation_free_def continuation_free_cacheonly_def Let_def cnt_def [symmetric])
    then show ?thesis using free_to_cache_limit_correct [OF ok c l] by simp
  next
    case False
    let ?s = "s\<lparr>do_next := (do_next s)(c := ?prev), dc_cache_cnt := (dc_cache_cnt s)(c := cnt),
        dispatch_cache := (dispatch_cache s)(t := c)\<rparr>"
    have eq: "continuation_free free_to_heap t c s = Inr ?s"
      using False by (simp add: continuation_free_def continuation_free_cacheonly_def Let_def cnt_def)
    have "cache_list ?s ?prev (xs t) = cache_list s ?prev (xs t)"
    proof (rule cache_list_cong)
      fix x assume "x \<in> set (xs t)"
      then have "x \<noteq> c" using fresh by auto
      then show "do_next ?s x = do_next s x \<and> dc_cache_cnt ?s x = dc_cache_cnt s x" by simp
    qed
    then have l: "cache_list ?s (dispatch_cache ?s t) (c # xs t)"
      using nz cnt list(1) by simp
    have "caches ?s (xs(t := c # xs t))"
      using caches_others [OF cache_fineD(2) [OF ok], of t] fresh
      by (intro caches_update [OF cache_fineD(2) [OF ok] l]) (use list(2) fresh in auto)
    moreover have "cached (xs(t := c # xs t)) = insert c (cached xs)"
      unfolding cached_fun_upd cached_Un [of xs t] by simp
    ultimately have "cache_fine heap_fine given ?s (xs(t := c # xs t))"
      "in_use given ?s (xs(t := c # xs t)) = in_use given s xs - {c}"
      using c cache_fineD(1,3,4) [OF ok] unfolding cache_fine_def in_use_def by auto
    moreover have "int (length ((xs(t := c # xs t)) t)) \<le> cache_limit s" using False cnt by simp
    ultimately show ?thesis
      using eq by (intro exI [of _ ?s] exI [of _ "xs(t := c # xs t)"]) (simp del: fun_upd_apply add: fun_upd_same)
  qed
qed

text \<open>Emptying a cache ends, and gives everything in it back to the heap.\<close>

lemma cache_cleanup_list:
  assumes "heap_fine (heap s)" "cache_list s dc ys" "distinct ys" "set ys \<subseteq> given (heap s)"
  shows "\<exists>h. cache_cleanup free_to_heap dc s = Some (Inr (s\<lparr>heap := h\<rparr>)) \<and>
    heap_fine h \<and> given h = given (heap s) - set ys"
  using assms
proof (induction ys arbitrary: s dc)
  case Nil
  then show ?case
    by (intro exI [of _ "heap s"]) (simp add: cache_cleanup.simps [of free_to_heap 0])
next
  case (Cons x ys)
  obtain h where h: "free_to_heap x (heap s) = Inr h" "heap_fine h" "given h = given (heap s) - {x}"
    using free_takes [of "heap s" x] Cons.prems by auto
  let ?s = "s\<lparr>heap := h\<rparr>"
  have "heap_fine (heap ?s)" "cache_list ?s (do_next s x) ys" "distinct ys" "set ys \<subseteq> given (heap ?s)"
    using Cons.prems h by auto
  from Cons.IH [OF this] obtain h' where ih:
    "cache_cleanup free_to_heap (do_next s x) ?s = Some (Inr (s\<lparr>heap := h'\<rparr>))"
    "heap_fine h'" "given h' = given h - set ys" by auto
  have "cache_cleanup free_to_heap dc s = Some (Inr (s\<lparr>heap := h'\<rparr>))"
    using Cons.prems(2) h(1) ih(1) by (subst cache_cleanup.simps) (simp add: Let_def)
  then show ?case using ih(2,3) h(3) by (intro exI [of _ h']) auto
qed

lemma force_cleanup_correct:
  assumes ok: "cache_fine heap_fine given s xs"
  shows "\<exists>s'. force_cache_cleanup free_to_heap t s = Some (Inr s') \<and>
    cache_fine heap_fine given s' (xs(t := [])) \<and> in_use given s' (xs(t := [])) = in_use given s xs \<and>
    given (heap s') = given (heap s) - set (xs t)"
proof -
  let ?s = "s\<lparr>dispatch_cache := (dispatch_cache s)(t := 0)\<rparr>"
  note f = cache_fineD [OF ok]
  have "cache_list ?s (dispatch_cache s t) (xs t)"
    using f(5) [of t] cache_list_cong [of "xs t" ?s s] by simp
  then obtain h where h: "cache_cleanup free_to_heap (dispatch_cache s t) ?s = Some (Inr (?s\<lparr>heap := h\<rparr>))"
    "heap_fine h" "given h = given (heap s) - set (xs t)"
    using cache_cleanup_list [of ?s "dispatch_cache s t" "xs t"] f(1,6,7) by auto
  have "force_cache_cleanup free_to_heap t s = Some (Inr (with_cache h t 0 s))"
  proof (cases "dispatch_cache s t = 0")
    case True
    then have e: "(dispatch_cache s)(t := 0) = dispatch_cache s" by (simp add: fun_upd_idem)
    have "s = s\<lparr>heap := h\<rparr>"
      using h(1) True by (simp add: e cache_cleanup.simps [of free_to_heap 0])
    then have "with_cache h t 0 s = s" by (metis cache_list_same(2) e with_cache_def
        cache_state.surjective cache_state.update_convs(1,4))
    then show ?thesis using True by (simp add: force_cache_cleanup_def)
  next
    case False
    then show ?thesis using h(1) by (simp add: force_cache_cleanup_def with_cache_def)
  qed
  moreover have "cache_list s 0 (drop (length (xs t)) (xs t))" by simp
  note cache_fine_trim [OF ok this h(2)]
  ultimately show ?thesis using h(3) by (intro exI [of _ "with_cache h t 0 s"]) simp
qed

text \<open>A client may write to the continuations it has.\<close>

lemma cache_fine_scribble:
  assumes ok: "cache_fine heap_fine given s xs"
    and "\<And>x. x \<notin> in_use given s xs \<Longrightarrow> n' x = do_next s x \<and> c' x = dc_cache_cnt s x"
  shows "cache_fine heap_fine given (s\<lparr>do_next := n', dc_cache_cnt := c'\<rparr>) xs"
proof -
  let ?s = "s\<lparr>do_next := n', dc_cache_cnt := c'\<rparr>"
  have "cache_list ?s dc (xs t) = cache_list s dc (xs t)" for dc t
    by (rule cache_list_cong) (use assms(2) in \<open>auto simp: in_use_def cached_def\<close>)
  then show ?thesis using cache_fineD(1-4) [OF ok] by (simp add: cache_fine_def caches_def)
qed

end

end
