(* ===== verification/Continuation_Heap.thy ===== *)
theory Continuation_Heap
  imports Allocator_Heap Continuation_Cache
begin

text \<open>
  The heap behind the caches of continuations: the end of \<open>src/allocator.c\<close>, which chooses once
  between the allocator of this library and \<open>calloc\<close>. Both are suppliers of continuations, so
  that what is proved of the caches holds of the program.
\<close>

section \<open>The choice of the allocator\<close>

text \<open>
  \<open>calloc\<close> is asked with the set of the blocks in use, for the \<open>calloc_calls\<close>-th time; it answers
  with the address of a block, or with 0. \<open>engaged_nano\<close> is what \<open>malloc_engaged_nano\<close> answers,
  \<open>env_allocator\<close> the environment variable \<open>LIBDISPATCH_CONTINUATION_ALLOCATOR\<close>.
\<close>

record heap_state =
  dispatch_alloc :: alloc_state
  use_dispatch_alloc :: bool
  alloc_once :: bool
  engaged_nano :: bool
  env_allocator :: "string option"
  calloc :: "nat \<Rightarrow> int set \<Rightarrow> int"
  calloc_calls :: nat
  malloced :: "int set"

text \<open>The C function \<open>atoi\<close>.\<close>

fun atoi_digits :: "int \<Rightarrow> string \<Rightarrow> int" where
  "atoi_digits n [] = n"
| "atoi_digits n (c # cs) =
    (let d = of_char c - (48 :: int)
     in if 0 \<le> d \<and> d \<le> 9 then atoi_digits (10 * n + d) cs else n)"

definition atoi :: "string \<Rightarrow> int" where
  "atoi s =
    (case dropWhile (\<lambda>c. c = CHR '' '' \<or> (9 \<le> (of_char c :: int) \<and> (of_char c :: int) \<le> 13)) s of
       [] \<Rightarrow> 0
     | c # cs \<Rightarrow> if c = CHR ''-'' then - atoi_digits 0 cs
                 else if c = CHR ''+'' then atoi_digits 0 cs else atoi_digits 0 (c # cs))"

definition continuation_alloc_init :: "heap_state \<Rightarrow> heap_state" where
  "continuation_alloc_init h =
    (let use = \<not> engaged_nano h;
         use = (case env_allocator h of None \<Rightarrow> use | Some e \<Rightarrow> atoi e \<noteq> 0)
     in h\<lparr>use_dispatch_alloc := use\<rparr>)"

definition continuation_alloc_once :: "heap_state \<Rightarrow> heap_state" where
  "continuation_alloc_once h =
    (if alloc_once h then h else (continuation_alloc_init h)\<lparr>alloc_once := True\<rparr>)"

partial_function (option) malloc_continuation_alloc :: "heap_state \<Rightarrow> (int \<times> heap_state) option" where
  "malloc_continuation_alloc h =
    (let dc = calloc h (calloc_calls h) (malloced h); h = h\<lparr>calloc_calls := calloc_calls h + 1\<rparr>
     in if dc = 0 then malloc_continuation_alloc h
        else Some (dc, h\<lparr>malloced := insert dc (malloced h)\<rparr>))"

definition malloc_continuation_free :: "int \<Rightarrow> heap_state \<Rightarrow> heap_state" where
  "malloc_continuation_free c h = h\<lparr>malloced := malloced h - {c}\<rparr>"

definition continuation_alloc_from_heap :: "heap_state \<Rightarrow> (alloc_crash, int \<times> heap_state) run" where
  "continuation_alloc_from_heap h =
    (let h = continuation_alloc_once h
     in if use_dispatch_alloc h
        then (case dispatch_alloc_continuation_alloc (dispatch_alloc h) of
                None \<Rightarrow> None
              | Some (Inl e) \<Rightarrow> Some (Inl e)
              | Some (Inr (c, st)) \<Rightarrow> Some (Inr (c, h\<lparr>dispatch_alloc := st\<rparr>)))
        else map_option Inr (malloc_continuation_alloc h))"

definition continuation_free_to_heap :: "int \<Rightarrow> heap_state \<Rightarrow> alloc_crash + heap_state" where
  "continuation_free_to_heap c h =
    (if use_dispatch_alloc h
     then (case dispatch_alloc_continuation_free c (dispatch_alloc h) of
             Inl e \<Rightarrow> Inl e
           | Inr st \<Rightarrow> Inr (h\<lparr>dispatch_alloc := st\<rparr>))
     else Inr (malloc_continuation_free c h))"

section \<open>Both allocators supply continuations\<close>

definition heap_given :: "heap_state \<Rightarrow> int set" where
  "heap_given h = (if use_dispatch_alloc h then allocated (dispatch_alloc h) else malloced h)"

text \<open>\<open>calloc\<close> promises that a block it answers with is not in use.\<close>

definition heap_state_ok :: "heap_state \<Rightarrow> bool" where
  "heap_state_ok h =
    (heaps_ok (dispatch_alloc h) \<and> (\<forall>k L. calloc h k L \<noteq> 0 \<longrightarrow> calloc h k L \<notin> L) \<and>
     (\<not> alloc_once h \<longrightarrow> allocated (dispatch_alloc h) = {} \<and> malloced h = {}))"

interpretation dispatch_allocator: continuation_supplier
  dispatch_alloc_continuation_alloc dispatch_alloc_continuation_free allocated heaps_ok
proof
  show "heaps_ok h' \<and> c \<noteq> 0 \<and> c \<notin> allocated h \<and> allocated h' = insert c (allocated h)"
    if "heaps_ok h" "dispatch_alloc_continuation_alloc h = Some (Inr (c, h'))" for h c h'
    using alloc_outcome_alloc [OF that(1)] that(2) by (simp add: alloc_outcome_def allocates_def)
  show "\<exists>h'. dispatch_alloc_continuation_free c h = Inr h' \<and> heaps_ok h' \<and>
      allocated h' = allocated h - {c}"
    if "heaps_ok h" "c \<in> allocated h" for h c
    by (rule free_allocated [OF that]) (auto simp: frees_def)
qed

lemma alloc_once_ok:
  assumes "heap_state_ok h"
  shows "heap_state_ok (continuation_alloc_once h)"
    and "heap_given (continuation_alloc_once h) = heap_given h"
    and "alloc_once (continuation_alloc_once h)"
  using assms
  by (auto simp: heap_state_ok_def heap_given_def continuation_alloc_once_def
      continuation_alloc_init_def Let_def)

definition malloc_answer :: "heap_state \<Rightarrow> int \<times> heap_state \<Rightarrow> bool" where
  "malloc_answer h r =
    (\<exists>k. fst r = calloc h k (malloced h) \<and> fst r \<noteq> 0 \<and>
      snd r = h\<lparr>calloc_calls := k + 1, malloced := insert (fst r) (malloced h)\<rparr>)"

lemma malloc_alloc_result:
  assumes "malloc_continuation_alloc h = Some r"
  shows "malloc_answer h r"
proof (rule malloc_continuation_alloc.raw_induct [OF _ assms])
  fix f h r
  assume IH: "\<And>h r. f h = Some r \<Longrightarrow> malloc_answer h r"
    and step: "(let dc = calloc h (calloc_calls h) (malloced h); h = h\<lparr>calloc_calls := calloc_calls h + 1\<rparr>
      in if dc = 0 then f h else Some (dc, h\<lparr>malloced := insert dc (malloced h)\<rparr>)) = Some r"
  show "malloc_answer h r"
  proof (cases "calloc h (calloc_calls h) (malloced h) = 0")
    case True
    with step have "f (h\<lparr>calloc_calls := calloc_calls h + 1\<rparr>) = Some r" by (simp add: Let_def)
    from IH [OF this] show ?thesis by (simp add: malloc_answer_def)
  next
    case False
    with step show ?thesis
      by (auto simp: malloc_answer_def Let_def intro!: exI [of _ "calloc_calls h"])
  qed
qed

lemma malloc_alloc_given:
  assumes ok: "heap_state_ok h" "\<not> use_dispatch_alloc h" "alloc_once h"
    and r: "malloc_continuation_alloc h = Some (c, h')"
  shows "heap_state_ok h' \<and> c \<noteq> 0 \<and> c \<notin> heap_given h \<and> heap_given h' = insert c (heap_given h)"
  using malloc_alloc_result [OF r] ok
  by (auto simp: malloc_answer_def heap_state_ok_def heap_given_def)

interpretation continuation_heap: continuation_supplier
  continuation_alloc_from_heap continuation_free_to_heap heap_given heap_state_ok
proof
  show "heap_state_ok h' \<and> c \<noteq> 0 \<and> c \<notin> heap_given h \<and> heap_given h' = insert c (heap_given h)"
    if ok: "heap_state_ok h" and res: "continuation_alloc_from_heap h = Some (Inr (c, h'))" for h c h'
  proof -
    let ?h = "continuation_alloc_once h"
    note once = alloc_once_ok [OF ok]
    show ?thesis
    proof (cases "use_dispatch_alloc ?h")
      case True
      then obtain st where st: "dispatch_alloc_continuation_alloc (dispatch_alloc ?h) = Some (Inr (c, st))"
        "h' = ?h\<lparr>dispatch_alloc := st\<rparr>"
        using res by (auto simp: continuation_alloc_from_heap_def Let_def split: option.splits sum.splits)
      have "heaps_ok (dispatch_alloc ?h)" using once(1) by (simp add: heap_state_ok_def)
      from dispatch_allocator.alloc_gives [OF this st(1)] True once st(2)
      show ?thesis by (auto simp: heap_state_ok_def heap_given_def)
    next
      case False
      then have "malloc_continuation_alloc ?h = Some (c, h')"
        using res by (auto simp: continuation_alloc_from_heap_def Let_def)
      from malloc_alloc_given [OF once(1) False once(3) this] once(2) show ?thesis by simp
    qed
  qed
  show "\<exists>h'. continuation_free_to_heap c h = Inr h' \<and> heap_state_ok h' \<and> heap_given h' = heap_given h - {c}"
    if "heap_state_ok h" "c \<in> heap_given h" for h c
  proof (cases "use_dispatch_alloc h")
    case True
    then have c: "heaps_ok (dispatch_alloc h)" "c \<in> allocated (dispatch_alloc h)"
      using that by (simp_all add: heap_state_ok_def heap_given_def)
    from dispatch_allocator.free_takes [OF this] obtain st where
      "dispatch_alloc_continuation_free c (dispatch_alloc h) = Inr st" "heaps_ok st"
      "allocated st = allocated (dispatch_alloc h) - {c}" by blast
    then show ?thesis using True that(1)
      by (intro exI [of _ "h\<lparr>dispatch_alloc := st\<rparr>"])
        (auto simp: continuation_free_to_heap_def heap_state_ok_def heap_given_def)
  next
    case False
    then show ?thesis using that
      by (intro exI [of _ "malloc_continuation_free c h"])
        (auto simp: continuation_free_to_heap_def malloc_continuation_free_def heap_state_ok_def heap_given_def)
  qed
qed

section \<open>Properties of the continuations of a program\<close>

text \<open>The start of a program: no heap, empty caches, the limit of \<open>src/init.c\<close>.\<close>

definition first_heap_state :: heap_state where
  "first_heap_state = \<lparr>dispatch_alloc = first_state, use_dispatch_alloc = False, alloc_once = False,
    engaged_nano = True, env_allocator = Some ''1'', calloc = (\<lambda>_ _. 0), calloc_calls = 0, malloced = {}\<rparr>"

definition first_cache_state :: "heap_state cache_state" where
  "first_cache_state = \<lparr>heap = first_heap_state, do_next = (\<lambda>_. 0), dc_cache_cnt = (\<lambda>_. 0),
    dispatch_cache = (\<lambda>_. 0), cache_limit = DISPATCH_CONTINUATION_CACHE_LIMIT, memory_warn = False\<rparr>"

lemma first_cache_ok: "cache_fine heap_state_ok heap_given first_cache_state (\<lambda>_. [])"
  using first_state_ok
  by (simp add: cache_fine_def first_cache_state_def first_heap_state_def heap_state_ok_def
      heap_given_def caches_def cached_def allocated_def first_state_def magazines_def)

lemma first_cache_alloc:
  "\<exists>s'. continuation_alloc continuation_alloc_from_heap 0 first_cache_state
    = Some (Inr (continuation_address BYTES_PER_MAGAZINE 0 0 0, s'))"
proof -
  have one: "atoi ''1'' \<noteq> 0" by code_simp
  obtain st where "dispatch_alloc_continuation_alloc first_state
      = Some (Inr (continuation_address BYTES_PER_MAGAZINE 0 0 0, st))"
    using first_state_alloc by blast
  then show ?thesis
    using one by (simp add: continuation_alloc_def continuation_alloc_cacheonly_def first_cache_state_def
      first_heap_state_def continuation_alloc_from_heap_def continuation_alloc_once_def
      continuation_alloc_init_def Let_def)
qed

text \<open>
  C19. Through the caches of the threads, whatever the allocator, a continuation that a thread
  allocates is one that no client has, and one that a client frees lands in the cache of the
  thread, which does not exceed the limit, or in the heap.
\<close>
theorem continuations_are_exclusive:
  assumes "cache_fine heap_state_ok heap_given s xs" "0 \<le> cache_limit s"
  shows "(\<forall>c s'. continuation_alloc continuation_alloc_from_heap t s = Some (Inr (c, s')) \<longrightarrow>
      (\<exists>ys. cache_fine heap_state_ok heap_given s' ys \<and> c \<notin> in_use heap_given s xs \<and>
        in_use heap_given s' ys = insert c (in_use heap_given s xs))) \<and>
    (\<forall>c \<in> in_use heap_given s xs. \<exists>s' ys. continuation_free continuation_free_to_heap t c s = Inr s' \<and>
      cache_fine heap_state_ok heap_given s' ys \<and>
      in_use heap_given s' ys = in_use heap_given s xs - {c} \<and> int (length (ys t)) \<le> cache_limit s)"
  using continuation_heap.alloc_correct [OF assms(1)] continuation_heap.free_correct [OF assms(1) _ assms(2)]
  by blast

theorem continuations_are_exclusive_witness:
  "\<exists>s' ys. continuation_alloc continuation_alloc_from_heap 0 first_cache_state
      = Some (Inr (continuation_address BYTES_PER_MAGAZINE 0 0 0, s')) \<and>
    in_use heap_given s' ys = insert (continuation_address BYTES_PER_MAGAZINE 0 0 0)
      (in_use heap_given first_cache_state (\<lambda>_. []))"
proof -
  obtain s' where s': "continuation_alloc continuation_alloc_from_heap 0 first_cache_state
      = Some (Inr (continuation_address BYTES_PER_MAGAZINE 0 0 0, s'))"
    using first_cache_alloc by (rule exE)
  have l: "0 \<le> cache_limit first_cache_state"
    by (simp add: first_cache_state_def DISPATCH_CONTINUATION_CACHE_LIMIT_def)
  from continuations_are_exclusive [OF first_cache_ok l, THEN conjunct1, rule_format, OF s'] s'
  show ?thesis by blast
qed

text \<open>
  C20. Emptying the cache of a thread ends: the loop over its list gives every continuation in
  it back to the heap and nothing that a client has, and leaves the cache empty.
\<close>
theorem cache_cleanup_terminates:
  assumes "cache_fine heap_state_ok heap_given s xs"
  shows "\<exists>s'. force_cache_cleanup continuation_free_to_heap t s = Some (Inr s') \<and>
    cache_fine heap_state_ok heap_given s' (xs(t := [])) \<and>
    in_use heap_given s' (xs(t := [])) = in_use heap_given s xs \<and>
    heap_given (heap s') = heap_given (heap s) - set (xs t)"
  by (rule continuation_heap.force_cleanup_correct [OF assms])

definition one_cached :: "heap_state cache_state" where
  "one_cached = first_cache_state\<lparr>
    heap := first_heap_state\<lparr>alloc_once := True, malloced := {64}\<rparr>,
    dc_cache_cnt := (\<lambda>_. 1), dispatch_cache := (\<lambda>_. 0)(0 := 64)\<rparr>"

lemma one_cached_ok: "cache_fine heap_state_ok heap_given one_cached ((\<lambda>_. [])(0 := [64]))"
  using first_state_ok
  by (simp add: one_cached_def cache_fine_def first_cache_state_def first_heap_state_def heap_state_ok_def
      heap_given_def caches_def cached_fun_upd) auto

theorem cache_cleanup_terminates_witness:
  "\<exists>s'. force_cache_cleanup continuation_free_to_heap 0 one_cached = Some (Inr s') \<and>
    64 \<in> heap_given (heap one_cached) \<and> 64 \<notin> heap_given (heap s')"
  using cache_cleanup_terminates [OF one_cached_ok, of 0]
  by (auto simp: one_cached_def first_cache_state_def first_heap_state_def heap_given_def)

end
