(* ===== verification/Apply.thy ===== *)
theory Apply
  imports Queue_State Thread_Event Thread_Lists "HOL-Library.Multiset"
begin

text \<open>
  \<open>dispatch_apply\<close> (\<open>src/apply.c\<close>): the iterations are shared out among the calling thread and
  the threads that happen to run the continuations pushed for it, through the counters of a
  \<open>struct dispatch_apply_s\<close> that the last of them frees. Every access to the structure is a step
  of a thread, and the thread event at its end is the one of the theory on thread events.
\<close>

section \<open>The shared structure\<close>

text \<open>
  \<open>da_index\<close> and \<open>da_todo\<close> are \<open>size_t\<close> and \<open>da_thr_cnt\<close> is \<open>uint32_t\<close>: numbers here, with the
  wrap-around written out. \<open>calls\<close> are the iterations that the function was called for, and
  \<open>frees\<close> counts how often the structure was freed.
\<close>

record apply_s =
  da_index :: nat
  da_todo :: nat
  da_iterations :: nat
  da_event :: event_config
  da_thr_cnt :: nat
  calls :: "nat list"
  frees :: nat

definition SIZE_T_MOD :: nat where "SIZE_T_MOD = 2 ^ 64"
definition UINT32_T_MOD :: nat where "UINT32_T_MOD = 2 ^ 32"

text \<open>\<open>Enter\<close> to \<open>Todo\<close> are the loop over the iterations; only the caller gets to \<open>Wait\<close>.\<close>

datatype apply_pc =
    Enter
  | Load nat
  | Call nat nat
  | Again nat
  | Todo nat
  | Signal
  | Wait
  | Destroy
  | Leave
  | Free
  | Done

definition apply_inc_index :: "apply_s \<Rightarrow> nat \<times> apply_s" where
  "apply_inc_index st = (da_index st, st\<lparr>da_index := (da_index st + 1) mod SIZE_T_MOD\<rparr>)"

definition apply_out :: "bool \<Rightarrow> apply_pc" where
  "apply_out waits = (if waits then Wait else Leave)"

definition apply_enter :: "bool \<Rightarrow> apply_s \<Rightarrow> apply_s \<times> apply_pc" where
  "apply_enter waits st =
    (let (idx, st) = apply_inc_index st
     in (st, if \<not> idx < da_iterations st then apply_out waits else Load idx))"

definition apply_load :: "nat \<Rightarrow> apply_s \<Rightarrow> apply_s \<times> apply_pc" where
  "apply_load idx st = (st, Call idx 0)"

definition apply_call :: "nat \<Rightarrow> nat \<Rightarrow> apply_s \<Rightarrow> apply_s \<times> apply_pc" where
  "apply_call idx finished st = (st\<lparr>calls := calls st @ [idx]\<rparr>, Again (finished + 1))"

definition apply_again :: "nat \<Rightarrow> apply_s \<Rightarrow> apply_s \<times> apply_pc" where
  "apply_again finished st =
    (let (idx, st) = apply_inc_index st
     in (st, if idx < da_iterations st then Call idx finished else Todo finished))"

definition apply_todo :: "bool \<Rightarrow> nat \<Rightarrow> apply_s \<Rightarrow> apply_s \<times> apply_pc" where
  "apply_todo waits finished st =
    (let todo = (da_todo st + SIZE_T_MOD - finished) mod SIZE_T_MOD
     in (st\<lparr>da_todo := todo\<rparr>, if todo = 0 then Signal else apply_out waits))"

definition apply_leave :: "apply_s \<Rightarrow> apply_s \<times> apply_pc" where
  "apply_leave st =
    (let cnt = (da_thr_cnt st + UINT32_T_MOD - 1) mod UINT32_T_MOD
     in (st\<lparr>da_thr_cnt := cnt\<rparr>, if cnt = 0 then Free else Done))"

definition apply_free :: "apply_s \<Rightarrow> apply_s \<times> apply_pc" where
  "apply_free st = (st\<lparr>frees := frees st + 1\<rparr>, Done)"

text \<open>
  The steps of a thread; \<open>waits\<close> tells the caller from the others. Waiting for the event and
  signalling it are the steps of the two sides of the event.
\<close>

inductive apply_move :: "bool \<Rightarrow> apply_s \<Rightarrow> apply_pc \<Rightarrow> apply_s \<times> apply_pc \<Rightarrow> bool" where
  enter: "apply_move w st Enter (apply_enter w st)"
| load: "apply_move w st (Load idx) (apply_load idx st)"
| call: "apply_move w st (Call idx d) (apply_call idx d st)"
| again: "apply_move w st (Again d) (apply_again d st)"
| todo: "apply_move w st (Todo d) (apply_todo w d st)"
| signal: "event_step (da_event st) e \<Longrightarrow> ev_signal e \<noteq> ev_signal (da_event st) \<Longrightarrow>
    apply_move w st Signal (st\<lparr>da_event := e\<rparr>, if ev_signal e = SReturned then apply_out w else Signal)"
| wait: "event_step (da_event st) e \<Longrightarrow> ev_signal e = ev_signal (da_event st) \<Longrightarrow>
    apply_move w st Wait (st\<lparr>da_event := e\<rparr>, if ev_wait e = WReturned then Destroy else Wait)"
| destroy: "apply_move w st Destroy (st, Leave)"
| leave: "apply_move w st Leave (apply_leave st)"
| free: "apply_move w st Free (apply_free st)"

definition apply_start :: "nat \<Rightarrow> nat \<Rightarrow> apply_s" where
  "apply_start iterations threads =
    \<lparr>da_index = 0, da_todo = iterations, da_iterations = iterations, da_event = event_init,
     da_thr_cnt = threads, calls = [], frees = 0\<rparr>"

text \<open>Thread 0 is the caller.\<close>

inductive apply_run :: "nat \<Rightarrow> nat \<Rightarrow> apply_s \<Rightarrow> apply_pc list \<Rightarrow> bool" for iterations threads where
  start: "apply_run iterations threads (apply_start iterations threads) (replicate threads Enter)"
| step: "apply_run iterations threads st pcs \<Longrightarrow> t < length pcs \<Longrightarrow>
    apply_move (t = 0) st (pcs ! t) (st', pc) \<Longrightarrow> apply_run iterations threads st' (pcs[t := pc])"

section \<open>The invariant\<close>

fun past_loop :: "apply_pc \<Rightarrow> bool" where
  "past_loop Enter = False"
| "past_loop (Load idx) = False"
| "past_loop (Call idx d) = False"
| "past_loop (Again d) = False"
| "past_loop _ = True"

fun claims :: "apply_pc \<Rightarrow> nat multiset" where
  "claims (Load idx) = {#idx#}"
| "claims (Call idx d) = {#idx#}"
| "claims _ = {#}"

fun owes :: "apply_pc \<Rightarrow> nat" where
  "owes (Load idx) = 1"
| "owes (Call idx d) = d + 1"
| "owes (Again d) = d"
| "owes (Todo d) = d"
| "owes _ = 0"

fun attached :: "apply_pc \<Rightarrow> bool" where
  "attached Free = False"
| "attached Done = False"
| "attached _ = True"

fun has_waited :: "apply_pc \<Rightarrow> bool" where
  "has_waited Destroy = True"
| "has_waited Leave = True"
| "has_waited Free = True"
| "has_waited Done = True"
| "has_waited _ = False"

fun pc_fits :: "bool \<Rightarrow> apply_pc \<Rightarrow> bool" where
  "pc_fits w (Again d) = (0 < d)"
| "pc_fits w (Todo d) = (0 < d)"
| "pc_fits w Wait = w"
| "pc_fits w Destroy = w"
| "pc_fits w _ = True"

definition first_indices :: "nat \<Rightarrow> nat multiset" where
  "first_indices k = mset [0..<k]"

definition counts_inv :: "nat \<Rightarrow> apply_s \<Rightarrow> apply_pc list \<Rightarrow> bool" where
  "counts_inv n st pcs =
    (da_index st - n = at_pc past_loop pcs \<and>
     mset (calls st) + pc_sum claims pcs = first_indices (min (da_index st) n) \<and>
     da_todo st = pc_sum owes pcs + (n - da_index st) \<and> da_todo st \<le> n)"

definition signal_inv :: "apply_s \<Rightarrow> apply_pc list \<Rightarrow> bool" where
  "signal_inv st pcs =
    (at_pc (\<lambda>pc. pc = Signal) pcs = of_bool (da_todo st = 0 \<and> ev_signal (da_event st) \<noteq> SReturned) \<and>
     (da_todo st \<noteq> 0 \<longrightarrow> ev_signal (da_event st) = SStart) \<and> event_inv (da_event st))"

definition caller_inv :: "apply_s \<Rightarrow> apply_pc \<Rightarrow> bool" where
  "caller_inv st pc =
    (if has_waited pc then ev_wait (da_event st) = WReturned
     else if pc = Wait then ev_wait (da_event st) \<noteq> WReturned else ev_wait (da_event st) = WStart)"

definition free_inv :: "apply_s \<Rightarrow> apply_pc list \<Rightarrow> bool" where
  "free_inv st pcs =
    (da_thr_cnt st = at_pc attached pcs \<and>
     frees st + at_pc (\<lambda>pc. pc = Free) pcs = of_bool (da_thr_cnt st = 0))"

definition apply_inv :: "nat \<Rightarrow> nat \<Rightarrow> apply_s \<Rightarrow> apply_pc list \<Rightarrow> bool" where
  "apply_inv n m st pcs =
    (da_iterations st = n \<and> length pcs = m \<and>
     (\<forall>t < m. pc_fits (t = 0) (pcs ! t)) \<and>
     counts_inv n st pcs \<and> signal_inv st pcs \<and> caller_inv st (pcs ! 0) \<and> free_inv st pcs)"

section \<open>Every step keeps it\<close>

lemma wrap_sub: "d \<le> x \<Longrightarrow> x < m \<Longrightarrow> (x + m - d) mod m = x - d" for d m x :: nat
proof -
  assume d: "d \<le> x" "x < m"
  then have eq: "x + m - d = (x - d) + m" by simp
  have "x - d < m" using d by simp
  then show ?thesis unfolding eq by (simp only: mod_add_self2 mod_less)
qed

lemma pc_sum_owed: "t < length pcs \<Longrightarrow> owes (pcs ! t) \<le> pc_sum owes pcs"
  using pc_sum_update [of t pcs owes Leave] by simp

lemma index_step:
  assumes "counts_inv n st pcs" "t < length pcs" "\<not> past_loop (pcs ! t)" "n + length pcs < SIZE_T_MOD"
  shows "(da_index st + 1) mod SIZE_T_MOD = da_index st + 1"
proof -
  have "at_pc past_loop (pcs[t := Done]) = Suc (at_pc past_loop pcs)"
    using at_pc_moves(3) [OF assms(2) refl, of past_loop Done] assms(3) by simp
  then have "at_pc past_loop pcs < length pcs" using at_pc_le [of past_loop "pcs[t := Done]"] by simp
  moreover have "da_index st - n = at_pc past_loop pcs" using assms(1) by (simp add: counts_inv_def)
  ultimately have "da_index st + 1 < SIZE_T_MOD" using assms(4) by linarith
  then show ?thesis by (rule mod_less)
qed

lemma upt_claim:
  "i < n \<Longrightarrow> first_indices (min (i + 1) n) = first_indices (min i n) + {#i#}"
  "\<not> i < n \<Longrightarrow> first_indices (min (i + 1) n) = first_indices (min i n)"
  by (simp_all add: first_indices_def min_def)

lemma past_out [simp]: "past_loop (apply_out w)" "claims (apply_out w) = {#}" "owes (apply_out w) = 0"
  "attached (apply_out w)" "apply_out w \<noteq> Signal" "apply_out w \<noteq> Free"
  "apply_out False = Leave" "apply_out True = Wait" "pc_fits w (apply_out w)"
  by (cases w; simp add: apply_out_def)+

text \<open>What the thread that moves changes of the sums over the threads.\<close>

lemma counts_inv_update:
  assumes t: "t < length pcs" and c: "counts_inv n st pcs"
    and past: "da_index st' - n + of_bool (past_loop (pcs ! t)) = da_index st - n + of_bool (past_loop pc)"
    and claim: "mset (calls st') + claims pc + first_indices (min (da_index st) n)
      = mset (calls st) + claims (pcs ! t) + first_indices (min (da_index st') n)"
    and owe: "da_todo st' + owes (pcs ! t) + (n - da_index st) = da_todo st + owes pc + (n - da_index st')"
    and le: "da_todo st' \<le> n"
  shows "counts_inv n st' (pcs[t := pc])"
proof -
  note eqs = at_pc_update [OF t, of past_loop pc] pc_sum_update [OF t, of claims pc]
    pc_sum_update [OF t, of owes pc]
  have inv: "da_index st - n = at_pc past_loop pcs"
    "mset (calls st) + pc_sum claims pcs = first_indices (min (da_index st) n)"
    "da_todo st = pc_sum owes pcs + (n - da_index st)"
    using c by (simp_all add: counts_inv_def)
  have "da_index st' - n = at_pc past_loop (pcs[t := pc])"
    using eqs(1) past inv(1) by linarith
  moreover have "da_todo st' = pc_sum owes (pcs[t := pc]) + (n - da_index st')"
    using eqs(3) owe inv(3) by linarith
  moreover have "mset (calls st') + pc_sum claims (pcs[t := pc]) = first_indices (min (da_index st') n)"
  proof -
    have "(mset (calls st') + pc_sum claims (pcs[t := pc])) + (claims (pcs ! t) + first_indices (min (da_index st) n))
        = mset (calls st') + first_indices (min (da_index st) n) + (pc_sum claims (pcs[t := pc]) + claims (pcs ! t))"
      by (simp add: ac_simps)
    also have "\<dots> = (mset (calls st') + claims pc + first_indices (min (da_index st) n)) + pc_sum claims pcs"
      unfolding eqs(2) by (simp add: ac_simps)
    also have "\<dots> = (mset (calls st) + pc_sum claims pcs) + claims (pcs ! t) + first_indices (min (da_index st') n)"
      unfolding claim by (simp add: ac_simps)
    also have "\<dots> = first_indices (min (da_index st') n) + (claims (pcs ! t) + first_indices (min (da_index st) n))"
      unfolding inv(2) by (simp add: ac_simps)
    finally show ?thesis by simp
  qed
  ultimately show ?thesis using le by (simp add: counts_inv_def)
qed

lemma apply_move_counts:
  assumes inv: "apply_inv n m st pcs" and bound: "n + m < SIZE_T_MOD" and t: "t < length pcs"
    and mv: "apply_move (t = 0) st (pcs ! t) (st', pc)"
  shows "counts_inv n st' (pcs[t := pc]) \<and> da_iterations st' = n \<and> pc_fits (t = 0) pc"
proof -
  have c: "counts_inv n st pcs" and n: "da_iterations st = n" "length pcs = m"
    and fits: "pc_fits (t = 0) (pcs ! t)" and le: "da_todo st \<le> n"
    using inv t by (auto simp: apply_inv_def counts_inv_def)
  note index = index_step [OF c t] and claim = upt_claim [of "da_index st" n, unfolded Suc_eq_plus1 [symmetric]]
  have upd: "counts_inv n st' (pcs[t := pc])"
    if "da_index st' - n + of_bool (past_loop (pcs ! t)) = da_index st - n + of_bool (past_loop pc)"
      "mset (calls st') + claims pc + first_indices (min (da_index st) n)
        = mset (calls st) + claims (pcs ! t) + first_indices (min (da_index st') n)"
      "da_todo st' + owes (pcs ! t) + (n - da_index st) = da_todo st + owes pc + (n - da_index st')"
      "da_todo st' \<le> n"
    by (rule counts_inv_update [OF t c that])
  show ?thesis using mv
  proof (cases rule: apply_move.cases)
    case enter
    have i: "Suc (da_index st) mod SIZE_T_MOD = Suc (da_index st)" using index enter bound n by simp
    show ?thesis
      by (cases "da_index st < n"; intro conjI upd)
        (use enter n i claim le in \<open>simp_all add: apply_enter_def apply_inc_index_def ac_simps\<close>)
  next
    case (load idx)
    then show ?thesis using n le by (intro conjI upd) (simp_all add: apply_load_def)
  next
    case (call idx d)
    then show ?thesis using n le by (intro conjI upd) (simp_all add: apply_call_def)
  next
    case (again d)
    have i: "Suc (da_index st) mod SIZE_T_MOD = Suc (da_index st)" using index again bound n by simp
    show ?thesis
      by (cases "da_index st < n"; intro conjI upd)
        (use again n i claim le fits in \<open>simp_all add: apply_again_def apply_inc_index_def ac_simps\<close>)
  next
    case (todo d)
    have d: "d \<le> da_todo st" using pc_sum_owed [OF t] todo c by (simp add: counts_inv_def)
    have "da_todo st < SIZE_T_MOD" using le bound by linarith
    then have "(da_todo st + SIZE_T_MOD - d) mod SIZE_T_MOD = da_todo st - d"
      by (rule wrap_sub [OF d])
    then show ?thesis using todo n le d
      by (intro conjI upd) (simp_all add: apply_todo_def Let_def split: if_splits)
  next
    case (signal e)
    then show ?thesis using n le by (intro conjI upd) (simp_all split: if_splits)
  next
    case (wait e)
    then show ?thesis using n le fits by (intro conjI upd) (simp_all split: if_splits)
  next
    case destroy
    then show ?thesis using n le by (intro conjI upd) simp_all
  next
    case leave
    then show ?thesis using n le by (intro conjI upd) (simp_all add: apply_leave_def Let_def)
  next
    case free
    then show ?thesis using n le by (intro conjI upd) (simp_all add: apply_free_def)
  qed
qed

text \<open>The two sides of the event.\<close>

lemma event_signaller:
  assumes "event_step e e'" "ev_signal e' \<noteq> ev_signal e"
  shows "ev_signal e' \<noteq> SStart" "ev_signal e \<noteq> SReturned"
    "ev_wait e' = WReturned \<longleftrightarrow> ev_wait e = WReturned" "ev_wait e' = WStart \<longleftrightarrow> ev_wait e = WStart"
  using assms by (cases rule: event_step.cases; auto split: if_splits)+

lemma event_waiter:
  assumes "event_step e e'" "ev_signal e' = ev_signal e" "ev_wait e \<noteq> WReturned"
  shows "ev_wait e' \<noteq> WStart"
  using assms by (cases rule: event_step.cases) (auto split: if_splits event_round.splits)

lemma apply_move_signal:
  assumes inv: "apply_inv n m st pcs" and bound: "n + m < SIZE_T_MOD" and t: "t < length pcs"
    and mv: "apply_move (t = 0) st (pcs ! t) (st', pc)"
  shows "signal_inv st' (pcs[t := pc])"
proof -
  have c: "counts_inv n st pcs" and s: "signal_inv st pcs" and fits: "pc_fits (t = 0) (pcs ! t)"
    using inv t by (auto simp: apply_inv_def)
  note sig = at_pc_update [OF t, of "\<lambda>pc. pc = Signal" pc]
  have other: "signal_inv st' (pcs[t := pc])"
    if "pcs ! t \<noteq> Signal" "pc \<noteq> Signal" "da_todo st' = 0 \<longleftrightarrow> da_todo st = 0"
      "ev_signal (da_event st') = ev_signal (da_event st)" "event_inv (da_event st')"
    using s sig that by (simp add: signal_inv_def)
  have ev: "event_inv (da_event st)" using s by (simp add: signal_inv_def)
  show ?thesis using mv
  proof (cases rule: apply_move.cases)
    case (todo d)
    have d: "0 < d" "d \<le> da_todo st"
      using pc_sum_owed [OF t] todo c fits by (auto simp: counts_inv_def)
    have "da_todo st < SIZE_T_MOD" using c bound by (simp add: counts_inv_def)
    from wrap_sub [OF d(2) this]
    have st': "st' = st\<lparr>da_todo := da_todo st - d\<rparr>"
      "pc = (if da_todo st - d = 0 then Signal else apply_out (t = 0))"
      using todo(2) by (simp_all only: apply_todo_def Let_def prod.inject)
    have "at_pc (\<lambda>pc. pc = Signal) pcs = 0" "ev_signal (da_event st) = SStart"
      using s d by (simp_all add: signal_inv_def)
    then show ?thesis using sig todo(1) ev st'
      by (cases "da_todo st - d = 0") (simp_all add: signal_inv_def)
  next
    case (signal e)
    have "0 < at_pc (\<lambda>pc. pc = Signal) pcs"
      using signal(1) t at_pc_pos [of "\<lambda>pc. pc = Signal" pcs] by blast
    then have todo: "da_todo st = 0" "ev_signal (da_event st) \<noteq> SReturned"
      "at_pc (\<lambda>pc. pc = Signal) pcs = 1"
      using s by (auto simp: signal_inv_def)
    have "event_inv e" by (rule event_step_inv [OF signal(4) ev])
    then show ?thesis using sig signal(1-3) todo
      by (cases "ev_signal e = SReturned") (simp_all add: signal_inv_def)
  next
    case (wait e)
    have "event_inv e" by (rule event_step_inv [OF wait(4) ev])
    then show ?thesis using wait by (intro other) (simp_all split: if_splits)
  next
    case enter
    then show ?thesis using ev
      by (intro other) (simp_all add: apply_enter_def apply_inc_index_def split: if_splits)
  next
    case (again d)
    then show ?thesis using ev
      by (intro other) (simp_all add: apply_again_def apply_inc_index_def split: if_splits)
  next
    case leave
    then show ?thesis using ev by (intro other) (simp_all add: apply_leave_def Let_def split: if_splits)
  qed (use ev in \<open>intro other; simp add: apply_load_def apply_call_def apply_free_def\<close>)+
qed

lemma caller_inv_other:
  assumes "caller_inv st pc" "da_event st' = da_event st"
    and "has_waited pc' = has_waited pc" "pc' = Wait \<longrightarrow> pc = Wait \<or> \<not> has_waited pc" "pc \<noteq> Wait"
  shows "caller_inv st' pc'"
  using assms by (auto simp: caller_inv_def)

lemma apply_move_caller:
  assumes inv: "apply_inv n m st pcs" and t: "t < length pcs"
    and mv: "apply_move (t = 0) st (pcs ! t) (st', pc)"
  shows "caller_inv st' (pcs[t := pc] ! 0)"
proof (cases "t = 0")
  case False
  have c: "caller_inv st (pcs ! 0)" and fits: "pc_fits False (pcs ! t)"
    using inv t False by (auto simp: apply_inv_def)
  have "caller_inv st' (pcs ! 0)" using mv
  proof (cases rule: apply_move.cases)
    case (signal e)
    then show ?thesis using c event_signaller(3,4) [OF signal(4,5)] by (simp add: caller_inv_def)
  next
    case (todo d)
    then show ?thesis using c by (simp add: caller_inv_def apply_todo_def Let_def)
  qed (use c fits in \<open>simp_all add: caller_inv_def apply_enter_def apply_load_def apply_call_def
      apply_again_def apply_inc_index_def apply_leave_def apply_free_def Let_def\<close>)
  then show ?thesis using False by simp
next
  case True
  have c: "caller_inv st (pcs ! t)" using inv True by (simp add: apply_inv_def)
  have "caller_inv st' pc" using mv
  proof (cases rule: apply_move.cases)
    case (signal e)
    then show ?thesis using c event_signaller(3,4) [OF signal(4,5)] True
      by (simp add: caller_inv_def)
  next
    case (wait e)
    then show ?thesis using c event_waiter [OF wait(4,5)] by (simp add: caller_inv_def)
  next
    case (todo d)
    then show ?thesis using c True by (auto simp: caller_inv_def apply_todo_def Let_def)
  next
    case leave
    then show ?thesis using c by (auto simp: caller_inv_def apply_leave_def Let_def)
  qed (use c True in \<open>auto simp: caller_inv_def apply_enter_def apply_load_def apply_call_def
      apply_again_def apply_inc_index_def apply_free_def Let_def\<close>)
  then show ?thesis using True t by simp
qed

lemma apply_move_free:
  assumes inv: "apply_inv n m st pcs" and bound: "m < UINT32_T_MOD" and t: "t < length pcs"
    and mv: "apply_move (t = 0) st (pcs ! t) (st', pc)"
  shows "free_inv st' (pcs[t := pc])"
proof -
  have f: "free_inv st pcs" and m: "length pcs = m" using inv by (simp_all add: apply_inv_def)
  note att = at_pc_update [OF t, of attached pc] and fr = at_pc_update [OF t, of "\<lambda>pc. pc = Free" pc]
  have other: "free_inv st' (pcs[t := pc])"
    if "attached (pcs ! t)" "attached pc" "pcs ! t \<noteq> Free" "pc \<noteq> Free"
      "da_thr_cnt st' = da_thr_cnt st" "frees st' = frees st"
    using f att fr that by (simp add: free_inv_def)
  show ?thesis using mv
  proof (cases rule: apply_move.cases)
    case leave
    have pos: "0 < at_pc attached pcs" using leave(1) t at_pc_pos [of attached pcs] by force
    have cnt: "da_thr_cnt st = at_pc attached pcs" using f by (simp add: free_inv_def)
    have "1 \<le> da_thr_cnt st" "da_thr_cnt st < UINT32_T_MOD"
      using pos cnt at_pc_le [of attached pcs] m bound by linarith+
    from wrap_sub [OF this]
    have st': "st' = st\<lparr>da_thr_cnt := da_thr_cnt st - 1\<rparr>" "pc = (if da_thr_cnt st - 1 = 0 then Free else Done)"
      using leave(2) by (simp_all only: apply_leave_def Let_def prod.inject)
    have none: "frees st = 0" "at_pc (\<lambda>pc. pc = Free) pcs = 0"
      using f pos cnt by (simp_all add: free_inv_def)
    show ?thesis using att fr leave(1) pos cnt none st'
      by (cases "da_thr_cnt st - 1 = 0") (simp_all add: free_inv_def)
  next
    case free
    have "0 < at_pc (\<lambda>pc. pc = Free) pcs"
      using free(1) t at_pc_pos [of "\<lambda>pc. pc = Free" pcs] by blast
    then show ?thesis using f att fr free
      by (cases "da_thr_cnt st = 0") (simp_all add: apply_free_def free_inv_def)
  next
    case (todo d)
    then show ?thesis by (intro other) (simp_all add: apply_todo_def Let_def)
  qed (intro other; simp add: apply_enter_def apply_load_def apply_call_def apply_again_def
      apply_inc_index_def split: if_splits)+
qed

lemma apply_run_inv:
  assumes "apply_run n m st pcs" "n + m < SIZE_T_MOD" "m < UINT32_T_MOD" "0 < n" "0 < m"
  shows "apply_inv n m st pcs"
  using assms(1)
proof induction
  case start
  have "caller_inv (apply_start n m) Enter" "event_inv event_init" "ev_signal event_init = SStart"
    by (simp_all add: caller_inv_def apply_start_def event_init_def event_inv_def dispatch_thread_event_init_def)
  then show ?case using assms(4,5)
    by (simp add: apply_inv_def apply_start_def counts_inv_def signal_inv_def free_inv_def
        at_pc_replicate pc_sum_replicate first_indices_def) (simp add: at_pc_def)
next
  case (step st pcs t st' pc)
  note c = apply_move_counts [OF step.IH assms(2) step.hyps(2,3)]
  have "length pcs = m" "\<forall>t < m. pc_fits (t = 0) (pcs ! t)"
    using step.IH by (simp_all add: apply_inv_def)
  then show ?case
    using c step.hyps(2) apply_move_signal [OF step.IH assms(2) step.hyps(2,3)]
      apply_move_caller [OF step.IH step.hyps(2,3)] apply_move_free [OF step.IH assms(3) step.hyps(2,3)]
    by (auto simp: apply_inv_def nth_list_update)
qed

section \<open>Properties\<close>

fun uses_function :: "apply_pc \<Rightarrow> bool" where
  "uses_function (Load idx) = True"
| "uses_function (Call idx d) = True"
| "uses_function _ = False"

lemma pc_sum_zero_nat: "pc_sum f pcs = (0 :: nat) \<Longrightarrow> t < length pcs \<Longrightarrow> f (pcs ! t) = 0"
  unfolding pc_sum_def by (simp add: sum_list_eq_0_iff)

lemma caller_past_all_done:
  assumes inv: "apply_inv n m st pcs" and m: "0 < m" and w: "has_waited (pcs ! 0)"
  shows "mset (calls st) = mset [0..<n]" "\<And>t. t < m \<Longrightarrow> \<not> uses_function (pcs ! t)"
proof -
  have w': "ev_wait (da_event st) = WReturned" and ev: "event_inv (da_event st)"
    and c: "counts_inv n st pcs" and len: "length pcs = m"
    using inv w by (simp_all add: apply_inv_def caller_inv_def signal_inv_def)
  have "ev_signal (da_event st) \<noteq> SStart" using ev w' by (auto simp: event_inv_def)
  then have "da_todo st = 0" using inv by (auto simp: apply_inv_def signal_inv_def)
  then have z: "pc_sum owes pcs = 0" "n \<le> da_index st" using c by (simp_all add: counts_inv_def)
  have owes: "owes (pcs ! t) = 0" if "t < m" for t
    using pc_sum_zero_nat [OF z(1)] that len by simp
  then show "\<not> uses_function (pcs ! t)" if "t < m" for t
    using owes [OF that] by (cases "pcs ! t") simp_all
  have "claims pc = {#}" if pc: "pc \<in> set pcs" for pc
  proof -
    obtain t where "t < m" "pc = pcs ! t" using pc len by (auto simp: in_set_conv_nth)
    then have "owes pc = 0" using owes by simp
    then show ?thesis by (cases pc) simp_all
  qed
  then have "pc_sum claims pcs = {#}" by (rule pc_sum_zero)
  then show "mset (calls st) = mset [0..<n]"
    using c z(2) by (simp add: counts_inv_def first_indices_def min_def split: if_splits)
qed

lemma distinct_part:
  assumes "mset xs + M = mset [0..<k]"
  shows "distinct xs" "set xs \<subseteq> {..<k}"
proof -
  obtain ys where "mset ys = M" using ex_mset by blast
  then have eq: "mset (xs @ ys) = mset [0..<k]" using assms by simp
  then have "distinct (xs @ ys)" using mset_eq_imp_distinct_iff [OF eq] by simp
  then show "distinct xs" by simp
  have "set (xs @ ys) = set [0..<k]" by (rule mset_eq_setD [OF eq])
  then show "set xs \<subseteq> {..<k}" by auto
qed

text \<open>A run of two threads with one iteration: the caller does it, the other comes too late.\<close>

lemma apply_run_move:
  assumes "apply_run n m st pcs" "t < length pcs" "apply_move (t = 0) st (pcs ! t) r"
  shows "apply_run n m (fst r) (pcs[t := snd r])"
  by (rule apply_run.step [OF assms(1,2)]) (simp add: assms(3))

definition finished :: "nat \<Rightarrow> nat \<Rightarrow> nat \<Rightarrow> nat list \<Rightarrow> apply_s" where
  "finished i m f cs =
    \<lparr>da_index = i, da_todo = 0, da_iterations = 1,
     da_event = event_init\<lparr>ev_value := 0, ev_wait := WReturned, ev_signal := SReturned\<rparr>,
     da_thr_cnt = m, calls = cs, frees = f\<rparr>"

lemma finished_run: "apply_run 1 2 (finished 3 0 1 [0]) [Done, Done]"
proof -
  note ops = apply_enter_def apply_load_def apply_call_def apply_again_def apply_todo_def apply_leave_def
    apply_free_def apply_out_def
  have inc: "apply_inc_index st = (da_index st, st\<lparr>da_index := Suc (da_index st)\<rparr>)"
    if "da_index st < 3" for st
    using that by (simp add: apply_inc_index_def SIZE_T_MOD_def)
  have wrap: "Suc UINT32_T_MOD mod UINT32_T_MOD = Suc 0" "Suc (Suc UINT32_T_MOD) - Suc 0 = Suc UINT32_T_MOD"
    by (simp_all add: UINT32_T_MOD_def)
  let ?signalled = "event_init\<lparr>ev_value := 1, ev_signal := SReturned\<rparr>"
  let ?over = "event_init\<lparr>ev_value := 0, ev_wait := WReturned, ev_signal := SReturned\<rparr>"
  have ev: "event_step event_init ?signalled" "event_step ?signalled ?over"
    using event_step.signal [of event_init 1 False] event_step.wait [of ?signalled 0 True]
    by (simp_all add: event_init_def dispatch_thread_event_signal_def dispatch_thread_event_wait_def
        dispatch_thread_event_init_def)
  have f: "ev_signal event_init = SStart" by (simp add: event_init_def)
  let ?st = "\<lambda>i todo e c. \<lparr>da_index = i, da_todo = todo, da_iterations = 1, da_event = e,
    da_thr_cnt = 2, calls = c, frees = 0\<rparr>"
  have "apply_run 1 2 (?st 0 1 event_init []) [Enter, Enter]"
    using apply_run.start [of 1 2] by (simp add: apply_start_def numeral_2_eq_2)
  from apply_run_move [OF this, of 0, simplified, OF apply_move.enter]
  have "apply_run 1 2 (?st 1 1 event_init []) [Load 0, Enter]" by (simp add: ops inc wrap)
  from apply_run_move [OF this, of 0, simplified, OF apply_move.load]
  have "apply_run 1 2 (?st 1 1 event_init []) [Call 0 0, Enter]" by (simp add: ops inc wrap)
  from apply_run_move [OF this, of 0, simplified, OF apply_move.call]
  have "apply_run 1 2 (?st 1 1 event_init [0]) [Again 1, Enter]" by (simp add: ops inc wrap)
  from apply_run_move [OF this, of 0, simplified, OF apply_move.again]
  have "apply_run 1 2 (?st (Suc (Suc 0)) 1 event_init [0]) [Todo 1, Enter]" by (simp add: ops inc wrap)
  from apply_run_move [OF this, of 0, simplified, OF apply_move.todo]
  have "apply_run 1 2 (?st (Suc (Suc 0)) 0 event_init [0]) [Signal, Enter]" by (simp add: ops inc wrap)
  from apply_run_move [OF this, of 0, simplified, OF apply_move.signal [of _ ?signalled]]
  have "apply_run 1 2 (?st (Suc (Suc 0)) 0 ?signalled [0]) [Wait, Enter]" using ev(1) f by (simp add: ops inc wrap)
  from apply_run_move [OF this, of 0, simplified, OF apply_move.wait [of _ ?over]]
  have "apply_run 1 2 (?st (Suc (Suc 0)) 0 ?over [0]) [Destroy, Enter]" using ev(2) by simp
  from apply_run_move [OF this, of 0, simplified, OF apply_move.destroy]
  have "apply_run 1 2 (finished (Suc (Suc 0)) 2 0 [0]) [Leave, Enter]" by (simp add: finished_def)
  from apply_run_move [OF this, of 1, simplified, OF apply_move.enter]
  have "apply_run 1 2 (finished (Suc (Suc (Suc 0))) 2 0 [0]) [Leave, Leave]" by (simp add: ops inc wrap finished_def)
  from apply_run_move [OF this, of 0, simplified, OF apply_move.leave]
  have "apply_run 1 2 (finished (Suc (Suc (Suc 0))) 1 0 [0]) [Done, Leave]" by (simp add: ops inc wrap finished_def)
  from apply_run_move [OF this, of 1, simplified, OF apply_move.leave]
  have "apply_run 1 2 (finished (Suc (Suc (Suc 0))) 0 0 [0]) [Done, Free]" by (simp add: ops inc wrap finished_def)
  from apply_run_move [OF this, of 1, simplified, OF apply_move.free]
  show ?thesis by (simp add: ops finished_def numeral_3_eq_3)
qed

lemma small_bounds: "1 + 2 < SIZE_T_MOD" "2 < UINT32_T_MOD" "0 < (1 :: nat)" "0 < (2 :: nat)"
  by (simp_all add: SIZE_T_MOD_def UINT32_T_MOD_def)

text \<open>
  C21. However the threads interleave, an apply calls its function at most once for each index
  below the number of iterations, exactly once for each when the caller has waited, and nobody
  uses the function or the freed structure after that.
\<close>
theorem apply_calls_every_index_once:
  assumes "apply_run n m st pcs" "n + m < SIZE_T_MOD" "m < UINT32_T_MOD" "0 < n" "0 < m"
  shows "distinct (calls st) \<and> set (calls st) \<subseteq> {..<n} \<and>
    (has_waited (pcs ! 0) \<longrightarrow> set (calls st) = {..<n} \<and> (\<forall>t < m. \<not> uses_function (pcs ! t))) \<and>
    frees st \<le> 1 \<and> ((\<exists>t < m. pcs ! t \<noteq> Done) \<longrightarrow> frees st = 0)"
proof (intro conjI impI)
  have inv: "apply_inv n m st pcs" by (rule apply_run_inv [OF assms])
  have eq: "mset (calls st) + pc_sum claims pcs = mset [0..<min (da_index st) n]"
    using inv by (simp only: apply_inv_def counts_inv_def first_indices_def)
  show "distinct (calls st)" "set (calls st) \<subseteq> {..<n}"
    using distinct_part [OF eq] by auto
  show "set (calls st) = {..<n}" "\<forall>t < m. \<not> uses_function (pcs ! t)" if w: "has_waited (pcs ! 0)"
    using mset_eq_setD [OF caller_past_all_done(1) [OF inv assms(5) w]]
      caller_past_all_done(2) [OF inv assms(5) w] by auto
  have f: "frees st + at_pc (\<lambda>pc. pc = Free) pcs = of_bool (da_thr_cnt st = 0)"
    "da_thr_cnt st = at_pc attached pcs" and len: "length pcs = m"
    using inv by (simp_all add: apply_inv_def free_inv_def)
  show "frees st \<le> 1" using f(1) by (cases "da_thr_cnt st = 0") simp_all
  show "frees st = 0" if "\<exists>t < m. pcs ! t \<noteq> Done"
  proof -
    obtain t where t: "t < length pcs" "pcs ! t \<noteq> Done" using \<open>\<exists>t < m. pcs ! t \<noteq> Done\<close> len by blast
    show ?thesis
    proof (cases "pcs ! t = Free")
      case True
      then have "0 < at_pc (\<lambda>pc. pc = Free) pcs" using t(1) at_pc_pos [of "\<lambda>pc. pc = Free" pcs] by blast
      then show ?thesis using f(1) by (cases "da_thr_cnt st = 0") simp_all
    next
      case False
      then have "attached (pcs ! t)" using t(2) by (cases "pcs ! t") simp_all
      then have "0 < at_pc attached pcs" using t(1) at_pc_pos [of attached pcs] by blast
      then show ?thesis using f by simp
    qed
  qed
qed

theorem apply_calls_every_index_once_witness:
  "apply_run 1 2 (finished 3 0 1 [0]) [Done, Done] \<and> set (calls (finished 3 0 1 [0])) = {..<1}"
  using finished_run apply_calls_every_index_once [OF finished_run small_bounds] by simp

text \<open>
  C22. The caller of an apply is not asleep once the other threads are done, and when all are
  done the shared structure was freed exactly once.
\<close>
theorem apply_wakes_its_caller:
  assumes "apply_run n m st pcs" "n + m < SIZE_T_MOD" "m < UINT32_T_MOD" "0 < n" "0 < m"
  shows "((\<forall>t < m. 0 < t \<longrightarrow> pcs ! t = Done) \<and> pcs ! 0 = Wait \<longrightarrow> ev_wait (da_event st) \<noteq> WAsleep) \<and>
    ((\<forall>t < m. pcs ! t = Done) \<longrightarrow> frees st = 1 \<and> da_todo st = 0 \<and> ev_signal (da_event st) = SReturned)"
proof (intro conjI impI; (elim conjE)?)
  have inv: "apply_inv n m st pcs" by (rule apply_run_inv [OF assms])
  have len: "length pcs = m" and c: "counts_inv n st pcs" and s: "signal_inv st pcs" and f: "free_inv st pcs"
    using inv by (simp_all add: apply_inv_def)
  have over: "da_todo st = 0 \<and> ev_signal (da_event st) = SReturned"
    if rest: "\<And>t. t < m \<Longrightarrow> pcs ! t = Done \<or> pcs ! t = Wait"
  proof -
    have set: "pc = Done \<or> pc = Wait" if "pc \<in> set pcs" for pc
      using that rest len by (auto simp: in_set_conv_nth)
    have "owes pc = 0" if "pc \<in> set pcs" for pc using set [OF that] by auto
    then have "pc_sum owes pcs = 0" by (rule pc_sum_zero)
    moreover have "past_loop (pcs ! 0)" using rest [OF assms(5)] by auto
    then have "0 < at_pc past_loop pcs" using at_pc_pos [of past_loop pcs] assms(5) len by blast
    moreover have "da_index st - n = at_pc past_loop pcs" using c by (simp add: counts_inv_def)
    ultimately have "pc_sum owes pcs = 0" "n - da_index st = 0" by simp_all
    then have todo: "da_todo st = 0" using c by (simp add: counts_inv_def)
    have "at_pc (\<lambda>pc. pc = Signal) pcs = 0"
      by (rule at_pc_none) (use rest len in fastforce)
    then show ?thesis using s todo by (simp add: signal_inv_def)
  qed
  show "ev_wait (da_event st) \<noteq> WAsleep"
    if "\<forall>t < m. 0 < t \<longrightarrow> pcs ! t = Done" "pcs ! 0 = Wait"
  proof -
    have "ev_signal (da_event st) = SReturned"
      using over that by (metis not_gr_zero)
    then show ?thesis using s by (auto simp: signal_inv_def event_inv_def)
  qed
  show "frees st = 1" "da_todo st = 0" "ev_signal (da_event st) = SReturned"
    if all: "\<forall>t < m. pcs ! t = Done"
  proof -
    show "da_todo st = 0" "ev_signal (da_event st) = SReturned" using over all by blast+
    have "at_pc attached pcs = 0" "at_pc (\<lambda>pc. pc = Free) pcs = 0"
      using all len by (auto intro!: at_pc_none)
    then show "frees st = 1" using f by (simp add: free_inv_def)
  qed
qed

theorem apply_wakes_its_caller_witness:
  "frees (finished 3 0 1 [0]) = 1 \<and> ev_signal (da_event (finished 3 0 1 [0])) = SReturned"
proof -
  have "\<forall>t < 2. [Done, Done] ! t = Done" by (auto simp: less_2_cases_iff)
  then show ?thesis
    using apply_wakes_its_caller [OF finished_run small_bounds] by blast
qed

section \<open>Sharing out the threads and the width\<close>

definition DISPATCH_APPLY_MAX :: u64 where "DISPATCH_APPLY_MAX = 0xffff"

text \<open>
  The number of threads and the nesting of an apply: \<open>nesting\<close> is that of the apply that this one
  is called from, or 0.
\<close>

definition apply_thread_count :: "u64 \<Rightarrow> u32 \<Rightarrow> u64 \<Rightarrow> u32 \<times> u64" where
  "apply_thread_count iterations active_cpus nesting =
    (let thr_cnt = active_cpus;
         (thr_cnt, nested) =
           (if nesting = 0 then (thr_cnt, iterations)
            else (if nesting < ucast thr_cnt then ucast (ucast thr_cnt div nesting) else 1,
                  if nesting < DISPATCH_APPLY_MAX \<and> iterations < DISPATCH_APPLY_MAX
                  then nesting * iterations else DISPATCH_APPLY_MAX));
         thr_cnt = (if iterations < ucast thr_cnt then ucast iterations else thr_cnt)
     in (thr_cnt, nested))"

text \<open>How \<open>dispatch_apply_f\<close> goes on.\<close>

datatype apply_mode = Apply_nothing | Apply_serial | Apply_redirect | Apply_parallel

definition dispatch_apply_f :: "u64 \<Rightarrow> u32 \<Rightarrow> u16 \<Rightarrow> bool \<Rightarrow> bool \<Rightarrow> apply_mode" where
  "dispatch_apply_f iterations thr_cnt dq_width has_target is_current =
    (if iterations = 0 then Apply_nothing
     else if dq_width = 1 \<or> thr_cnt \<le> 1 then Apply_serial
     else if has_target then (if is_current then Apply_serial else Apply_redirect)
     else Apply_parallel)"

text \<open>The serial loop: the indices it calls the function for, from \<open>idx\<close> on.\<close>

function apply_serial :: "nat \<Rightarrow> nat \<Rightarrow> nat list" where
  "apply_serial idx iter = idx # (if idx + 1 < iter then apply_serial (idx + 1) iter else [])"
  by pat_completeness auto
termination by (relation "measure (\<lambda>(idx, iter). iter - idx)") auto

declare apply_serial.simps [simp del]



lemma apply_serial_calls: "idx < iter \<Longrightarrow> apply_serial idx iter = [idx..<iter]"
proof (induction idx iter rule: apply_serial.induct)
  case (1 idx iter)
  then show ?case
    using upt_conv_Cons [of idx iter] by (subst apply_serial.simps) (simp split: if_splits)
qed










lemma unat_ucast_down: "unat w < 2 ^ 32 \<Longrightarrow> unat (ucast (w :: u64) :: u32) = unat w"
  by (simp add: unsigned_ucast_eq take_bit_nat_eq_self)

definition apply_share :: "u32 \<Rightarrow> u64 \<Rightarrow> u32" where
  "apply_share thr_cnt nesting =
    (if nesting = 0 then thr_cnt
     else if nesting < ucast thr_cnt then ucast (ucast thr_cnt div nesting) else 1)"

lemma u32_less: "unat (x :: u32) < 2 ^ 32"
  using unsigned_less [of x, where ?'a = nat] by (simp del: unsigned_less)

lemma apply_share_bounds:
  assumes "thr_cnt \<noteq> 0"
  shows "1 \<le> unat (apply_share thr_cnt nesting)" "unat (apply_share thr_cnt nesting) \<le> unat thr_cnt"
    "unat (apply_share thr_cnt nesting) = 1 \<or> unat (apply_share thr_cnt nesting) * unat nesting \<le> unat thr_cnt"
proof -
  have pos: "1 \<le> unat thr_cnt" using assms by (simp add: unat_gt_0 Suc_le_eq)
  have div: "unat (apply_share thr_cnt nesting) = unat thr_cnt div unat nesting \<and>
      1 \<le> unat thr_cnt div unat nesting"
    if "nesting \<noteq> 0" "nesting < ucast thr_cnt"
  proof -
    have n: "0 < unat nesting" "unat nesting \<le> unat thr_cnt"
      using that by (simp_all add: unat_gt_0 word_less_nat_alt)
    have "unat thr_cnt div unat nesting < 2 ^ 32"
      by (rule le_less_trans [OF div_le_dividend u32_less])
    then have "unat (ucast (ucast thr_cnt div nesting :: u64) :: u32) = unat thr_cnt div unat nesting"
      by (simp add: unat_ucast_down unat_div)
    moreover have "1 \<le> unat thr_cnt div unat nesting"
      using n by (simp add: Suc_le_eq div_greater_zero_iff)
    ultimately show ?thesis using that by (simp add: apply_share_def)
  qed
  show "1 \<le> unat (apply_share thr_cnt nesting)"
    using div pos by (cases "nesting = 0"; cases "nesting < ucast thr_cnt") (auto simp: apply_share_def)
  show "unat (apply_share thr_cnt nesting) \<le> unat thr_cnt"
    using div pos by (cases "nesting = 0"; cases "nesting < ucast thr_cnt") (auto simp: apply_share_def)
  show "unat (apply_share thr_cnt nesting) = 1 \<or> unat (apply_share thr_cnt nesting) * unat nesting \<le> unat thr_cnt"
    using div by (cases "nesting = 0"; cases "nesting < ucast thr_cnt") (auto simp: apply_share_def)
qed

text \<open>
  C24. An apply uses at least one thread, no more than there are processors or iterations, for a
  nested one only its share of the processors, and the nesting does not wrap around.
\<close>
theorem apply_thread_count_bounds:
  assumes "apply_thread_count iterations active_cpus nesting = (thr_cnt, nested)"
    and "iterations \<noteq> 0" "active_cpus \<noteq> 0"
  shows "1 \<le> unat thr_cnt \<and> unat thr_cnt \<le> unat active_cpus \<and> unat thr_cnt \<le> unat iterations \<and>
    (unat thr_cnt = 1 \<or> unat thr_cnt * unat nesting \<le> unat active_cpus) \<and>
    unat nested = (if nesting = 0 then unat iterations
      else if unat nesting < 0xffff \<and> unat iterations < 0xffff then unat nesting * unat iterations
      else 0xffff)"
proof -
  let ?share = "apply_share active_cpus nesting"
  have eq: "thr_cnt = (if iterations < ucast ?share then ucast iterations else ?share)"
    "nested = (if nesting = 0 then iterations
      else if nesting < DISPATCH_APPLY_MAX \<and> iterations < DISPATCH_APPLY_MAX then nesting * iterations
      else DISPATCH_APPLY_MAX)"
    using assms(1) by (auto simp: apply_thread_count_def apply_share_def Let_def split: if_splits)
  note share = apply_share_bounds [OF assms(3), of nesting]
  have pos: "1 \<le> unat iterations" using assms(2) by (simp add: unat_gt_0 Suc_le_eq)
  have thr: "unat thr_cnt = min (unat iterations) (unat ?share)"
  proof (cases "iterations < ucast ?share")
    case True
    then have lt: "unat iterations < unat ?share" by (simp add: word_less_nat_alt)
    then have "unat iterations < 2 ^ 32" by (rule less_trans [OF _ u32_less])
    then show ?thesis using True lt by (simp add: eq(1) unat_ucast_down)
  next
    case False
    then have "unat ?share \<le> unat iterations" by (simp add: word_less_nat_alt)
    then show ?thesis using False by (simp add: eq(1))
  qed
  have "unat thr_cnt = 1 \<or> unat thr_cnt * unat nesting \<le> unat active_cpus"
  proof (cases "unat ?share = 1")
    case False
    then have "unat ?share * unat nesting \<le> unat active_cpus" using share(3) by simp
    moreover have "unat thr_cnt * unat nesting \<le> unat ?share * unat nesting" by (simp add: thr)
    ultimately show ?thesis by linarith
  qed (use thr pos in simp)
  moreover have "unat nested = (if nesting = 0 then unat iterations
      else if unat nesting < 0xffff \<and> unat iterations < 0xffff then unat nesting * unat iterations
      else 0xffff)"
  proof (cases "unat nesting < 0xffff \<and> unat iterations < 0xffff")
    case True
    then have "unat nesting * unat iterations < 0xffff * 0xffff" by (intro mult_strict_mono') auto
    then have "unat (nesting * iterations) = unat nesting * unat iterations"
      by (simp add: unat_word_ariths)
    then show ?thesis using True by (simp add: eq(2) DISPATCH_APPLY_MAX_def word_less_nat_alt)
  next
    case False
    then show ?thesis by (auto simp: eq(2) DISPATCH_APPLY_MAX_def word_less_nat_alt)
  qed
  ultimately show ?thesis using share(1,2) pos by (simp add: thr)
qed

theorem apply_thread_count_bounds_witness:
  "apply_thread_count 100 8 3 = (2, 300) \<and> unat (2 :: u32) * unat (3 :: u64) \<le> unat (8 :: u32)"
proof -
  have eq: "apply_thread_count 100 8 3 = (2, 300)"
    by (simp add: apply_thread_count_def DISPATCH_APPLY_MAX_def)
  from apply_thread_count_bounds [OF this] eq show ?thesis by simp
qed

end
