(* ===== verification/Spec2Isabelle.thy ===== *)
theory Spec2Isabelle
  imports Queue_Concurrency Unfair_Lock Dispatch_Once Thread_Event Transform_UTF Group Queue_Suspend Dispatch_Object
    Allocator_Page Continuation_Heap Apply
begin

text \<open>
  A verification development for Grand Central Dispatch, the C library whose sources are kept in
  \<open>src/libdispatch_sourceCode\<close>; file names below are relative to its directory \<open>src\<close>. The rest of
  the repository is demonstration applications in Objective-C and Swift.

  \<^bold>\<open>The program.\<close> A dispatch queue is an object whose 64-bit state word \<open>dq_state\<close> says who drains
  it, how much of its width is taken, whether a barrier runs and how often it is suspended. Work
  items are continuations, from an allocator behind a cache of every thread. Locks, once predicates,
  semaphores, groups and thread events are the places where threads wait; \<open>dispatch_apply\<close> shares a
  loop out among threads and waits for them with a thread event. Objects of every kind have two
  reference counts. Data objects are immutable byte strings, trees of buffers with reference counts
  of their own, which the transforms encode and decode.

  \<^bold>\<open>Which theory models what.\<close> Functions keep their names, less a leading underscore.

  \<^item> \<open>Dispatch_Prelude\<close>: integer types, checked arithmetic of \<open>os/overflow\<close>, the split of a queue word
  at the width, and the hints that all share. \<open>Thread_Lists\<close>: threads as a list of program counters,
  and counting them.

  \<^item> \<open>Dispatch_Lock\<close>, \<open>Unfair_Lock\<close>, \<open>Thread_Event\<close>, \<open>Dispatch_Once\<close>: \<open>shims/lock.h\<close>, \<open>shims/lock.c\<close>
  and \<open>once.c\<close>. The word of a lock or gate, the functions on it as the code computes them, and step
  relations in which every atomic access is a step; the kernel's wait and wake are steps with the
  documented behaviour, spurious returns included.

  \<^item> \<open>Queue_State\<close>: every mask and accessor of \<open>dq_state\<close> and its transitions, each a loop around a
  compare-and-swap in \<open>inline_internal.h\<close> or \<open>queue.c\<close>, as a function from the old word to the new
  one. \<open>Queue_Concurrency\<close>: threads that apply them in any order, with what every thread believes it
  owns. \<open>Queue_Suspend\<close>: \<open>_dispatch_queue_suspend\<close>, \<open>_dispatch_queue_resume\<close> and activation with
  the side counter, access by access. \<open>Dispatch_Object\<close>: the two reference counts of \<open>object.c\<close>
  and \<open>inline_internal.h\<close>, and disposal.

  \<^item> \<open>Allocator\<close>, \<open>Allocator_Heap\<close>: \<open>allocator.c\<close> and \<open>allocator_internal.h\<close>; the macros of the layout
  of a magazine, the addresses and bitmaps in a memory of words, and every operation. \<open>Allocator_Page\<close>:
  the same accesses to one page by threads that interleave. \<open>Continuation_Cache\<close>: the caches in
  \<open>inline_internal.h\<close> and \<open>queue.c\<close>, over any supplier of continuations (the locale
  \<open>continuation_supplier\<close>). \<open>Continuation_Heap\<close>: the choice between the allocator and \<open>calloc\<close>, which
  interprets that locale.

  \<^item> \<open>Apply\<close>: \<open>apply.c\<close>; the accesses of the threads to the \<open>struct dispatch_apply_s\<close>, around the thread
  event, and the reservation of width along the target queues by the functions of \<open>Queue_State\<close>.

  \<^item> \<open>Dispatch_Data\<close>, \<open>Data_Ops\<close>, \<open>Data_Refs\<close>: \<open>data.c\<close> over a heap of objects; what each operation does
  to the contents, and to the references. \<open>Data_Source\<close>: the locales \<open>data_source\<close> and
  \<open>data_slices\<close>, all that a reader relies on, which \<open>Data_Ops\<close> and \<open>Transform\<close> interpret.
  \<open>Transform\<close>, \<open>Transform_Decode\<close>, \<open>Transform_UTF\<close>: \<open>transform.c\<close>. \<open>Unicode_Encoding\<close>: the encoding
  forms of the Unicode Standard by arithmetic on code points, independent of the code, with the
  standard's examples; the UTF transforms are proved against it.

  \<^item> \<open>Dispatch_Time\<close>, \<open>Semaphore\<close>, \<open>Group\<close>: \<open>time.c\<close>, \<open>shims/time.h\<close> and \<open>semaphore.c\<close>.

  \<^bold>\<open>What is shown.\<close> For the concurrent components an invariant of every reachable configuration, with
  any number of threads: mutual exclusion of locks and queues, bounded width, at most one call of a
  once function and of each index of an apply, safe and exact reference counts, no wake-up that is
  lost, and a simulation of the abstract object (a counter for semaphores and suspension). For the
  sequential components the functional behaviour on every branch: data objects as byte lists, the
  transforms as RFC 4648 and Unicode, times as saturating addition, the allocator as a set. The
  behaviours that are not meant, such as decoding base32hex or a suspend count that wraps, are
  theorems too. Theorems marked C1, C2 and so on are the properties; a theorem named \<open>_witness\<close> applies
  one at a concrete input.

  \<^bold>\<open>Bounds and fuel.\<close> Words are \<open>w word\<close> where the code relies on their width; counters that the code
  keeps in range are natural numbers, with the wrap-around written out and the bound a hypothesis of
  the theorem. Data objects are one level deep, an invariant that their operations keep, so fuel 2
  suffices for their recursions, and running out of it would be an error value. Loops that end are
  \<open>fun\<close> or \<open>function\<close> with a measure. The search through the heaps and the loop around
  \<open>mach_vm_map\<close>, which may not end, are \<open>partial_function (option)\<close>, and \<open>alloc_terminates\<close> shows that
  the first returns when the second does. Steps are sequentially consistent; the memory orders of the
  atomic operations are not modelled.

  \<^bold>\<open>The environment.\<close> The kernel's wait and wake calls, clocks, \<open>mach_vm_map\<close>, \<open>madvise\<close>, \<open>malloc\<close> and
  \<open>calloc\<close>, the number of processors and the functions that clients submit are arguments or steps. The
  build is that of 64-bit macOS: Mach semaphores, \<open>__ulock_wait\<close> and \<open>__ulock_wake\<close>, Mach time in
  nanoseconds. A load beyond the bytes that the transforms had mapped is an error value, also where
  those bytes would lie in a larger buffer.

  \<^bold>\<open>Not modelled.\<close> Sources, timers and Mach channels (\<open>source.c\<close>) and I/O channels (\<open>io.c\<close>), which are
  driven by kernel events; vouchers, activity tracing and firehose; the initialisation, the thread
  pools, attributes, labels and specific values of queues; quality-of-service overrides, which accompany
  many transitions without changing what they do to the fields modelled; in the transforms, the
  temporary objects behind the mapping of a subrange, which are released in the same call, and the
  sizes of the buffers of the base decoders; introspection, benchmarks
  and debug printers; the bindings for Objective-C and Swift and the vendored blocks runtime; the
  builds for Linux and Windows. The applications of the repository and \<open>GCDAssist\<close>, which is
  generated, contain no part of the library.
\<close>

end
